theory Spec2Isabelle
  imports Complex_Main "HOL-Library.Word" "HOL-Library.Sublist" "HOL-Library.Monad_Syntax"
begin

unbundle bit_operations_syntax

section \<open>The flash translation layer of \<^verbatim>\<open>ssd_ftl.cpp\<close>\<close>

text \<open>
  The development embeds the hybrid log-block translation layer of \<^verbatim>\<open>src/ssd_ftl.cpp\<close>.
  Conventions:
  \<^item> The process-wide tables of the source are the fields of the record \<open>ftl\<close>; every
    function takes the state and returns the new one.
  \<^item> A result of type \<open>'a option\<close> is \<open>None\<close> exactly when the C++ has no defined
    result: an array is indexed outside its allocation, the iterator returned by
    \<^verbatim>\<open>log_to_pages.find\<close> is dereferenced although the key is missing, or a loop never
    ends. Theorems that say what the code does therefore conclude \<open>\<dots> = Some \<dots>\<close>.
  \<^item> \<^verbatim>\<open>unsigned int\<close> values that the code computes with (bitmap words, erase counts,
    page counters) are \<open>32 word\<close>s, so they wrap as in the source. Addresses
    (\<^verbatim>\<open>unsigned long\<close>) and geometry constants are natural numbers; \<open>valid_config\<close>
    bounds the geometry so that none of the products of the source overflows. The
    signed block offsets of the two mapping tables are \<open>int\<close>; the conversion of a
    block number to \<^verbatim>\<open>unsigned long\<close> is written out (\<open>ulong\<close>).
  \<^item> \<^verbatim>\<open>ftl.controller.issue(e)\<close> hands the event to the device collaborator, whose
    status the source ignores; the model appends \<open>e\<close> to the field \<open>controller_issued\<close>.
\<close>

subsection \<open>Geometry\<close>

text \<open>
  The geometry constants are declared \<^verbatim>\<open>extern const\<close> in \<^verbatim>\<open>ssd.h\<close> and defined by the
  configuration; they are the parameters of the model. \<^verbatim>\<open>OVERPROVISIONING\<close> is a
  \<^verbatim>\<open>float\<close> percentage, so \<^verbatim>\<open>OP_SIZE\<close> and \<^verbatim>\<open>USABLE_SIZE\<close> are \<^verbatim>\<open>float\<close> values, fractional in
  general, and \<^verbatim>\<open>logical_address >= USABLE_SIZE\<close> compares the address converted to
  \<^verbatim>\<open>float\<close>. The model computes and compares them exactly, as rationals: the rounding of
  \<^verbatim>\<open>float\<close> arithmetic is not part of it. The two agree whenever every value involved is
  a binary fraction with at most 24 significant bits, which \<^verbatim>\<open>float\<close> holds exactly; this is
  the case for each of the concrete geometries of this theory (their values are listed
  with them). No theorem below has a hypothesis on the value of \<^verbatim>\<open>USABLE_SIZE\<close> other than
  the outcome of that comparison.
\<close>

record config =
  SSD_SIZE :: nat
  PACKAGE_SIZE :: nat
  DIE_SIZE :: nat
  PLANE_SIZE :: nat
  BLOCK_SIZE :: nat
  BLOCK_ERASES :: "32 word"
  OVERPROVISIONING :: rat

definition RAW_SIZE :: "config \<Rightarrow> nat" where
  "RAW_SIZE c = SSD_SIZE c * PACKAGE_SIZE c * DIE_SIZE c * PLANE_SIZE c * BLOCK_SIZE c"

definition NUM_OF_PHY_B :: "config \<Rightarrow> nat" where
  "NUM_OF_PHY_B c = RAW_SIZE c div BLOCK_SIZE c"

definition OP_SIZE :: "config \<Rightarrow> rat" where
  "OP_SIZE c = (of_nat (RAW_SIZE c) * OVERPROVISIONING c) / 100"

definition USABLE_SIZE :: "config \<Rightarrow> rat" where
  "USABLE_SIZE c = of_nat (RAW_SIZE c) - OP_SIZE c"

text \<open>The cast \<^verbatim>\<open>(unsigned int)\<close> of a non-negative value truncates.\<close>

definition to_unsigned :: "rat \<Rightarrow> nat" where
  "to_unsigned x = nat \<lfloor>x\<rfloor>"

definition NUM_OF_LGC_B :: "config \<Rightarrow> nat" where
  "NUM_OF_LGC_B c = to_unsigned (USABLE_SIZE c / of_nat (BLOCK_SIZE c))"

definition sizeof_unsigned_int :: nat where
  "sizeof_unsigned_int = 4"

text \<open>
  A geometry is valid when no size is zero, the raw capacity fits an \<^verbatim>\<open>unsigned int\<close>,
  the erase budget leaves room for the sentinel \<^verbatim>\<open>BLOCK_ERASES + 1\<close>, and the
  over-provisioning percentage is not negative. Nothing is required of the usable
  capacity: it need not be a whole number of blocks, nor of pages.
\<close>

definition valid_config :: "config \<Rightarrow> bool" where
  "valid_config c \<longleftrightarrow>
     0 < SSD_SIZE c \<and> 0 < PACKAGE_SIZE c \<and> 0 < DIE_SIZE c \<and> 0 < PLANE_SIZE c \<and>
     0 < BLOCK_SIZE c \<and> RAW_SIZE c < 2 ^ 32 \<and>
     0 < BLOCK_ERASES c \<and> BLOCK_ERASES c < - 1 \<and>
     0 \<le> OVERPROVISIONING c"

subsection \<open>Addresses, events and the state\<close>

datatype event_type = READ | WRITE | ERASE | MERGE

datatype status = FAILURE | SUCCESS | PAGE_INVALID | BLOCK_INVALID | BLOCK_CORRUPT

datatype address_valid = NONE | PACKAGE | DIE | PLANE | BLOCK | PAGE

record address =
  package :: nat
  die :: nat
  plane :: nat
  block :: nat
  page :: nat
  valid :: address_valid

definition Address :: "nat \<Rightarrow> nat \<Rightarrow> nat \<Rightarrow> nat \<Rightarrow> nat \<Rightarrow> address_valid \<Rightarrow> address" where
  "Address pk d pl b pg v =
     \<lparr>package = pk, die = d, plane = pl, block = b, page = pg, valid = v\<rparr>"

text \<open>
  The start time is a \<^verbatim>\<open>double\<close> that the translation layer only stores and copies.
\<close>

type_synonym time = rat

record event =
  ev_type :: event_type
  ev_logical_address :: nat
  ev_size :: nat
  ev_start_time :: time
  ev_address :: address

text \<open>\<^verbatim>\<open>Event(type, logical_address, size, start_time)\<close> followed by \<^verbatim>\<open>set_address\<close>.\<close>

definition Event :: "event_type \<Rightarrow> nat \<Rightarrow> nat \<Rightarrow> time \<Rightarrow> address \<Rightarrow> event" where
  "Event t la n st a =
     \<lparr>ev_type = t, ev_logical_address = la, ev_size = n, ev_start_time = st, ev_address = a\<rparr>"

record ftl =
  logical_to_emptiness :: "32 word list"
  erase_count :: "32 word list"
  logical_to_physical :: "int list"
  data_to_log :: "int list"
  log_to_pages :: "nat \<rightharpoonup> string"
  start_time :: time
  op_blocks :: "nat list"
  controller_issued :: "event list"

definition issue :: "event \<Rightarrow> ftl \<Rightarrow> ftl" where
  "issue e s = s\<lparr>controller_issued := controller_issued s @ [e]\<rparr>"

text \<open>Reading and writing a C array: outside the allocation there is no defined result.\<close>

definition array_get :: "'a list \<Rightarrow> nat \<Rightarrow> 'a option" where
  "array_get xs i = (if i < length xs then Some (xs ! i) else None)"

definition array_set :: "'a list \<Rightarrow> nat \<Rightarrow> 'a \<Rightarrow> 'a list option" where
  "array_set xs i v = (if i < length xs then Some (xs[i := v]) else None)"

text \<open>Dereferencing the iterator that \<^verbatim>\<open>find\<close> returned.\<close>

definition deref :: "'a option \<Rightarrow> 'a option" where
  "deref it = it"

text \<open>The conversion \<^verbatim>\<open>(unsigned long) n\<close> of an \<^verbatim>\<open>int\<close>.\<close>

definition ulong :: "int \<Rightarrow> nat" where
  "ulong n = nat (n mod 2 ^ 64)"

subsection \<open>The written bitmap and the two offset tables\<close>

definition check_page_empty :: "ftl \<Rightarrow> nat \<Rightarrow> bool option" where
  "check_page_empty s lba = do {
     flag \<leftarrow> array_get (logical_to_emptiness s) (lba div sizeof_unsigned_int);
     Some ((drop_bit (lba mod sizeof_unsigned_int) flag AND 1) = 0)
   }"

definition set_page_written :: "nat \<Rightarrow> ftl \<Rightarrow> ftl option" where
  "set_page_written lba s = do {
     flag \<leftarrow> array_get (logical_to_emptiness s) (lba div sizeof_unsigned_int);
     bitmap \<leftarrow> array_set (logical_to_emptiness s) (lba div sizeof_unsigned_int)
                (flag OR push_bit (lba mod sizeof_unsigned_int) 1);
     Some (s\<lparr>logical_to_emptiness := bitmap\<rparr>)
   }"

definition block_address :: "config \<Rightarrow> nat \<Rightarrow> int \<Rightarrow> nat" where
  "block_address c pg n = (pg + ulong n * BLOCK_SIZE c) mod 2 ^ 64"

definition check_physical_address :: "config \<Rightarrow> ftl \<Rightarrow> nat \<Rightarrow> nat option" where
  "check_physical_address c s logical_address = do {
     let pg = logical_address mod BLOCK_SIZE c;
     let nth_logical_block = logical_address div BLOCK_SIZE c;
     offset \<leftarrow> array_get (logical_to_physical s) nth_logical_block;
     let nth_physical_block = int nth_logical_block + offset;
     Some (block_address c pg nth_physical_block)
   }"

definition set_physical_address :: "config \<Rightarrow> nat \<Rightarrow> nat \<Rightarrow> ftl \<Rightarrow> ftl option" where
  "set_physical_address c logical_address physical_address s = do {
     let nth_logical_block = logical_address div BLOCK_SIZE c;
     let nth_physical_block = physical_address div BLOCK_SIZE c;
     table \<leftarrow> array_set (logical_to_physical s) nth_logical_block
                (int nth_physical_block - int nth_logical_block);
     Some (s\<lparr>logical_to_physical := table\<rparr>)
   }"

text \<open>
  \<^verbatim>\<open>check_log_block\<close> returns \<^verbatim>\<open>false\<close> (\<open>Some None\<close>) when the offset is 0 and otherwise
  stores the address of the log block (\<open>Some (Some log_address)\<close>).
\<close>

definition check_log_block :: "config \<Rightarrow> ftl \<Rightarrow> nat \<Rightarrow> nat option option" where
  "check_log_block c s data_address = do {
     let pg = data_address mod BLOCK_SIZE c;
     let nth_data_block = data_address div BLOCK_SIZE c;
     offset \<leftarrow> array_get (data_to_log s) nth_data_block;
     if offset = 0 then Some None
     else Some (Some (block_address c pg (int nth_data_block + offset)))
   }"

definition set_log_block :: "config \<Rightarrow> nat \<Rightarrow> nat \<Rightarrow> ftl \<Rightarrow> ftl option" where
  "set_log_block c data_address log_address s = do {
     let nth_data_block = data_address div BLOCK_SIZE c;
     let nth_log_block = log_address div BLOCK_SIZE c;
     table \<leftarrow> array_set (data_to_log s) nth_data_block
                (int nth_log_block - int nth_data_block);
     Some (s\<lparr>data_to_log := table\<rparr>)
   }"

definition cancel_log_block :: "config \<Rightarrow> nat \<Rightarrow> ftl \<Rightarrow> ftl option" where
  "cancel_log_block c data_address s = do {
     r \<leftarrow> check_log_block c s data_address;
     let s1 = (case r of
                 Some log_address \<Rightarrow> s\<lparr>log_to_pages := (log_to_pages s)(log_address := None)\<rparr>
               | None \<Rightarrow> s);
     set_log_block c data_address data_address s1
   }"


subsection \<open>Log-block manifests\<close>

text \<open>
  A manifest is a \<^verbatim>\<open>std::string\<close>: the decimal page offsets in arrival order, each
  followed by a comma. \<open>to_string\<close> is \<^verbatim>\<open>std::to_string\<close> on a non-negative
  \<^verbatim>\<open>long long\<close>. A position of type \<^verbatim>\<open>size_t\<close> is a natural number, and \<open>None\<close>
  stands for \<^verbatim>\<open>std::string::npos\<close>.
\<close>

definition digit_char :: "nat \<Rightarrow> char" where
  "digit_char d = ''0123456789'' ! d"

function to_string :: "nat \<Rightarrow> string" where
  "to_string n = (if n < 10 then [digit_char n]
                  else to_string (n div 10) @ [digit_char (n mod 10)])"
  by pat_completeness auto
termination
  by (relation "measure id") auto

primrec first_match :: "string \<Rightarrow> string \<Rightarrow> nat option" where
  "first_match pat [] = (if pat = [] then Some 0 else None)"
| "first_match pat (x # xs) =
     (if prefix pat (x # xs) then Some 0 else map_option Suc (first_match pat xs))"

primrec last_match :: "string \<Rightarrow> string \<Rightarrow> nat option" where
  "last_match pat [] = (if pat = [] then Some 0 else None)"
| "last_match pat (x # xs) =
     (case last_match pat xs of
        Some i \<Rightarrow> Some (Suc i)
      | None \<Rightarrow> if prefix pat (x # xs) then Some 0 else None)"

text \<open>\<^verbatim>\<open>s.find(pat, pos)\<close> and \<^verbatim>\<open>s.rfind(pat)\<close>.\<close>

definition str_find :: "string \<Rightarrow> string \<Rightarrow> nat \<Rightarrow> nat option" where
  "str_find s pat pos =
     (if length s < pos then None
      else map_option (\<lambda>i. pos + i) (first_match pat (drop pos s)))"

definition str_rfind :: "string \<Rightarrow> string \<Rightarrow> nat option" where
  "str_rfind s pat = last_match pat s"

text \<open>
  The counting loop of \<^verbatim>\<open>fetch_log_page\<close>:
  \<^verbatim>\<open>while (index != loc) { count++; index++; index = offsets.find(",", index); }\<close>.
  When \<^verbatim>\<open>index\<close> is \<^verbatim>\<open>npos\<close> the increment wraps to 0 and the search starts over, so
  the loop need not end; it is a partial function.
\<close>

partial_function (option) count_pages ::
  "string \<Rightarrow> nat \<Rightarrow> 32 word \<Rightarrow> nat option \<Rightarrow> 32 word option" where
  [code]: "count_pages offsets loc count index =
     (if index \<noteq> Some loc
      then count_pages offsets loc (count + 1)
             (str_find offsets '','' (case index of None \<Rightarrow> 0 | Some i \<Rightarrow> i + 1))
      else Some count)"

text \<open>
  \<^verbatim>\<open>fetch_log_page\<close> returns \<^verbatim>\<open>false\<close> (\<open>Some None\<close>) or stores the page of the log block
  (\<open>Some (Some log_page)\<close>).
\<close>

definition fetch_log_page :: "string \<Rightarrow> nat \<Rightarrow> nat option option" where
  "fetch_log_page offsets data_page =
     (if offsets = [] then Some None
      else case str_rfind offsets ('','' @ to_string data_page @ '','') of
        None \<Rightarrow>
          (if str_find offsets (to_string data_page @ '','') 0 = Some 0
           then Some (Some 0) else Some None)
      | Some loc \<Rightarrow> do {
          count \<leftarrow> count_pages offsets loc 0 (str_find offsets '','' 0);
          Some (Some (unat (count + 1)))
        })"

text \<open>
  The loop of \<^verbatim>\<open>next_free_log_page\<close> counts the commas:
  \<^verbatim>\<open>while (loc != npos) { count++; loc++; loc = offsets.find(",", loc); }\<close>.
\<close>

function count_commas :: "string \<Rightarrow> nat option \<Rightarrow> 32 word \<Rightarrow> 32 word" where
  "count_commas offsets loc count =
     (case loc of
        None \<Rightarrow> count
      | Some l \<Rightarrow> count_commas offsets (str_find offsets '','' (l + 1)) (count + 1))"
  by pat_completeness auto
termination
proof (relation "measure (\<lambda>(s, loc, n). case loc of None \<Rightarrow> 0 | Some l \<Rightarrow> Suc (Suc (length s) - l))")
  show "wf (measure (\<lambda>(s, loc, n). case loc of None \<Rightarrow> 0 | Some l \<Rightarrow> Suc (Suc (length s) - l)))"
    by simp
next
  fix offsets :: string and loc :: "nat option" and count :: "32 word" and l :: nat
  assume loc: "loc = Some l"
  have fm: "first_match pat t = Some i \<Longrightarrow> i \<le> length t" for pat t i
    by (induction t arbitrary: i) (auto split: if_splits)
  have "l + 1 \<le> i \<and> i \<le> length offsets" if "str_find offsets '','' (l + 1) = Some i" for i
    using that by (auto simp: str_find_def split: if_splits dest!: fm)
  with loc show "((offsets, str_find offsets '','' (l + 1), count + 1), offsets, loc, count)
        \<in> measure (\<lambda>(s, loc, n). case loc of None \<Rightarrow> 0 | Some l \<Rightarrow> Suc (Suc (length s) - l))"
    by (cases "str_find offsets '','' (l + 1)") auto
qed

definition next_free_log_page :: "config \<Rightarrow> string \<Rightarrow> nat option" where
  "next_free_log_page c offsets =
     (let count = count_commas offsets (str_find offsets '','' 0) 0
      in if BLOCK_SIZE c \<le> unat count then None else Some (unat count))"


subsection \<open>Erase counts and the search for an empty data block\<close>

definition over_erase_limit :: "config \<Rightarrow> ftl \<Rightarrow> nat \<Rightarrow> bool option" where
  "over_erase_limit c s physical_address = do {
     n \<leftarrow> array_get (erase_count s) (physical_address div BLOCK_SIZE c);
     Some (BLOCK_ERASES c \<le> n)
   }"

definition update_erase_count :: "config \<Rightarrow> nat \<Rightarrow> ftl \<Rightarrow> ftl option" where
  "update_erase_count c physical_address s = do {
     n \<leftarrow> array_get (erase_count s) (physical_address div BLOCK_SIZE c);
     table \<leftarrow> array_set (erase_count s) (physical_address div BLOCK_SIZE c) (n + 1);
     Some (s\<lparr>erase_count := table\<rparr>)
   }"

text \<open>
  A \<^verbatim>\<open>for\<close> loop over the indices \<open>is\<close> whose body updates a loop state and may be
  undefined.
\<close>

fun for_loop :: "nat list \<Rightarrow> (nat \<Rightarrow> 'a \<Rightarrow> 'a option) \<Rightarrow> 'a \<Rightarrow> 'a option" where
  "for_loop [] body a = Some a"
| "for_loop (i # is) body a = (case body i a of None \<Rightarrow> None | Some a' \<Rightarrow> for_loop is body a')"

text \<open>
  The inner loop that sets \<^verbatim>\<open>non_empty\<close> and leaves at the first written page:
  \<^verbatim>\<open>for (j = 0; j < BLOCK_SIZE; j++) if (!check_page_empty(base + j)) { non_empty = true; break; }\<close>
\<close>

fun non_empty :: "ftl \<Rightarrow> nat \<Rightarrow> nat list \<Rightarrow> bool option" where
  "non_empty s base [] = Some False"
| "non_empty s base (j # js) = do {
     e \<leftarrow> check_page_empty s (base + j);
     if \<not> e then Some True else non_empty s base js
   }"

text \<open>
  The scan shared, line by line, by \<^verbatim>\<open>find_empty_data_block_for_cleaning\<close> and
  \<^verbatim>\<open>find_empty_data_block_for_remapping\<close>. The loop state is \<^verbatim>\<open>min_count\<close> and the
  last values stored through the two out-parameters.
\<close>

definition find_empty_step ::
  "config \<Rightarrow> ftl \<Rightarrow> nat \<Rightarrow> 32 word \<times> (nat \<times> nat) option \<Rightarrow> (32 word \<times> (nat \<times> nat) option) option" where
  "find_empty_step c s i acc = do {
     data_address \<leftarrow> check_physical_address c s (i * BLOCK_SIZE c);
     ne \<leftarrow> non_empty s (i * BLOCK_SIZE c) [0..<BLOCK_SIZE c];
     count \<leftarrow> array_get (erase_count s) (data_address div BLOCK_SIZE c);
     if \<not> ne \<and> count < fst acc \<and> count < BLOCK_ERASES c
     then Some (count, Some (data_address, i * BLOCK_SIZE c))
     else Some acc
   }"

definition find_empty_data_block_for_remapping :: "config \<Rightarrow> ftl \<Rightarrow> (nat \<times> nat) option option" where
  "find_empty_data_block_for_remapping c s = do {
     (min_count, found) \<leftarrow>
        for_loop [0..<NUM_OF_LGC_B c] (find_empty_step c s) (BLOCK_ERASES c + 1, None);
     Some (if min_count \<noteq> BLOCK_ERASES c + 1 then found else None)
   }"

definition find_empty_data_block_for_cleaning :: "config \<Rightarrow> ftl \<Rightarrow> nat option option" where
  "find_empty_data_block_for_cleaning c s = do {
     (min_count, found) \<leftarrow>
        for_loop [0..<NUM_OF_LGC_B c] (find_empty_step c s) (BLOCK_ERASES c + 1, None);
     Some (if min_count \<noteq> BLOCK_ERASES c + 1 then map_option fst found else None)
   }"

definition map_physical_to_SSD :: "config \<Rightarrow> nat \<Rightarrow> nat \<times> nat \<times> nat \<times> nat \<times> nat" where
  "map_physical_to_SSD c phy =
     (((((phy div BLOCK_SIZE c) div PLANE_SIZE c) div DIE_SIZE c) div PACKAGE_SIZE c) mod SSD_SIZE c,
      (((phy div BLOCK_SIZE c) div PLANE_SIZE c) div DIE_SIZE c) mod PACKAGE_SIZE c,
      ((phy div BLOCK_SIZE c) div PLANE_SIZE c) mod DIE_SIZE c,
      (phy div BLOCK_SIZE c) mod PLANE_SIZE c,
      phy mod BLOCK_SIZE c)"

text \<open>
  \<^verbatim>\<open>map_physical_to_SSD(pba, &package, &die, &plane, &block, &dummy)\<close> followed by
  \<^verbatim>\<open>Address(package, die, plane, block, pg, PAGE)\<close>, respectively by
  \<^verbatim>\<open>Address(package, die, plane, block, 0, BLOCK)\<close>.
\<close>

definition page_address :: "config \<Rightarrow> nat \<Rightarrow> nat \<Rightarrow> address" where
  "page_address c pba pg =
     (case map_physical_to_SSD c pba of (pk, d, pl, b, dummy) \<Rightarrow> Address pk d pl b pg PAGE)"

definition whole_block_address :: "config \<Rightarrow> nat \<Rightarrow> address" where
  "whole_block_address c pba =
     (case map_physical_to_SSD c pba of (pk, d, pl, b, dummy) \<Rightarrow> Address pk d pl b 0 BLOCK)"

subsection \<open>Cleaning\<close>

text \<open>The body of the first loop of \<^verbatim>\<open>clean\<close>: one live page goes to the cleaning block.\<close>

definition clean_copy_out ::
  "config \<Rightarrow> nat \<Rightarrow> nat \<Rightarrow> nat \<Rightarrow> nat \<Rightarrow> string option \<Rightarrow> nat \<Rightarrow> ftl \<Rightarrow> ftl option" where
  "clean_copy_out c logical_block data_pba log_pba cln_pba log_pages i s = do {
     e \<leftarrow> check_page_empty s (logical_block + i);
     if \<not> e then do {
       offsets \<leftarrow> deref log_pages;
       r \<leftarrow> fetch_log_page offsets i;
       let src_addr = (case r of
                         Some log_page \<Rightarrow> page_address c log_pba log_page
                       | None \<Rightarrow> page_address c data_pba i);
       let s1 = issue (Event READ (logical_block + i) 1 (start_time s) src_addr) s;
       Some (issue (Event WRITE (logical_block + i) 1 (start_time s) (page_address c cln_pba i)) s1)
     } else Some s
   }"

text \<open>The body of the second loop: the page comes back from the cleaning block.\<close>

definition copy_page :: "config \<Rightarrow> nat \<Rightarrow> nat \<Rightarrow> nat \<Rightarrow> nat \<Rightarrow> ftl \<Rightarrow> ftl option" where
  "copy_page c logical_block src_pba des_pba i s = do {
     e \<leftarrow> check_page_empty s (logical_block + i);
     if \<not> e then do {
       let s1 = issue (Event READ (logical_block + i) 1 (start_time s) (page_address c src_pba i)) s;
       Some (issue (Event WRITE (logical_block + i) 1 (start_time s) (page_address c des_pba i)) s1)
     } else Some s
   }"

definition clean :: "config \<Rightarrow> nat \<Rightarrow> nat \<Rightarrow> nat \<Rightarrow> ftl \<Rightarrow> (bool \<times> ftl) option" where
  "clean c logical_block data_pba log_pba s = do {
     let log_addr = whole_block_address c log_pba;
     let data_addr = whole_block_address c data_pba;
     r \<leftarrow> find_empty_data_block_for_cleaning c s;
     case r of
       None \<Rightarrow> Some (False, s)
     | Some cln_pba \<Rightarrow> do {
         let cln_addr = whole_block_address c cln_pba;
         let log_pages = log_to_pages s log_pba;
         s1 \<leftarrow> for_loop [0..<BLOCK_SIZE c]
                 (clean_copy_out c logical_block data_pba log_pba cln_pba log_pages) s;
         let s2 = issue (Event ERASE logical_block 1 (start_time s1) data_addr) s1;
         let s3 = issue (Event ERASE logical_block 1 (start_time s2) log_addr) s2;
         s4 \<leftarrow> for_loop [0..<BLOCK_SIZE c] (copy_page c logical_block cln_pba data_pba) s3;
         let s5 = issue (Event ERASE logical_block 1 (start_time s4) cln_addr) s4;
         s6 \<leftarrow> update_erase_count c data_pba s5;
         s7 \<leftarrow> update_erase_count c log_pba s6;
         s8 \<leftarrow> update_erase_count c cln_pba s7;
         Some (True, s8)
       }
   }"


subsection \<open>Wear balancing and the free pool\<close>

text \<open>
  First loop of \<^verbatim>\<open>shuffle_data_log\<close>: the data/log pair with the greatest combined erase
  count among the pairs in which neither block is at \<^verbatim>\<open>BLOCK_ERASES\<close>. The loop state is
  (\<^verbatim>\<open>max_count\<close>, \<^verbatim>\<open>max_erase_log\<close>, \<^verbatim>\<open>max_erase_data\<close>).
\<close>

definition max_pair_step ::
  "config \<Rightarrow> ftl \<Rightarrow> nat \<Rightarrow> 32 word \<times> nat \<times> nat \<Rightarrow> (32 word \<times> nat \<times> nat) option" where
  "max_pair_step c s i acc = do {
     let data_address = i * BLOCK_SIZE c;
     r \<leftarrow> check_log_block c s data_address;
     case r of
       None \<Rightarrow> Some acc
     | Some log_address \<Rightarrow> do {
         log_count \<leftarrow> array_get (erase_count s) (log_address div BLOCK_SIZE c);
         data_count \<leftarrow> array_get (erase_count s) (data_address div BLOCK_SIZE c);
         if log_count \<noteq> BLOCK_ERASES c \<and> data_count \<noteq> BLOCK_ERASES c \<and>
            fst acc \<le> log_count + data_count
         then Some (log_count + data_count, log_address, data_address)
         else Some acc
       }
   }"

text \<open>
  The search for the logical block mapped to a data block; it leaves at the first match
  and yields \<^verbatim>\<open>RAW_SIZE\<close> when there is none.
\<close>

fun find_logical_block :: "config \<Rightarrow> ftl \<Rightarrow> nat \<Rightarrow> nat list \<Rightarrow> nat option" where
  "find_logical_block c s target [] = Some (RAW_SIZE c)"
| "find_logical_block c s target (i # is) = do {
     let logical_address = i * BLOCK_SIZE c;
     to_match \<leftarrow> check_physical_address c s logical_address;
     if to_match = target then Some logical_address else find_logical_block c s target is
   }"

text \<open>
  Third loop: the data block without a log block that has the fewest erases. The loop
  state is (\<^verbatim>\<open>min_count\<close>, \<^verbatim>\<open>min_erase_data\<close>).
\<close>

definition min_data_step :: "config \<Rightarrow> ftl \<Rightarrow> nat \<Rightarrow> 32 word \<times> nat \<Rightarrow> (32 word \<times> nat) option" where
  "min_data_step c s i acc = do {
     let logical_address = i * BLOCK_SIZE c;
     data_address \<leftarrow> check_physical_address c s logical_address;
     r \<leftarrow> check_log_block c s data_address;
     case r of
       Some dummy \<Rightarrow> Some acc
     | None \<Rightarrow> do {
         count \<leftarrow> array_get (erase_count s) (data_address div BLOCK_SIZE c);
         if count < fst acc then Some (count, data_address) else Some acc
       }
   }"

definition shuffle_data_log :: "config \<Rightarrow> ftl \<Rightarrow> (bool \<times> ftl) option" where
  "shuffle_data_log c s = do {
     (max_count, max_erase_log, max_erase_data) \<leftarrow>
        for_loop [0..<NUM_OF_PHY_B c] (max_pair_step c s) (0, RAW_SIZE c, RAW_SIZE c);
     if max_erase_data = RAW_SIZE c \<or> max_erase_log = RAW_SIZE c then Some (False, s)
     else do {
       logical_block \<leftarrow> find_logical_block c s max_erase_data [0..<NUM_OF_LGC_B c];
       if logical_block = RAW_SIZE c then Some (False, s)
       else do {
         (min_count, min_erase_data) \<leftarrow>
            for_loop [0..<NUM_OF_LGC_B c] (min_data_step c s) (BLOCK_ERASES c + 1, RAW_SIZE c);
         if min_erase_data = RAW_SIZE c then Some (False, s)
         else if BLOCK_ERASES c - 1 \<le> min_count then Some (False, s)
         else do {
           (cleaned, s1) \<leftarrow> clean c logical_block max_erase_data max_erase_log s;
           if \<not> cleaned then Some (False, s1)
           else do {
             s2 \<leftarrow> cancel_log_block c max_erase_data s1;
             logical_block2 \<leftarrow> find_logical_block c s2 min_erase_data [0..<NUM_OF_LGC_B c];
             if logical_block2 = RAW_SIZE c then Some (False, s2)
             else do {
               s3 \<leftarrow> for_loop [0..<BLOCK_SIZE c]
                       (copy_page c logical_block2 min_erase_data max_erase_log) s2;
               let s4 = issue (Event ERASE logical_block2 1 (start_time s3)
                                 (whole_block_address c min_erase_data)) s3;
               s5 \<leftarrow> set_physical_address c logical_block2 max_erase_log s4;
               Some (True, s5\<lparr>op_blocks := op_blocks s5 @ [min_erase_data]\<rparr>)
             }
           }
         }
       }
     }
   }"

text \<open>
  The loop of \<^verbatim>\<open>next_unmapped_log_block\<close>:
  \<^verbatim>\<open>while (i < op_blocks.size()) { *log_address = op_blocks[op_blocks.size() - 1 - i];
  op_blocks.pop_back(); if (!over_erase_limit(*log_address)) return true; i++; }\<close>
\<close>

function pop_log_block :: "config \<Rightarrow> nat \<Rightarrow> ftl \<Rightarrow> (nat option \<times> ftl) option" where
  "pop_log_block c i s =
     (if i < length (op_blocks s) then do {
        let log_address = op_blocks s ! (length (op_blocks s) - 1 - i);
        let s1 = s\<lparr>op_blocks := butlast (op_blocks s)\<rparr>;
        over \<leftarrow> over_erase_limit c s1 log_address;
        if \<not> over then Some (Some log_address, s1) else pop_log_block c (i + 1) s1
      } else Some (None, s))"
  by pat_completeness auto
termination
  by (relation "measure (\<lambda>(c, i, s). length (op_blocks s) - i)") auto

definition next_unmapped_log_block :: "config \<Rightarrow> ftl \<Rightarrow> (nat option \<times> ftl) option" where
  "next_unmapped_log_block c s =
     (if op_blocks s = [] then do {
        (shuffled, s1) \<leftarrow> shuffle_data_log c s;
        if \<not> shuffled then Some (None, s1) else pop_log_block c 0 s1
      } else pop_log_block c 0 s)"


subsection \<open>Moving out of a block at the erase limit\<close>

text \<open>
  The loop body of \<^verbatim>\<open>remap_data_block\<close>: a written page without a copy in the log block
  moves from the old to the new data block.
\<close>

definition remap_data_copy ::
  "config \<Rightarrow> nat \<Rightarrow> nat \<Rightarrow> nat \<Rightarrow> string option \<Rightarrow> nat \<Rightarrow> ftl \<Rightarrow> ftl option" where
  "remap_data_copy c logical_block old_data_pba new_data_pba log_pages i s = do {
     e \<leftarrow> check_page_empty s (logical_block + i);
     if \<not> e then do {
       offsets \<leftarrow> deref log_pages;
       r \<leftarrow> fetch_log_page offsets i;
       case r of
         Some log_page \<Rightarrow> Some s
       | None \<Rightarrow> do {
           let s1 = issue (Event READ (logical_block + i) 1 (start_time s)
                             (page_address c old_data_pba i)) s;
           Some (issue (Event WRITE (logical_block + i) 1 (start_time s)
                          (page_address c new_data_pba i)) s1)
         }
     } else Some s
   }"

text \<open>
  \<^verbatim>\<open>remap_data_block\<close> returns the new data block, or \<^verbatim>\<open>log_pba\<close> when no block is left.
\<close>

definition remap_data_block :: "config \<Rightarrow> nat \<Rightarrow> nat \<Rightarrow> nat \<Rightarrow> ftl \<Rightarrow> (nat \<times> ftl) option" where
  "remap_data_block c logical_block old_data_pba log_pba s = do {
     r \<leftarrow> find_empty_data_block_for_remapping c s;
     (target, s1) \<leftarrow>
        (case r of
           Some (new_data_pba, new_logical_block) \<Rightarrow> Some (Some (new_data_pba, new_logical_block), s)
         | None \<Rightarrow> do {
             (r', s') \<leftarrow> next_unmapped_log_block c s;
             Some (map_option (\<lambda>new_data_pba. (new_data_pba, RAW_SIZE c)) r', s')
           });
     case target of
       None \<Rightarrow> Some (log_pba, s1)
     | Some (new_data_pba, new_logical_block) \<Rightarrow> do {
         let log_pages = log_to_pages s1 log_pba;
         s2 \<leftarrow> for_loop [0..<BLOCK_SIZE c]
                 (remap_data_copy c logical_block old_data_pba new_data_pba log_pages) s1;
         s3 \<leftarrow> (if new_logical_block \<noteq> RAW_SIZE c
                 then set_physical_address c new_logical_block old_data_pba s2 else Some s2);
         s4 \<leftarrow> set_physical_address c logical_block new_data_pba s3;
         s5 \<leftarrow> set_log_block c old_data_pba old_data_pba s4;
         s6 \<leftarrow> set_log_block c new_data_pba log_pba s5;
         Some (new_data_pba, s6)
       }
   }"

text \<open>
  The loop body of \<^verbatim>\<open>remap_log_block\<close>; the loop state is (\<^verbatim>\<open>j\<close>, \<^verbatim>\<open>offsets\<close>, state).
\<close>

definition remap_log_copy ::
  "config \<Rightarrow> nat \<Rightarrow> nat \<Rightarrow> nat \<Rightarrow> string option \<Rightarrow> nat \<Rightarrow> nat \<times> string \<times> ftl \<Rightarrow>
     (nat \<times> string \<times> ftl) option" where
  "remap_log_copy c logical_block old_log_pba new_log_pba log_pages i acc =
     (case acc of (j, offsets, s) \<Rightarrow> do {
        e \<leftarrow> check_page_empty s (logical_block + i);
        if \<not> e then do {
          old_offsets \<leftarrow> deref log_pages;
          r \<leftarrow> fetch_log_page old_offsets i;
          case r of
            None \<Rightarrow> Some acc
          | Some log_page \<Rightarrow> do {
              let s1 = issue (Event READ (logical_block + i) 1 (start_time s)
                                (page_address c old_log_pba log_page)) s;
              let s2 = issue (Event WRITE (logical_block + i) 1 (start_time s)
                                (page_address c new_log_pba j)) s1;
              Some (j + 1, offsets @ to_string i @ '','', s2)
            }
        } else Some acc
      })"

text \<open>
  \<^verbatim>\<open>remap_log_block\<close> returns the new log block, or \<^verbatim>\<open>data_pba\<close> when no block is left.
\<close>

definition remap_log_block :: "config \<Rightarrow> nat \<Rightarrow> nat \<Rightarrow> nat \<Rightarrow> ftl \<Rightarrow> (nat \<times> ftl) option" where
  "remap_log_block c logical_block data_pba old_log_pba s = do {
     (r, s1) \<leftarrow> next_unmapped_log_block c s;
     case r of
       None \<Rightarrow> Some (data_pba, s1)
     | Some new_log_pba \<Rightarrow> do {
         let log_pages = log_to_pages s1 old_log_pba;
         (j, offsets, s2) \<leftarrow> for_loop [0..<BLOCK_SIZE c]
            (remap_log_copy c logical_block old_log_pba new_log_pba log_pages) (0, [], s1);
         s3 \<leftarrow> cancel_log_block c data_pba s2;
         s4 \<leftarrow> set_log_block c data_pba new_log_pba s3;
         Some (new_log_pba, s4\<lparr>log_to_pages := (log_to_pages s4)(new_log_pba \<mapsto> offsets)\<rparr>)
       }
   }"

subsection \<open>Initialisation and translation\<close>

text \<open>
  The loop of \<^verbatim>\<open>init_ftl_user\<close> that fills the free pool:
  \<^verbatim>\<open>for (unsigned int i = USABLE_SIZE; i < RAW_SIZE; i += BLOCK_SIZE) op_blocks.push_back(i);\<close>
\<close>

function push_op_blocks :: "config \<Rightarrow> nat \<Rightarrow> nat list \<Rightarrow> nat list" where
  "push_op_blocks c i blocks =
     (if i < RAW_SIZE c then push_op_blocks c (i + BLOCK_SIZE c) (blocks @ [i]) else blocks)"
  by pat_completeness auto
termination
proof (relation "measure (\<lambda>(c, i, blocks). RAW_SIZE c - i)")
  show "wf (measure (\<lambda>(c, i, blocks). RAW_SIZE c - i))"
    by simp
next
  fix c :: config and i :: nat and blocks :: "nat list"
  assume less: "i < RAW_SIZE c"
  then have "0 < BLOCK_SIZE c"
    by (cases "BLOCK_SIZE c = 0") (simp_all add: RAW_SIZE_def)
  with less show "((c, i + BLOCK_SIZE c, blocks @ [i]), c, i, blocks)
        \<in> measure (\<lambda>(c, i, blocks). RAW_SIZE c - i)"
    by simp
qed

text \<open>
  The tables are allocated zero-filled; the other globals start empty. The bitmap has
  \<^verbatim>\<open>(USABLE_SIZE + sizeof (unsigned int) - 1) / sizeof (unsigned int)\<close> words.
\<close>

definition emp_len :: "config \<Rightarrow> nat" where
  "emp_len c = to_unsigned ((USABLE_SIZE c + of_nat sizeof_unsigned_int - 1)
                  / of_nat sizeof_unsigned_int)"

definition init_ftl_user :: "config \<Rightarrow> ftl" where
  "init_ftl_user c =
     \<lparr>logical_to_emptiness = replicate (emp_len c) 0,
      erase_count = replicate (NUM_OF_PHY_B c) 0,
      logical_to_physical = replicate (NUM_OF_LGC_B c) 0,
      data_to_log = replicate (NUM_OF_PHY_B c) 0,
      log_to_pages = Map.empty,
      start_time = 0,
      op_blocks = push_op_blocks c (to_unsigned (USABLE_SIZE c)) [],
      controller_issued = []\<rparr>"


text \<open>Subtraction of \<^verbatim>\<open>unsigned long\<close> values.\<close>

definition ulong_sub :: "nat \<Rightarrow> nat \<Rightarrow> nat" where
  "ulong_sub a b = (a + 2 ^ 64 - b mod 2 ^ 64) mod 2 ^ 64"

text \<open>
  The branch of \<^verbatim>\<open>translate\<close> for a full log block: move out of blocks at the erase
  limit, clean, and hand out page 0 of the cleaned log block.
\<close>

definition translate_clean ::
  "config \<Rightarrow> event \<Rightarrow> nat \<Rightarrow> nat \<Rightarrow> nat \<Rightarrow> nat \<Rightarrow> ftl \<Rightarrow> (status \<times> event \<times> ftl) option" where
  "translate_clean c event logical_address pg data_address log_address s = do {
     over_data \<leftarrow> over_erase_limit c s data_address;
     (data_address1, s1) \<leftarrow>
        (if over_data
         then remap_data_block c (ulong_sub logical_address pg) data_address log_address s
         else Some (data_address, s));
     if over_data \<and> log_address = data_address1 then Some (FAILURE, event, s1)
     else do {
       over_log \<leftarrow> over_erase_limit c s1 log_address;
       (log_address1, s2) \<leftarrow>
          (if over_log
           then remap_log_block c (ulong_sub logical_address pg) data_address1 log_address s1
           else Some (log_address, s1));
       if over_log \<and> log_address1 = data_address1 then Some (FAILURE, event, s2)
       else do {
         (cleaned, s3) \<leftarrow> clean c (ulong_sub logical_address pg) data_address1 log_address1 s2;
         if \<not> cleaned then Some (FAILURE, event, s3)
         else Some (SUCCESS,
                    event\<lparr>ev_address := page_address c log_address1 0\<rparr>,
                    s3\<lparr>log_to_pages := (log_to_pages s3)(log_address1 \<mapsto> to_string pg @ '','')\<rparr>)
       }
     }
   }"

definition translate_write ::
  "config \<Rightarrow> event \<Rightarrow> nat \<Rightarrow> address \<Rightarrow> nat \<Rightarrow> nat \<Rightarrow> ftl \<Rightarrow> (status \<times> event \<times> ftl) option" where
  "translate_write c event logical_address pba pg data_address s = do {
     e \<leftarrow> check_page_empty s logical_address;
     if e then do {
       s1 \<leftarrow> set_page_written logical_address s;
       Some (SUCCESS, event\<lparr>ev_address := pba\<rparr>, s1)
     } else do {
       r \<leftarrow> check_log_block c s data_address;
       case r of
         Some log_address \<Rightarrow> do {
           offsets \<leftarrow> deref (log_to_pages s log_address);
           case next_free_log_page c offsets of
             Some log_page \<Rightarrow>
               Some (SUCCESS,
                     event\<lparr>ev_address := page_address c log_address log_page\<rparr>,
                     s\<lparr>log_to_pages :=
                         (log_to_pages s)(log_address \<mapsto> offsets @ to_string pg @ '','')\<rparr>)
           | None \<Rightarrow> translate_clean c event logical_address pg data_address log_address s
         }
       | None \<Rightarrow> do {
           (r', s1) \<leftarrow> next_unmapped_log_block c s;
           case r' of
             Some log_address \<Rightarrow> do {
               s2 \<leftarrow> set_log_block c data_address log_address s1;
               let offsets = to_string pg @ '','';
               let s3 = (if log_to_pages s2 log_address = None
                         then s2\<lparr>log_to_pages := (log_to_pages s2)(log_address \<mapsto> offsets)\<rparr>
                         else s2);
               Some (SUCCESS, event\<lparr>ev_address := page_address c log_address 0\<rparr>, s3)
             }
           | None \<Rightarrow> Some (FAILURE, event, s1)
         }
     }
   }"

definition translate_read ::
  "config \<Rightarrow> event \<Rightarrow> nat \<Rightarrow> address \<Rightarrow> nat \<Rightarrow> nat \<Rightarrow> ftl \<Rightarrow> (status \<times> event \<times> ftl) option" where
  "translate_read c event logical_address pba pg data_address s = do {
     e \<leftarrow> check_page_empty s logical_address;
     if e then Some (FAILURE, event, s)
     else do {
       r \<leftarrow> check_log_block c s data_address;
       case r of
         Some log_address \<Rightarrow> do {
           offsets \<leftarrow> deref (log_to_pages s log_address);
           found \<leftarrow> fetch_log_page offsets pg;
           case found of
             Some log_page \<Rightarrow>
               Some (SUCCESS, event\<lparr>ev_address := page_address c log_address log_page\<rparr>, s)
           | None \<Rightarrow> Some (SUCCESS, event\<lparr>ev_address := pba\<rparr>, s)
         }
       | None \<Rightarrow> Some (SUCCESS, event\<lparr>ev_address := pba\<rparr>, s)
     }
   }"

text \<open>
  \<^verbatim>\<open>Ftl::translate\<close> returns the status, the event with its physical address set, and
  the new state.
\<close>

definition translate :: "config \<Rightarrow> event \<Rightarrow> ftl \<Rightarrow> (status \<times> event \<times> ftl) option" where
  "translate c event s =
     (let logical_address = ev_logical_address event in
      if USABLE_SIZE c \<le> of_nat logical_address then Some (FAILURE, event, s)
      else do {
        let s0 = s\<lparr>start_time := ev_start_time event\<rparr>;
        physical_address \<leftarrow> check_physical_address c s0 logical_address;
        case map_physical_to_SSD c physical_address of (pk, d, pl, b, pg) \<Rightarrow> do {
          let data_address = physical_address - pg;
          let pba = Address pk d pl b pg PAGE;
          case ev_type event of
            WRITE \<Rightarrow> translate_write c event logical_address pba pg data_address s0
          | READ \<Rightarrow> translate_read c event logical_address pba pg data_address s0
          | ERASE \<Rightarrow> Some (FAILURE, event, s0)
          | MERGE \<Rightarrow> Some (FAILURE, event, s0)
        }
      })"


subsection \<open>The geometry of the concrete scenarios\<close>

text \<open>
  One package, one die, one plane of four blocks of four pages, five erases per block and
  25 percent over-provisioning: twelve usable pages in three logical blocks, and block 3
  in the free pool.
\<close>

definition scenario_geometry :: config where
  "scenario_geometry = \<lparr>SSD_SIZE = 1, PACKAGE_SIZE = 1, DIE_SIZE = 1, PLANE_SIZE = 4,
     BLOCK_SIZE = 4, BLOCK_ERASES = 5, OVERPROVISIONING = 25\<rparr>"

text \<open>
  The same device with 12.5 percent over-provisioning: \<^verbatim>\<open>USABLE_SIZE\<close> is 14, three and a
  half blocks. There are three logical blocks, the logical addresses 12 and 13 pass the
  range check of \<^verbatim>\<open>translate\<close>, and the free pool starts at address 14, the third page of
  block 3. In \<^verbatim>\<open>float\<close>: \<open>16 * 12.5 = 200\<close>, \<open>200 / 100 = 2\<close>, \<open>16 - 2 = 14\<close>, all exact.
\<close>

definition unaligned_geometry :: config where
  "unaligned_geometry = \<lparr>SSD_SIZE = 1, PACKAGE_SIZE = 1, DIE_SIZE = 1, PLANE_SIZE = 4,
     BLOCK_SIZE = 4, BLOCK_ERASES = 5, OVERPROVISIONING = 25 / 2\<rparr>"

text \<open>
  The same device with 21.875 percent over-provisioning: \<^verbatim>\<open>USABLE_SIZE\<close> is 12.5, so the
  logical address 12 passes the range check, and the bitmap has
  \<open>(12.5 + 4 - 1) / 4 = 3.875\<close>, truncated 3, words. In \<^verbatim>\<open>float\<close>: \<open>16 * 21.875 = 350\<close>,
  \<open>350 / 100 = 3.5\<close>, \<open>16 - 3.5 = 12.5\<close>, \<open>12.5 + 4 = 16.5\<close>, \<open>16.5 - 1 = 15.5\<close>,
  \<open>15.5 / 4 = 3.875\<close>, all exact.
\<close>

definition fractional_geometry :: config where
  "fractional_geometry = \<lparr>SSD_SIZE = 1, PACKAGE_SIZE = 1, DIE_SIZE = 1, PLANE_SIZE = 4,
     BLOCK_SIZE = 4, BLOCK_ERASES = 5, OVERPROVISIONING = 175 / 8\<rparr>"


subsection \<open>Notions used to state the properties\<close>

text \<open>
  The manifest string that the translation builds for the sequence \<open>m\<close> of page offsets:
  each offset in decimal, followed by a comma.
\<close>

fun manifest_string :: "nat list \<Rightarrow> string" where
  "manifest_string [] = []"
| "manifest_string (x # xs) = to_string x @ CHR '','' # manifest_string xs"

text \<open>The index of the last occurrence of \<open>d\<close> in a list.\<close>

fun last_occurrence :: "nat \<Rightarrow> nat list \<Rightarrow> nat option" where
  "last_occurrence d [] = None"
| "last_occurrence d (x # xs) =
     (case last_occurrence d xs of
        Some k \<Rightarrow> Some (Suc k)
      | None \<Rightarrow> if x = d then Some 0 else None)"

text \<open>The position of the comma that ends entry \<open>i\<close>.\<close>

definition comma_at :: "nat list \<Rightarrow> nat \<Rightarrow> nat" where
  "comma_at m i = length (manifest_string (take i m)) + length (to_string (m ! i))"

text \<open>The four tables have the lengths that \<open>init_ftl_user\<close> allocates.\<close>

definition tables_allocated :: "config \<Rightarrow> ftl \<Rightarrow> bool" where
  "tables_allocated c s \<longleftrightarrow>
     length (logical_to_emptiness s) = emp_len c \<and>
     length (erase_count s) = NUM_OF_PHY_B c \<and>
     length (logical_to_physical s) = NUM_OF_LGC_B c \<and>
     length (data_to_log s) = NUM_OF_PHY_B c"

text \<open>
  States of the scenario: freshly initialised; after the first write of logical page 0;
  and with block 3 as the log block of block 0, holding two overwrites of page 0.
\<close>

definition scenario_fresh :: ftl where
  "scenario_fresh = init_ftl_user scenario_geometry"

definition scenario_written :: ftl where
  "scenario_written = scenario_fresh\<lparr>logical_to_emptiness := [1, 0, 0]\<rparr>"

definition scenario_logged :: ftl where
  "scenario_logged = scenario_written
     \<lparr>data_to_log := [3, 0, 0, 0], log_to_pages := [12 \<mapsto> ''0,0,''], op_blocks := []\<rparr>"

definition read_event :: "nat \<Rightarrow> time \<Rightarrow> event" where
  "read_event L t = Event READ L 1 t (Address 0 0 0 0 0 NONE)"

definition write_event :: "nat \<Rightarrow> time \<Rightarrow> event" where
  "write_event L t = Event WRITE L 1 t (Address 0 0 0 0 0 NONE)"

text \<open>
  The device with 12.5 percent over-provisioning after \<^verbatim>\<open>WRITE 0\<close>, \<^verbatim>\<open>WRITE 0\<close>: the free pool
  handed out the address 14, block 3 is the log block of block 0, and the manifest is
  stored under the key 14.
\<close>

definition unaligned_written :: ftl where
  "unaligned_written =
     (init_ftl_user unaligned_geometry)\<lparr>logical_to_emptiness := [1, 0, 0, 0], start_time := 1\<rparr>"

definition unaligned_logged :: ftl where
  "unaligned_logged = unaligned_written
     \<lparr>data_to_log := [3, 0, 0, 0], log_to_pages := [14 \<mapsto> ''0,''], start_time := 2,
      op_blocks := []\<rparr>"

text \<open>The page offsets of a logical block whose written flag is set, in ascending order.\<close>

definition written_pages :: "ftl \<Rightarrow> nat \<Rightarrow> nat \<Rightarrow> nat list" where
  "written_pages s logical_block n =
     filter (\<lambda>i. check_page_empty s (logical_block + i) = Some False) [0..<n]"

text \<open>
  Where cleaning reads the live copy of page offset \<open>i\<close>: page \<open>k\<close> of the log block when
  \<open>fetch_log_page\<close> finds \<open>i\<close> in the manifest at index \<open>k\<close>, page \<open>i\<close> of the data block
  otherwise.
\<close>

definition clean_source :: "config \<Rightarrow> nat \<Rightarrow> nat \<Rightarrow> string \<Rightarrow> nat \<Rightarrow> address" where
  "clean_source c data_pba log_pba offsets i =
     (case fetch_log_page offsets i of
        Some (Some k) \<Rightarrow> page_address c log_pba k
      | _ \<Rightarrow> page_address c data_pba i)"

text \<open>One READ and one WRITE for each page offset of \<open>pages\<close>, in order.\<close>

definition copy_out_events ::
  "config \<Rightarrow> nat \<Rightarrow> nat \<Rightarrow> nat \<Rightarrow> nat \<Rightarrow> string \<Rightarrow> time \<Rightarrow> nat list \<Rightarrow> event list" where
  "copy_out_events c logical_block data_pba log_pba cln_pba offsets t pages =
     concat (map (\<lambda>i. [Event READ (logical_block + i) 1 t (clean_source c data_pba log_pba offsets i),
                        Event WRITE (logical_block + i) 1 t (page_address c cln_pba i)]) pages)"

definition copy_events :: "config \<Rightarrow> nat \<Rightarrow> nat \<Rightarrow> nat \<Rightarrow> time \<Rightarrow> nat list \<Rightarrow> event list" where
  "copy_events c logical_block src_pba des_pba t pages =
     concat (map (\<lambda>i. [Event READ (logical_block + i) 1 t (page_address c src_pba i),
                        Event WRITE (logical_block + i) 1 t (page_address c des_pba i)]) pages)"

definition erase_event :: "config \<Rightarrow> nat \<Rightarrow> nat \<Rightarrow> time \<Rightarrow> event" where
  "erase_event c logical_block pba t = Event ERASE logical_block 1 t (whole_block_address c pba)"

text \<open>
  The scenario after \<^verbatim>\<open>WRITE 0\<close>, \<^verbatim>\<open>WRITE 4\<close>, \<^verbatim>\<open>WRITE 0\<close>: the logical blocks 0 and 1 hold
  data, block 3 is the log block of block 0, and the free pool is empty.
\<close>

definition shuffle_ready :: ftl where
  "shuffle_ready = scenario_fresh
     \<lparr>logical_to_emptiness := [1, 1, 0], data_to_log := [3, 0, 0, 0],
      log_to_pages := [12 \<mapsto> ''0,''], op_blocks := []\<rparr>"

text \<open>The result of \<open>shuffle_data_log\<close> in the state \<open>shuffle_ready\<close>.\<close>

definition shuffle_done :: ftl where
  "shuffle_done =
     \<lparr>logical_to_emptiness = [1, 1, 0], erase_count = [1, 0, 1, 1],
      logical_to_physical = [0, 2, 0], data_to_log = [0, 0, 0, 0],
      log_to_pages = Map.empty, start_time = 0, op_blocks = [4],
      controller_issued =
        [Event READ 0 1 0 (Address 0 0 0 3 0 PAGE), Event WRITE 0 1 0 (Address 0 0 0 2 0 PAGE),
         Event ERASE 0 1 0 (Address 0 0 0 0 0 BLOCK), Event ERASE 0 1 0 (Address 0 0 0 3 0 BLOCK),
         Event READ 0 1 0 (Address 0 0 0 2 0 PAGE), Event WRITE 0 1 0 (Address 0 0 0 0 0 PAGE),
         Event ERASE 0 1 0 (Address 0 0 0 2 0 BLOCK),
         Event READ 4 1 0 (Address 0 0 0 1 0 PAGE), Event WRITE 4 1 0 (Address 0 0 0 3 0 PAGE),
         Event ERASE 4 1 0 (Address 0 0 0 1 0 BLOCK)]\<rparr>"

subsection \<open>The invariant of the mapping state\<close>

text \<open>
  The physical block that a logical block is mapped to, and the log block that a data
  block is mapped to, as block numbers.
\<close>

definition data_block :: "ftl \<Rightarrow> nat \<Rightarrow> nat" where
  "data_block s i = nat (int i + logical_to_physical s ! i)"

definition log_block :: "ftl \<Rightarrow> nat \<Rightarrow> nat" where
  "log_block s d = nat (int d + data_to_log s ! d)"

definition logical_block_written :: "config \<Rightarrow> ftl \<Rightarrow> nat \<Rightarrow> bool" where
  "logical_block_written c s i \<longleftrightarrow>
     (\<exists>j < BLOCK_SIZE c. check_page_empty s (i * BLOCK_SIZE c + j) = Some False)"

text \<open>Every logical block has a data block of its own, inside the device.\<close>

definition inv_data :: "config \<Rightarrow> ftl \<Rightarrow> bool" where
  "inv_data c s \<longleftrightarrow>
     (\<forall>i < NUM_OF_LGC_B c. 0 \<le> int i + logical_to_physical s ! i \<and> data_block s i < NUM_OF_PHY_B c) \<and>
     (\<forall>i < NUM_OF_LGC_B c. \<forall>j < NUM_OF_LGC_B c. data_block s i = data_block s j \<longrightarrow> i = j)"

text \<open>
  A nonzero data-to-log offset belongs to the data block of a logical block with a
  written page; the log block lies inside the device, is not a data block, has a
  manifest, and is the log block of no other block.
\<close>

definition inv_log :: "config \<Rightarrow> ftl \<Rightarrow> bool" where
  "inv_log c s \<longleftrightarrow>
     (\<forall>d < NUM_OF_PHY_B c. data_to_log s ! d \<noteq> 0 \<longrightarrow>
        0 \<le> int d + data_to_log s ! d \<and> log_block s d < NUM_OF_PHY_B c \<and>
        (\<exists>i < NUM_OF_LGC_B c. data_block s i = d \<and> logical_block_written c s i) \<and>
        (\<forall>i < NUM_OF_LGC_B c. data_block s i \<noteq> log_block s d) \<and>
        log_to_pages s (log_block s d * BLOCK_SIZE c) \<noteq> None) \<and>
     (\<forall>d < NUM_OF_PHY_B c. \<forall>d' < NUM_OF_PHY_B c.
        data_to_log s ! d \<noteq> 0 \<longrightarrow> data_to_log s ! d' \<noteq> 0 \<longrightarrow>
        log_block s d = log_block s d' \<longrightarrow> d = d')"

text \<open>
  The free pool holds block base addresses, without repetition, of blocks that are
  neither data blocks nor log blocks and are below the erase limit.
\<close>

definition free_block :: "config \<Rightarrow> ftl \<Rightarrow> nat \<Rightarrow> bool" where
  "free_block c s p \<longleftrightarrow>
     BLOCK_SIZE c dvd p \<and> p div BLOCK_SIZE c < NUM_OF_PHY_B c \<and>
     (\<forall>i < NUM_OF_LGC_B c. data_block s i \<noteq> p div BLOCK_SIZE c) \<and>
     (\<forall>d < NUM_OF_PHY_B c. data_to_log s ! d \<noteq> 0 \<longrightarrow> log_block s d \<noteq> p div BLOCK_SIZE c) \<and>
     erase_count s ! (p div BLOCK_SIZE c) < BLOCK_ERASES c"

definition inv_pool :: "config \<Rightarrow> ftl \<Rightarrow> bool" where
  "inv_pool c s \<longleftrightarrow> distinct (op_blocks s) \<and> (\<forall>p \<in> set (op_blocks s). free_block c s p)"

text \<open>Every manifest is the string of at most \<^verbatim>\<open>BLOCK_SIZE\<close> page offsets.\<close>

definition inv_manifests :: "config \<Rightarrow> ftl \<Rightarrow> bool" where
  "inv_manifests c s \<longleftrightarrow>
     (\<forall>k str. log_to_pages s k = Some str \<longrightarrow>
        (\<exists>m. str = manifest_string m \<and> length m \<le> BLOCK_SIZE c))"

definition inv_counts :: "config \<Rightarrow> ftl \<Rightarrow> bool" where
  "inv_counts c s \<longleftrightarrow> (\<forall>b < NUM_OF_PHY_B c. erase_count s ! b \<le> BLOCK_ERASES c)"

definition ftl_invariant :: "config \<Rightarrow> ftl \<Rightarrow> bool" where
  "ftl_invariant c s \<longleftrightarrow>
     tables_allocated c s \<and> inv_data c s \<and> inv_log c s \<and> inv_pool c s \<and>
     inv_manifests c s \<and> inv_counts c s"

text \<open>
  The number of the physical block that an address of the device hierarchy denotes, and
  the events issued between two states.
\<close>

definition physical_block :: "config \<Rightarrow> address \<Rightarrow> nat" where
  "physical_block c a =
     ((package a * PACKAGE_SIZE c + die a) * DIE_SIZE c + plane a) * PLANE_SIZE c + block a"

definition targets_below :: "config \<Rightarrow> 32 word list \<Rightarrow> event list \<Rightarrow> bool" where
  "targets_below c counts es \<longleftrightarrow>
     (\<forall>e \<in> set es. ev_type e \<noteq> READ \<longrightarrow>
        physical_block c (ev_address e) < NUM_OF_PHY_B c \<and>
        counts ! physical_block c (ev_address e) < BLOCK_ERASES c)"

text \<open>
  From \<open>s\<close> to \<open>s'\<close> the erase counts have not decreased, and the events issued in between
  write to and erase only blocks that were below the erase limit in \<open>s\<close>.
\<close>

definition progress :: "config \<Rightarrow> ftl \<Rightarrow> ftl \<Rightarrow> bool" where
  "progress c s s' \<longleftrightarrow>
     length (erase_count s') = length (erase_count s) \<and>
     (\<forall>b < length (erase_count s). erase_count s ! b \<le> erase_count s' ! b) \<and>
     (\<exists>es. controller_issued s' = controller_issued s @ es \<and> targets_below c (erase_count s) es)"

text \<open>
  The loop state of the search for an empty data block: either nothing was found yet, or
  the data block of a logical block without written page, below the erase limit.
\<close>

definition empty_candidate :: "config \<Rightarrow> ftl \<Rightarrow> 32 word \<times> (nat \<times> nat) option \<Rightarrow> bool" where
  "empty_candidate c s acc \<longleftrightarrow>
     (snd acc = None \<and> fst acc = BLOCK_ERASES c + 1) \<or>
     (\<exists>i < NUM_OF_LGC_B c. snd acc = Some (data_block s i * BLOCK_SIZE c, i * BLOCK_SIZE c) \<and>
        \<not> logical_block_written c s i \<and> erase_count s ! data_block s i = fst acc \<and>
        fst acc < BLOCK_ERASES c)"

text \<open>
  The blocks that a cleaning may erase: the data block of a logical block without written
  page, and the two blocks of a data/log pair that are both below the erase limit.
\<close>

definition wearable :: "config \<Rightarrow> ftl \<Rightarrow> nat \<Rightarrow> bool" where
  "wearable c s b \<longleftrightarrow>
     (\<exists>i < NUM_OF_LGC_B c. data_block s i = b \<and> \<not> logical_block_written c s i) \<or>
     (\<exists>d < NUM_OF_PHY_B c. data_to_log s ! d \<noteq> 0 \<and> erase_count s ! d < BLOCK_ERASES c \<and>
        erase_count s ! log_block s d < BLOCK_ERASES c \<and> (b = d \<or> b = log_block s d))"

text \<open>
  The erase counts \<open>cnt\<close> come from the ones of \<open>s\<close> by counting at most one erase of
  some wearable blocks below the erase limit.
\<close>

definition worn :: "config \<Rightarrow> ftl \<Rightarrow> 32 word list \<Rightarrow> bool" where
  "worn c s cnt \<longleftrightarrow>
     length cnt = length (erase_count s) \<and>
     (\<forall>b < length cnt. cnt ! b = erase_count s ! b \<or>
        (wearable c s b \<and> erase_count s ! b < BLOCK_ERASES c \<and> cnt ! b = erase_count s ! b + 1))"

text \<open>
  The outcome of a successful \<^verbatim>\<open>shuffle_data_log\<close> on the data/log pair of data block
  \<open>D\<close> and on the logical block \<open>lbm\<close> of the least-erased data block without log block,
  with the events \<open>es\<close> issued and the new erase counts \<open>cnt\<close>.
\<close>

definition shuffle_pair :: "config \<Rightarrow> ftl \<Rightarrow> nat \<Rightarrow> nat \<Rightarrow> bool" where
  "shuffle_pair c s D lbm \<longleftrightarrow>
     D < NUM_OF_PHY_B c \<and> data_to_log s ! D \<noteq> 0 \<and>
     erase_count s ! D < BLOCK_ERASES c \<and> erase_count s ! log_block s D < BLOCK_ERASES c \<and>
     lbm < NUM_OF_LGC_B c \<and> data_to_log s ! data_block s lbm = 0 \<and>
     erase_count s ! data_block s lbm + 1 < BLOCK_ERASES c \<and>
     erase_count s ! data_block s lbm < BLOCK_ERASES c"

definition shuffled :: "config \<Rightarrow> ftl \<Rightarrow> nat \<Rightarrow> nat \<Rightarrow> event list \<Rightarrow> 32 word list \<Rightarrow> ftl" where
  "shuffled c s D lbm es cnt =
     s\<lparr>controller_issued := controller_issued s @ es,
       erase_count := cnt,
       logical_to_physical := (logical_to_physical s)[lbm := int (log_block s D) - int lbm],
       data_to_log := (data_to_log s)[D := 0],
       log_to_pages := (log_to_pages s)(log_block s D * BLOCK_SIZE c := None),
       op_blocks := op_blocks s @ [data_block s lbm * BLOCK_SIZE c]\<rparr>"

text \<open>
  What \<open>next_unmapped_log_block\<close> leaves behind when it turns \<open>s\<close> into \<open>s1\<close> and yields
  \<open>r\<close>: the invariant, a block that is free and out of the pool, and the parts of the
  mapping that a wear balancing on the way has not touched: the pairs with a block at
  the erase limit, and every logical block except the one whose data block is handed
  out.
\<close>

definition handed :: "config \<Rightarrow> ftl \<Rightarrow> nat option \<Rightarrow> ftl \<Rightarrow> bool" where
  "handed c s r s1 \<longleftrightarrow>
     ftl_invariant c s1 \<and> progress c s s1 \<and>
     logical_to_emptiness s1 = logical_to_emptiness s \<and> start_time s1 = start_time s \<and>
     (r = None \<longrightarrow> s1 = s) \<and>
     (\<forall>P. r = Some P \<longrightarrow> free_block c s1 P \<and> P \<notin> set (op_blocks s1)) \<and>
     (\<forall>d < NUM_OF_PHY_B c. data_to_log s ! d \<noteq> 0 \<longrightarrow>
        (BLOCK_ERASES c \<le> erase_count s ! d \<or> BLOCK_ERASES c \<le> erase_count s ! log_block s d) \<longrightarrow>
        data_to_log s1 ! d = data_to_log s ! d \<and>
        log_to_pages s1 (log_block s d * BLOCK_SIZE c) = log_to_pages s (log_block s d * BLOCK_SIZE c) \<and>
        erase_count s1 ! d = erase_count s ! d \<and>
        erase_count s1 ! log_block s d = erase_count s ! log_block s d \<and>
        (\<forall>i < NUM_OF_LGC_B c. data_block s i = d \<longrightarrow>
           logical_to_physical s1 ! i = logical_to_physical s ! i)) \<and>
     (\<forall>i < NUM_OF_LGC_B c. logical_to_physical s1 ! i = logical_to_physical s ! i \<or>
        r = Some (data_block s i * BLOCK_SIZE c))"

section \<open>Properties\<close>

subsection \<open>The written bitmap\<close>

lemma bit_test_iff: "(drop_bit j (w :: 32 word) AND 1 = 0) \<longleftrightarrow> \<not> bit w j"
  by (simp add: and_one_eq bit_iff_odd_drop_bit mod_2_eq_odd)

lemma bit_set_iff:
  "k < 32 \<Longrightarrow> bit ((w :: 32 word) OR 2 ^ k) j \<longleftrightarrow> bit w j \<or> j = k"
  by (auto simp: bit_simps)

lemma check_page_empty_eq:
  "lba div sizeof_unsigned_int < length (logical_to_emptiness s) \<Longrightarrow>
   check_page_empty s lba =
     Some (\<not> bit (logical_to_emptiness s ! (lba div sizeof_unsigned_int)) (lba mod sizeof_unsigned_int))"
  by (simp add: check_page_empty_def array_get_def bit_test_iff)

lemma set_page_written_eq:
  "lba div sizeof_unsigned_int < length (logical_to_emptiness s) \<Longrightarrow>
   set_page_written lba s =
     Some (s\<lparr>logical_to_emptiness := (logical_to_emptiness s)
        [lba div sizeof_unsigned_int :=
           logical_to_emptiness s ! (lba div sizeof_unsigned_int) OR push_bit (lba mod sizeof_unsigned_int) 1]\<rparr>)"
  by (simp add: set_page_written_def array_get_def array_set_def)

lemma word_bit_position_inj:
  "L div sizeof_unsigned_int = L' div sizeof_unsigned_int \<Longrightarrow>
   L mod sizeof_unsigned_int = L' mod sizeof_unsigned_int \<Longrightarrow> L = L'"
  by (metis div_mult_mod_eq)

text \<open>
  The pages of the \<^verbatim>\<open>NUM_OF_LGC_B\<close> whole logical blocks lie below \<^verbatim>\<open>USABLE_SIZE\<close>, and
  their flags lie inside the allocated bitmap.
\<close>

lemma whole_blocks_usable:
  assumes "0 < BLOCK_SIZE c" and "L < NUM_OF_LGC_B c * BLOCK_SIZE c"
  shows "of_nat (Suc L) \<le> USABLE_SIZE c"
proof -
  let ?q = "USABLE_SIZE c / of_nat (BLOCK_SIZE c)"
  from assms(2) have "0 < NUM_OF_LGC_B c"
    by (cases "NUM_OF_LGC_B c") simp_all
  then have "int (NUM_OF_LGC_B c) = \<lfloor>?q\<rfloor>"
    by (simp add: NUM_OF_LGC_B_def to_unsigned_def)
  then have "(of_nat (NUM_OF_LGC_B c) :: rat) = of_int \<lfloor>?q\<rfloor>"
    by (metis of_int_of_nat_eq)
  also have "\<dots> \<le> ?q"
    by (rule of_int_floor_le)
  finally have "(of_nat (NUM_OF_LGC_B c) :: rat) * of_nat (BLOCK_SIZE c) \<le> USABLE_SIZE c"
    using assms(1) by (simp add: pos_le_divide_eq)
  moreover from assms(2) have "(of_nat (Suc L) :: rat) \<le> of_nat (NUM_OF_LGC_B c * BLOCK_SIZE c)"
    by (simp only: of_nat_le_iff)
  ultimately show ?thesis
    by simp
qed

lemma word_in_bitmap:
  assumes "0 < BLOCK_SIZE c" and "L < NUM_OF_LGC_B c * BLOCK_SIZE c"
  shows "L div sizeof_unsigned_int < emp_len c"
proof -
  have "(L div 4 + 1) * 4 \<le> L + 4"
    by simp
  then have "(of_nat ((L div 4 + 1) * 4) :: rat) \<le> of_nat (L + 4)"
    by (simp only: of_nat_le_iff)
  also have "\<dots> = of_nat (Suc L) + 3"
    by simp
  also have "\<dots> \<le> USABLE_SIZE c + 3"
    using whole_blocks_usable [OF assms] by simp
  finally have "(of_int (int (L div 4) + 1) :: rat) \<le> (USABLE_SIZE c + 3) / 4"
    by simp
  then have "int (L div 4) + 1 \<le> \<lfloor>(USABLE_SIZE c + 3) / 4\<rfloor>"
    by (simp only: le_floor_iff)
  moreover have "emp_len c = nat \<lfloor>(USABLE_SIZE c + 3) / 4\<rfloor>"
    by (simp add: emp_len_def to_unsigned_def sizeof_unsigned_int_def add.commute)
  ultimately show ?thesis
    by (simp add: sizeof_unsigned_int_def)
qed

text \<open>
  Inside the bitmap the flags do not interfere: after \<open>set_page_written L\<close> the page \<open>L\<close>
  is reported written, and the report for every other page whose word is allocated is
  unchanged.
\<close>

lemma set_page_written_roundtrip:
  assumes "L div sizeof_unsigned_int < length (logical_to_emptiness s)"
    and "L' div sizeof_unsigned_int < length (logical_to_emptiness s)"
  shows "\<exists>s'. set_page_written L s = Some s' \<and> check_page_empty s' L = Some False \<and>
           (L' \<noteq> L \<longrightarrow> check_page_empty s' L' = check_page_empty s L')"
proof -
  let ?w = "L div sizeof_unsigned_int" and ?b = "L mod sizeof_unsigned_int"
  let ?s' = "s\<lparr>logical_to_emptiness := (logical_to_emptiness s)
        [?w := logical_to_emptiness s ! ?w OR push_bit ?b 1]\<rparr>"
  note inL = assms(1) and inL' = assms(2)
  have b32: "?b < 32"
    by (simp add: sizeof_unsigned_int_def)
  have set: "set_page_written L s = Some ?s'"
    using inL by (rule set_page_written_eq)
  have own: "check_page_empty ?s' L = Some False"
    using inL b32 by (simp add: check_page_empty_eq bit_set_iff)
  have frame: "check_page_empty ?s' L' = check_page_empty s L'" if "L' \<noteq> L"
  proof (cases "L' div sizeof_unsigned_int = ?w")
    case True
    with that have "L' mod sizeof_unsigned_int \<noteq> ?b"
      using word_bit_position_inj by blast
    with True inL b32 show ?thesis
      by (simp add: check_page_empty_eq bit_set_iff)
  next
    case False
    with inL inL' show ?thesis
      by (simp add: check_page_empty_eq)
  qed
  from set own frame show ?thesis by blast
qed

lemma floor_quarters:
  "\<lfloor>15 / 4 :: rat\<rfloor> = 3" "\<lfloor>17 / 4 :: rat\<rfloor> = 4" "\<lfloor>31 / 8 :: rat\<rfloor> = 3" "\<lfloor>25 / 2 :: rat\<rfloor> = 12"
  "\<lfloor>7 / 2 :: rat\<rfloor> = 3" "\<lfloor>25 / 8 :: rat\<rfloor> = 3"
  by (simp_all add: floor_eq_iff)

lemma scenario_sizes:
  "RAW_SIZE scenario_geometry = 16" "USABLE_SIZE scenario_geometry = 12"
  "NUM_OF_LGC_B scenario_geometry = 3" "NUM_OF_PHY_B scenario_geometry = 4"
  "BLOCK_SIZE scenario_geometry = 4"
  "BLOCK_ERASES scenario_geometry = 5"
  "SSD_SIZE scenario_geometry = 1" "PACKAGE_SIZE scenario_geometry = 1"
  "DIE_SIZE scenario_geometry = 1" "PLANE_SIZE scenario_geometry = 4"
  by (simp_all add: scenario_geometry_def RAW_SIZE_def USABLE_SIZE_def OP_SIZE_def
      NUM_OF_LGC_B_def NUM_OF_PHY_B_def to_unsigned_def)

lemma scenario_valid: "valid_config scenario_geometry"
  by (simp add: valid_config_def scenario_sizes) (simp add: scenario_geometry_def)

lemma scenario_emp_len: "emp_len scenario_geometry = 3"
  by (simp add: emp_len_def to_unsigned_def sizeof_unsigned_int_def scenario_sizes floor_quarters)

lemma scenario_init:
  "init_ftl_user scenario_geometry =
     \<lparr>logical_to_emptiness = [0, 0, 0], erase_count = [0, 0, 0, 0],
      logical_to_physical = [0, 0, 0], data_to_log = [0, 0, 0, 0],
      log_to_pages = Map.empty, start_time = 0, op_blocks = [12], controller_issued = []\<rparr>"
  by (simp add: init_ftl_user_def scenario_sizes scenario_emp_len to_unsigned_def numeral_eq_Suc
      push_op_blocks.simps)

lemma unaligned_sizes:
  "RAW_SIZE unaligned_geometry = 16" "USABLE_SIZE unaligned_geometry = 14"
  "NUM_OF_LGC_B unaligned_geometry = 3" "NUM_OF_PHY_B unaligned_geometry = 4"
  "BLOCK_SIZE unaligned_geometry = 4"
  "BLOCK_ERASES unaligned_geometry = 5"
  "SSD_SIZE unaligned_geometry = 1" "PACKAGE_SIZE unaligned_geometry = 1"
  "DIE_SIZE unaligned_geometry = 1" "PLANE_SIZE unaligned_geometry = 4"
  "emp_len unaligned_geometry = 4"
  by (simp_all add: unaligned_geometry_def RAW_SIZE_def USABLE_SIZE_def OP_SIZE_def
      NUM_OF_LGC_B_def NUM_OF_PHY_B_def to_unsigned_def emp_len_def sizeof_unsigned_int_def
      floor_quarters)

lemma unaligned_init:
  "init_ftl_user unaligned_geometry =
     \<lparr>logical_to_emptiness = [0, 0, 0, 0], erase_count = [0, 0, 0, 0],
      logical_to_physical = [0, 0, 0], data_to_log = [0, 0, 0, 0],
      log_to_pages = Map.empty, start_time = 0, op_blocks = [14], controller_issued = []\<rparr>"
  by (simp add: init_ftl_user_def unaligned_sizes to_unsigned_def numeral_eq_Suc
      push_op_blocks.simps)

lemma fractional_sizes:
  "RAW_SIZE fractional_geometry = 16" "USABLE_SIZE fractional_geometry = 25 / 2"
  "NUM_OF_LGC_B fractional_geometry = 3" "NUM_OF_PHY_B fractional_geometry = 4"
  "BLOCK_SIZE fractional_geometry = 4"
  "BLOCK_ERASES fractional_geometry = 5"
  "SSD_SIZE fractional_geometry = 1" "PACKAGE_SIZE fractional_geometry = 1"
  "DIE_SIZE fractional_geometry = 1" "PLANE_SIZE fractional_geometry = 4"
  "emp_len fractional_geometry = 3"
  by (simp_all add: fractional_geometry_def RAW_SIZE_def USABLE_SIZE_def OP_SIZE_def
      NUM_OF_LGC_B_def NUM_OF_PHY_B_def to_unsigned_def emp_len_def sizeof_unsigned_int_def
      floor_quarters)

lemma fractional_init:
  "init_ftl_user fractional_geometry =
     \<lparr>logical_to_emptiness = [0, 0, 0], erase_count = [0, 0, 0, 0],
      logical_to_physical = [0, 0, 0], data_to_log = [0, 0, 0, 0],
      log_to_pages = Map.empty, start_time = 0, op_blocks = [12], controller_issued = []\<rparr>"
  by (simp add: init_ftl_user_def fractional_sizes to_unsigned_def numeral_eq_Suc
      push_op_blocks.simps floor_quarters)

text \<open>
  Claim C7, as amended. The flag of logical page \<open>L\<close> is bit \<open>L mod W\<close> of word \<open>L div W\<close>
  where \<open>W\<close> is \<^verbatim>\<open>sizeof (unsigned int)\<close>, the number of bytes (4) of a bitmap word and not
  its number of bits: whenever that word exists, \<open>check_page_empty\<close> reads exactly that
  bit and \<open>set_page_written\<close> sets exactly that bit and no other, in any state and for
  any geometry. Whether the word exists for every address below \<^verbatim>\<open>USABLE_SIZE\<close> is not
  part of the statement.
\<close>

theorem bitmap_position:
  assumes "L div sizeof_unsigned_int < length (logical_to_emptiness s)"
  shows "sizeof_unsigned_int = 4 \<and> L mod sizeof_unsigned_int < LENGTH(32) \<and>
    check_page_empty s L =
      Some (\<not> bit (logical_to_emptiness s ! (L div sizeof_unsigned_int)) (L mod sizeof_unsigned_int)) \<and>
    (\<exists>s'. set_page_written L s = Some s' \<and>
       length (logical_to_emptiness s') = length (logical_to_emptiness s) \<and>
       (\<forall>w b. w < length (logical_to_emptiness s) \<longrightarrow>
          bit (logical_to_emptiness s' ! w) b =
            (bit (logical_to_emptiness s ! w) b \<or>
             w = L div sizeof_unsigned_int \<and> b = L mod sizeof_unsigned_int)))"
proof -
  let ?w = "L div sizeof_unsigned_int" and ?b = "L mod sizeof_unsigned_int"
  note inL = assms
  have b32: "?b < 32"
    by (simp add: sizeof_unsigned_int_def)
  have "\<forall>w b. w < length (logical_to_emptiness s) \<longrightarrow>
          bit ((logical_to_emptiness s)[?w := logical_to_emptiness s ! ?w OR push_bit ?b 1] ! w) b =
            (bit (logical_to_emptiness s ! w) b \<or> w = ?w \<and> b = ?b)"
    using inL b32 by (auto simp: nth_list_update bit_set_iff)
  with inL b32 show ?thesis
    by (simp add: check_page_empty_eq set_page_written_eq) (simp add: sizeof_unsigned_int_def)
qed

text \<open>The theorem for the address 4 in the initial state of the scenario geometry.\<close>

theorem bitmap_position_witness:
  "4 div sizeof_unsigned_int < length (logical_to_emptiness (init_ftl_user scenario_geometry)) \<and>
   check_page_empty (init_ftl_user scenario_geometry) 4 = Some True \<and>
   set_page_written 4 (init_ftl_user scenario_geometry) =
     Some ((init_ftl_user scenario_geometry)\<lparr>logical_to_emptiness := [0, 1, 0]\<rparr>)"
  using bitmap_position [of 4 "init_ftl_user scenario_geometry"]
  by (simp add: scenario_init sizeof_unsigned_int_def
      set_page_written_def array_get_def array_set_def)

text \<open>
  Claim C7 as stated, with \<open>W\<close> the bit width 32 of a bitmap word, fails: after
  \<open>set_page_written 4\<close> in the initial state of the scenario geometry the page is reported
  written, bit \<open>4 mod 32\<close> of word \<open>4 div 32\<close> is clear, and the flag is bit 0 of word 1.
\<close>

theorem bitmap_position_bit_width_counterexample:
  "set_page_written 4 (init_ftl_user scenario_geometry) =
     Some ((init_ftl_user scenario_geometry)\<lparr>logical_to_emptiness := [0, 1, 0]\<rparr>) \<and>
   check_page_empty ((init_ftl_user scenario_geometry)\<lparr>logical_to_emptiness := [0, 1, 0]\<rparr>) 4
     = Some False \<and>
   \<not> bit ([0, 1, 0 :: 32 word] ! (4 div LENGTH(32))) (4 mod LENGTH(32)) \<and>
   bit ([0, 1, 0 :: 32 word] ! (4 div sizeof_unsigned_int)) (4 mod sizeof_unsigned_int)"
  by (simp add: scenario_init sizeof_unsigned_int_def set_page_written_def check_page_empty_def
      array_get_def array_set_def)

text \<open>
  Claim C10 does not hold of the code. With 21.875 percent over-provisioning on the
  scenario device \<^verbatim>\<open>USABLE_SIZE\<close> is 12.5: the logical address 12 is below it and passes
  the range check of \<^verbatim>\<open>translate\<close> (\<^verbatim>\<open>logical_address >= USABLE_SIZE\<close> is false), but
  \<^verbatim>\<open>init_ftl_user\<close> allocates \<open>(12.5 + 4 - 1) / 4\<close>, truncated 3, bitmap words, which hold
  the flags of the addresses 0 to 11 only. \<open>set_page_written 12\<close> and
  \<open>check_page_empty 12\<close> index word 3 of the three-word array: they have no defined
  result, and there is no round trip for this address.
\<close>

theorem set_page_written_outside_bitmap:
  "USABLE_SIZE fractional_geometry = 25 / 2 \<and>
   of_nat 12 < USABLE_SIZE fractional_geometry \<and>
   logical_to_emptiness (init_ftl_user fractional_geometry) = [0, 0, 0] \<and>
   12 div sizeof_unsigned_int = 3 \<and>
   set_page_written 12 (init_ftl_user fractional_geometry) = None \<and>
   check_page_empty (init_ftl_user fractional_geometry) 12 = None"
  by (simp add: fractional_sizes fractional_init sizeof_unsigned_int_def set_page_written_def
      check_page_empty_def array_get_def)

subsection \<open>Manifests\<close>

declare to_string.simps [simp del]

lemma digit_char_not_comma: "d < 10 \<Longrightarrow> digit_char d \<noteq> CHR '',''"
  by (simp add: digit_char_def numeral_eq_Suc less_Suc_eq nth_Cons') auto

lemma digit_char_inj: "a < 10 \<Longrightarrow> b < 10 \<Longrightarrow> digit_char a = digit_char b \<Longrightarrow> a = b"
proof -
  have "distinct ''0123456789''" by simp
  then show "a < 10 \<Longrightarrow> b < 10 \<Longrightarrow> digit_char a = digit_char b \<Longrightarrow> a = b"
    unfolding digit_char_def by (simp add: nth_eq_iff_index_eq)
qed

lemma to_string_not_empty: "to_string n \<noteq> []"
  by (subst to_string.simps) simp

lemma to_string_no_comma: "CHR '','' \<notin> set (to_string n)"
proof (induction n rule: to_string.induct)
  case (1 n)
  show ?case
  proof (cases "n < 10")
    case True
    then show ?thesis
      using digit_char_not_comma [of n] by (subst to_string.simps) auto
  next
    case False
    have "n mod 10 < 10" by simp
    with False 1 show ?thesis
      using digit_char_not_comma [of "n mod 10"] by (subst to_string.simps) auto
  qed
qed

lemma to_string_inj: "to_string a = to_string b \<Longrightarrow> a = b"
proof (induction a arbitrary: b rule: to_string.induct)
  case (1 a)
  show ?case
  proof (cases "a < 10")
    case True
    then have a: "to_string a = [digit_char a]"
      by (subst to_string.simps) simp
    have "b < 10"
    proof (rule ccontr)
      assume "\<not> b < 10"
      then have "to_string b = to_string (b div 10) @ [digit_char (b mod 10)]"
        by (subst to_string.simps) simp
      with a "1.prems" show False
        using to_string_not_empty [of "b div 10"] by (cases "to_string (b div 10)") auto
    qed
    then have "to_string b = [digit_char b]"
      by (subst to_string.simps) simp
    with a "1.prems" True \<open>b < 10\<close> show ?thesis
      by (auto dest: digit_char_inj)
  next
    case False
    then have a: "to_string a = to_string (a div 10) @ [digit_char (a mod 10)]"
      by (subst to_string.simps) simp
    have "\<not> b < 10"
    proof
      assume "b < 10"
      then have "to_string b = [digit_char b]"
        by (subst to_string.simps) simp
      with a "1.prems" show False
        using to_string_not_empty [of "a div 10"] by (cases "to_string (a div 10)") auto
    qed
    then have b: "to_string b = to_string (b div 10) @ [digit_char (b mod 10)]"
      by (subst to_string.simps) simp
    from a b "1.prems" have eq: "to_string (a div 10) = to_string (b div 10)"
      and dg: "digit_char (a mod 10) = digit_char (b mod 10)"
      by simp_all
    from eq False have "a div 10 = b div 10"
      by (rule "1.IH" [rotated])
    moreover from dg have "a mod 10 = b mod 10"
      by (rule digit_char_inj [rotated 2]) simp_all
    ultimately show ?thesis
      by (metis div_mult_mod_eq)
  qed
qed


lemma first_match_zero: "first_match pat s = Some 0 \<longleftrightarrow> prefix pat s"
  by (cases s) auto

lemma first_match_skip:
  "c \<notin> set u \<Longrightarrow> first_match [c] (u @ c # t) = Some (length u)"
  by (induction u) auto

lemma first_match_none: "c \<notin> set u \<Longrightarrow> first_match [c] u = None"
  by (induction u) auto

lemma last_match_skip:
  "c \<notin> set u \<Longrightarrow> last_match (c # p) (u @ t) = map_option (\<lambda>i. length u + i) (last_match (c # p) t)"
proof (induction u)
  case Nil
  show ?case by (cases "last_match (c # p) t") simp_all
next
  case (Cons x u)
  then show ?case by (cases "last_match (c # p) t") auto
qed

lemma prefix_field:
  "c \<notin> set a \<Longrightarrow> c \<notin> set b \<Longrightarrow> prefix (a @ [c]) (b @ c # r) \<longleftrightarrow> a = b"
proof (induction a arbitrary: b)
  case Nil
  then show ?case by (cases b) auto
next
  case (Cons x a)
  then show ?case by (cases b) auto
qed

lemma manifest_string_append:
  "manifest_string (xs @ ys) = manifest_string xs @ manifest_string ys"
  by (induction xs) auto

lemma manifest_string_empty: "manifest_string m = [] \<longleftrightarrow> m = []"
  by (cases m) (auto simp: to_string_not_empty)

lemma prefix_manifest:
  "prefix (to_string d @ '','') (manifest_string m) \<longleftrightarrow> (\<exists>xs. m = d # xs)"
proof (cases m)
  case Nil
  then show ?thesis by (simp add: to_string_not_empty)
next
  case (Cons x xs)
  have "prefix (to_string d @ [CHR '','']) (to_string x @ CHR '','' # manifest_string xs)
          \<longleftrightarrow> to_string d = to_string x"
    by (rule prefix_field) (rule to_string_no_comma)+
  with Cons show ?thesis
    by (auto dest: to_string_inj)
qed

lemma rfind_manifest:
  "str_rfind (manifest_string (x # xs)) ('','' @ to_string d @ '','') =
     map_option (comma_at (x # xs)) (last_occurrence d xs)"
proof (induction xs arbitrary: x)
  case Nil
  have "last_match (CHR '','' # to_string d @ '','') (to_string x @ [CHR '','']) = None"
    using last_match_skip [of "CHR '',''" "to_string x" "to_string d @ '',''" "'',''"]
    by (simp add: to_string_no_comma to_string_not_empty)
  then show ?case
    by (simp add: str_rfind_def)
next
  case (Cons y ys)
  let ?pat = "CHR '','' # to_string d @ '',''"
  have step: "last_match ?pat (manifest_string (x # y # ys)) =
      map_option (\<lambda>i. length (to_string x) + i) (last_match ?pat (CHR '','' # manifest_string (y # ys)))"
    using last_match_skip [of "CHR '',''" "to_string x"] by (simp add: to_string_no_comma)
  have ih: "last_match ?pat (manifest_string (y # ys)) = map_option (comma_at (y # ys)) (last_occurrence d ys)"
    using Cons.IH [of y] by (simp add: str_rfind_def)
  have pre: "prefix (to_string d @ '','') (manifest_string (y # ys)) \<longleftrightarrow> y = d"
    using prefix_manifest [of d "y # ys"] by auto
  show ?case
  proof (cases "last_occurrence d ys")
    case None
    with step ih pre show ?thesis
      by (auto simp: str_rfind_def comma_at_def)
  next
    case (Some j)
    with step ih show ?thesis
      by (simp add: str_rfind_def comma_at_def)
  qed
qed


lemma last_occurrence_less: "last_occurrence d m = Some k \<Longrightarrow> k < length m"
  by (induction m arbitrary: k) (auto split: option.splits if_splits)

lemma last_occurrence_None: "last_occurrence d m = None \<longleftrightarrow> d \<notin> set m"
  by (induction m) (auto split: option.splits)

lemma last_occurrence_Some:
  "last_occurrence d m = Some k \<Longrightarrow> m ! k = d \<and> (\<forall>j. k < j \<and> j < length m \<longrightarrow> m ! j \<noteq> d)"
proof (induction m arbitrary: k)
  case Nil
  then show ?case by simp
next
  case (Cons x xs)
  show ?case
  proof (cases "last_occurrence d xs")
    case None
    with Cons.prems have "k = 0" "x = d"
      by (auto split: if_splits)
    moreover from None have "d \<notin> set xs"
      by (simp add: last_occurrence_None)
    ultimately show ?thesis
      by (auto simp: nth_Cons')
  next
    case (Some k')
    with Cons.prems have k: "k = Suc k'" by simp
    from Cons.IH [OF Some] show ?thesis
      unfolding k by (auto simp: nth_Cons split: nat.splits)
  qed
qed

lemma manifest_string_take_mono:
  "a \<le> b \<Longrightarrow> length (manifest_string (take a m)) \<le> length (manifest_string (take b m))"
proof -
  assume "a \<le> b"
  then have "take b m = take a m @ take (b - a) (drop a m)"
    by (metis le_add_diff_inverse take_add)
  then show ?thesis
    by (simp add: manifest_string_append)
qed

lemma comma_at_Suc:
  "i < length m \<Longrightarrow> length (manifest_string (take (Suc i) m)) = Suc (comma_at m i)"
  by (simp add: take_Suc_conv_app_nth manifest_string_append comma_at_def)

lemma comma_at_less: "i < j \<Longrightarrow> j < length m \<Longrightarrow> comma_at m i < comma_at m j"
proof -
  assume ij: "i < j" and j: "j < length m"
  then have "Suc (comma_at m i) = length (manifest_string (take (Suc i) m))"
    by (simp add: comma_at_Suc)
  also have "\<dots> \<le> length (manifest_string (take j m))"
    using ij by (intro manifest_string_take_mono) simp
  also have "\<dots> \<le> comma_at m j"
    by (simp add: comma_at_def)
  finally show ?thesis by simp
qed

lemma find_comma:
  assumes "i < length m"
  shows "str_find (manifest_string m) '','' (length (manifest_string (take i m))) = Some (comma_at m i)"
proof -
  have split: "manifest_string m = manifest_string (take i m) @ manifest_string (drop i m)"
    by (metis append_take_drop_id manifest_string_append)
  have "drop i m = m ! i # drop (Suc i) m"
    using assms by (simp add: Cons_nth_drop_Suc)
  then have rest: "manifest_string (drop i m) =
      to_string (m ! i) @ CHR '','' # manifest_string (drop (Suc i) m)"
    by simp
  have "first_match '','' (manifest_string (drop i m)) = Some (length (to_string (m ! i)))"
    unfolding rest by (rule first_match_skip) (rule to_string_no_comma)
  then show ?thesis
    by (simp add: str_find_def split comma_at_def)
qed

lemma count_pages_manifest:
  "i \<le> j \<Longrightarrow> j < length m \<Longrightarrow>
   count_pages (manifest_string m) (comma_at m j) w (Some (comma_at m i)) = Some (w + of_nat (j - i))"
proof (induction "j - i" arbitrary: i w)
  case 0
  then show ?case
    by (subst count_pages.simps) simp
next
  case (Suc n)
  then have less: "i < j" and next_le: "Suc i \<le> j" and n: "n = j - Suc i"
    by simp_all
  have neq: "comma_at m i \<noteq> comma_at m j"
    using comma_at_less [OF less Suc.prems(2)] by simp
  have "str_find (manifest_string m) '','' (comma_at m i + 1) = Some (comma_at m (Suc i))"
    using find_comma [of "Suc i" m] less Suc.prems(2) by (simp add: comma_at_Suc)
  then have "count_pages (manifest_string m) (comma_at m j) w (Some (comma_at m i)) =
      count_pages (manifest_string m) (comma_at m j) (w + 1) (Some (comma_at m (Suc i)))"
    using neq by (subst count_pages.simps) simp
  also have "\<dots> = Some (w + 1 + of_nat (j - Suc i))"
    using n next_le Suc.prems(2) by (rule Suc.hyps(1))
  also have "w + 1 + of_nat (j - Suc i) = w + of_nat (j - i)"
    using less by (simp add: Suc_diff_Suc [symmetric])
  finally show ?case .
qed

lemma fetch_log_page_manifest:
  assumes "length m \<le> 2 ^ 32"
  shows "fetch_log_page (manifest_string m) d = Some (last_occurrence d m)"
proof (cases m)
  case Nil
  then show ?thesis by (simp add: fetch_log_page_def)
next
  case (Cons x xs)
  have nonempty: "manifest_string m \<noteq> []"
    using Cons by (simp add: manifest_string_empty)
  have rfind: "str_rfind (manifest_string m) ('','' @ to_string d @ '','') =
      map_option (comma_at m) (last_occurrence d xs)"
    unfolding Cons by (rule rfind_manifest)
  show ?thesis
  proof (cases "last_occurrence d xs")
    case None
    have "str_find (manifest_string m) (to_string d @ '','') 0 = Some 0 \<longleftrightarrow> x = d"
      using prefix_manifest [of d m] Cons
      by (auto simp: str_find_def first_match_zero [symmetric])
    with None nonempty rfind Cons show ?thesis
      by (simp add: fetch_log_page_def)
  next
    case (Some j)
    then have j: "j < length xs"
      by (rule last_occurrence_less)
    then have jm: "j < length m"
      using Cons by simp
    have start: "str_find (manifest_string m) '','' 0 = Some (comma_at m 0)"
      using find_comma [of 0 m] Cons by simp
    have "count_pages (manifest_string m) (comma_at m j) 0 (Some (comma_at m 0)) = Some (0 + of_nat (j - 0))"
      using jm by (intro count_pages_manifest) simp_all
    then have count: "count_pages (manifest_string m) (comma_at m j) 0 (str_find (manifest_string m) '','' 0)
        = Some (of_nat j)"
      by (simp add: start)
    have "Suc j < 2 ^ 32"
      using j assms Cons by simp
    then have "unat (of_nat j + 1 :: 32 word) = Suc j"
      by (intro of_nat_inverse) simp_all
    with Some nonempty rfind count Cons show ?thesis
      by (simp add: fetch_log_page_def)
  qed
qed

subsection \<open>Reads\<close>

lemma start_time_irrelevant [simp]:
  "check_physical_address c (s\<lparr>start_time := t\<rparr>) L = check_physical_address c s L"
  "check_page_empty (s\<lparr>start_time := t\<rparr>) L = check_page_empty s L"
  "check_log_block c (s\<lparr>start_time := t\<rparr>) a = check_log_block c s a"
  by (simp_all add: check_physical_address_def check_page_empty_def check_log_block_def)

lemma check_physical_address_eq:
  "L div BLOCK_SIZE c < length (logical_to_physical s) \<Longrightarrow>
   check_physical_address c s L =
     Some (block_address c (L mod BLOCK_SIZE c)
            (int (L div BLOCK_SIZE c) + logical_to_physical s ! (L div BLOCK_SIZE c)))"
  by (simp add: check_physical_address_def array_get_def Let_def)

lemma translate_read_result:
  "translate_read c e L pba pg da s = Some (st, e', s') \<Longrightarrow>
   s' = s \<and>
   translate_read c e2 L pba pg da (s\<lparr>start_time := t\<rparr>) =
     Some (st, if st = SUCCESS then e2\<lparr>ev_address := ev_address e'\<rparr> else e2, s\<lparr>start_time := t\<rparr>)"
  unfolding translate_read_def deref_def
  by (auto split: Option.bind_splits option.splits if_splits)

lemma translate_READ:
  "ev_type e = READ \<Longrightarrow> translate c e s =
     (if USABLE_SIZE c \<le> of_nat (ev_logical_address e) then Some (FAILURE, e, s)
      else do {
        pa \<leftarrow> check_physical_address c s (ev_logical_address e);
        translate_read c e (ev_logical_address e) (page_address c pa (pa mod BLOCK_SIZE c))
          (pa mod BLOCK_SIZE c) (pa - pa mod BLOCK_SIZE c) (s\<lparr>start_time := ev_start_time e\<rparr>)
      })"
  by (simp add: translate_def Let_def map_physical_to_SSD_def page_address_def
      split: Option.bind_splits)

lemma translate_read_hit:
  assumes "ev_type e = READ" and "of_nat (ev_logical_address e) < USABLE_SIZE c"
    and "check_physical_address c s (ev_logical_address e) = Some pa"
    and "check_page_empty s (ev_logical_address e) = Some False"
    and "check_log_block c s (pa - pa mod BLOCK_SIZE c) = Some (Some log_address)"
    and "log_to_pages s log_address = Some offsets"
    and "fetch_log_page offsets (pa mod BLOCK_SIZE c) = Some (Some k)"
  shows "translate c e s =
    Some (SUCCESS, e\<lparr>ev_address := page_address c log_address k\<rparr>, s\<lparr>start_time := ev_start_time e\<rparr>)"
  using assms by (simp add: translate_READ translate_read_def deref_def)

lemma logical_block_in_table:
  "0 < BLOCK_SIZE c \<Longrightarrow> L < NUM_OF_LGC_B c * BLOCK_SIZE c \<Longrightarrow> L div BLOCK_SIZE c < NUM_OF_LGC_B c"
  by (simp add: less_mult_imp_div_less)

text \<open>
  A READ of a page of one of the \<^verbatim>\<open>NUM_OF_LGC_B\<close> whole logical blocks whose bitmap bit
  is clear makes \<open>translate\<close> return \<^verbatim>\<open>FAILURE\<close> with the event untouched; the bitmap, both
  offset tables, the manifests, the erase counts and the free pool are unchanged, and
  nothing is issued to the controller (only the global \<^verbatim>\<open>start_time\<close> is overwritten).
\<close>

lemma read_unwritten_fails:
  assumes "0 < BLOCK_SIZE c" and "tables_allocated c s"
    and "ev_type event = READ"
    and "ev_logical_address event < NUM_OF_LGC_B c * BLOCK_SIZE c"
    and "check_page_empty s (ev_logical_address event) = Some True"
  shows "\<exists>s'. translate c event s = Some (FAILURE, event, s') \<and>
    logical_to_emptiness s' = logical_to_emptiness s \<and>
    logical_to_physical s' = logical_to_physical s \<and>
    data_to_log s' = data_to_log s \<and>
    log_to_pages s' = log_to_pages s \<and>
    erase_count s' = erase_count s \<and>
    op_blocks s' = op_blocks s \<and>
    controller_issued s' = controller_issued s"
proof -
  have "ev_logical_address event div BLOCK_SIZE c < length (logical_to_physical s)"
    using assms by (simp add: logical_block_in_table tables_allocated_def)
  then obtain pa where "check_physical_address c s (ev_logical_address event) = Some pa"
    by (simp add: check_physical_address_eq)
  moreover have "of_nat (ev_logical_address event) < USABLE_SIZE c"
    using whole_blocks_usable [OF assms(1,4)] by simp
  ultimately have "translate c event s = Some (FAILURE, event, s\<lparr>start_time := ev_start_time event\<rparr>)"
    using assms by (simp add: translate_READ translate_read_def)
  then show ?thesis by simp
qed

text \<open>
  Claim C8. A READ event that \<open>translate\<close> processes changes neither the bitmap, nor the
  two offset tables, nor the manifests, nor the erase counts, nor the free pool; hence
  any further READ of the same logical address, translated in the resulting state,
  returns the same status and, on success, the same physical page.
\<close>

theorem read_translation_idempotent:
  assumes "ev_type event = READ" and "translate c event s = Some (st, event', s')"
  shows "logical_to_emptiness s' = logical_to_emptiness s \<and>
    logical_to_physical s' = logical_to_physical s \<and>
    data_to_log s' = data_to_log s \<and>
    log_to_pages s' = log_to_pages s \<and>
    erase_count s' = erase_count s \<and>
    op_blocks s' = op_blocks s \<and>
    (\<forall>event2. ev_type event2 = READ \<and> ev_logical_address event2 = ev_logical_address event \<longrightarrow>
       (\<exists>event2' s''. translate c event2 s' = Some (st, event2', s'') \<and>
          (st = SUCCESS \<longrightarrow> ev_address event2' = ev_address event')))"
proof (cases "USABLE_SIZE c \<le> of_nat (ev_logical_address event)")
  case True
  with assms have "s' = s" "st = FAILURE"
    by (simp_all add: translate_READ)
  with True show ?thesis
    by (auto simp: translate_READ)
next
  case False
  let ?L = "ev_logical_address event"
  from assms False obtain pa where pa: "check_physical_address c s ?L = Some pa"
    and rd: "translate_read c event ?L (page_address c pa (pa mod BLOCK_SIZE c))
          (pa mod BLOCK_SIZE c) (pa - pa mod BLOCK_SIZE c) (s\<lparr>start_time := ev_start_time event\<rparr>)
        = Some (st, event', s')"
    by (auto simp: translate_READ split: Option.bind_splits)
  from translate_read_result [OF rd] have s': "s' = s\<lparr>start_time := ev_start_time event\<rparr>"
    and again: "\<And>e2 t. translate_read c e2 ?L (page_address c pa (pa mod BLOCK_SIZE c))
          (pa mod BLOCK_SIZE c) (pa - pa mod BLOCK_SIZE c) (s\<lparr>start_time := t\<rparr>)
        = Some (st, if st = SUCCESS then e2\<lparr>ev_address := ev_address event'\<rparr> else e2, s\<lparr>start_time := t\<rparr>)"
    by simp_all
  have "\<exists>event2' s''. translate c event2 s' = Some (st, event2', s'') \<and>
          (st = SUCCESS \<longrightarrow> ev_address event2' = ev_address event')"
    if "ev_type event2 = READ" "ev_logical_address event2 = ?L" for event2
    using that False pa again [of event2 "ev_start_time event2"]
    by (simp add: translate_READ s')
  then show ?thesis
    by (simp add: s')
qed


lemma scenario_fresh_eq:
  "scenario_fresh =
     \<lparr>logical_to_emptiness = [0, 0, 0], erase_count = [0, 0, 0, 0],
      logical_to_physical = [0, 0, 0], data_to_log = [0, 0, 0, 0],
      log_to_pages = Map.empty, start_time = 0, op_blocks = [12], controller_issued = []\<rparr>"
  by (simp add: scenario_fresh_def scenario_init)

lemma scenario_allocated:
  "tables_allocated scenario_geometry scenario_fresh"
  "tables_allocated scenario_geometry scenario_written"
  "tables_allocated scenario_geometry scenario_logged"
  by (simp_all add: tables_allocated_def scenario_logged_def scenario_written_def scenario_fresh_eq
      scenario_sizes scenario_emp_len)


text \<open>The theorem for two reads of page 0 after its first write.\<close>

theorem read_translation_idempotent_witness:
  "ev_type (read_event 0 7) = READ \<and>
   translate scenario_geometry (read_event 0 7) scenario_written =
     Some (SUCCESS, (read_event 0 7)\<lparr>ev_address := Address 0 0 0 0 0 PAGE\<rparr>,
           scenario_written\<lparr>start_time := 7\<rparr>) \<and>
   (\<exists>event2' s''. translate scenario_geometry (read_event 0 8) (scenario_written\<lparr>start_time := 7\<rparr>)
        = Some (SUCCESS, event2', s'') \<and> ev_address event2' = Address 0 0 0 0 0 PAGE)"
proof -
  have ty: "ev_type (read_event 0 7) = READ"
    by (simp add: read_event_def Event_def)
  have tr: "translate scenario_geometry (read_event 0 7) scenario_written =
     Some (SUCCESS, (read_event 0 7)\<lparr>ev_address := Address 0 0 0 0 0 PAGE\<rparr>,
           scenario_written\<lparr>start_time := 7\<rparr>)"
    by (simp add: translate_READ translate_read_def read_event_def Event_def scenario_sizes
        scenario_written_def scenario_fresh_eq check_physical_address_eq check_page_empty_def
        check_log_block_def array_get_def sizeof_unsigned_int_def block_address_def ulong_def
        page_address_def map_physical_to_SSD_def)
  from read_translation_idempotent [OF ty tr] ty tr show ?thesis
    by (simp add: read_event_def Event_def)
qed

lemma to_string_digit: "n < 10 \<Longrightarrow> to_string n = [digit_char n]"
  by (subst to_string.simps) simp

text \<open>
  Claim C2. For the manifest string of every sequence \<open>m\<close> of page offsets (of a length
  that the 32-bit page counter can hold) and every \<open>d\<close>: \<open>fetch_log_page\<close> returns, and it
  reports absent when \<open>d\<close> does not occur in \<open>m\<close> and otherwise yields the index \<open>k\<close> of the
  last occurrence of \<open>d\<close>. Consequently a READ of a written logical page whose data block
  has a log block with manifest \<open>m\<close>, and whose page offset \<open>d\<close> occurs in \<open>m\<close>, resolves to
  page \<open>k\<close> of the log block: the copy appended last.
\<close>

theorem fetch_log_page_last_occurrence:
  assumes "length m \<le> 2 ^ 32"
  shows "(d \<notin> set m \<longrightarrow> fetch_log_page (manifest_string m) d = Some None) \<and>
    (d \<in> set m \<longrightarrow>
       (\<exists>k. fetch_log_page (manifest_string m) d = Some (Some k) \<and>
          k < length m \<and> m ! k = d \<and> (\<forall>j. k < j \<and> j < length m \<longrightarrow> m ! j \<noteq> d) \<and>
          (\<forall>c event s pa log_address.
             ev_type event = READ \<and> of_nat (ev_logical_address event) < USABLE_SIZE c \<and>
             check_physical_address c s (ev_logical_address event) = Some pa \<and>
             pa mod BLOCK_SIZE c = d \<and>
             check_page_empty s (ev_logical_address event) = Some False \<and>
             check_log_block c s (pa - d) = Some (Some log_address) \<and>
             log_to_pages s log_address = Some (manifest_string m) \<longrightarrow>
             translate c event s =
               Some (SUCCESS, event\<lparr>ev_address := page_address c log_address k\<rparr>,
                     s\<lparr>start_time := ev_start_time event\<rparr>))))"
proof (intro conjI impI)
  assume "d \<notin> set m"
  then show "fetch_log_page (manifest_string m) d = Some None"
    using assms by (simp add: fetch_log_page_manifest last_occurrence_None)
next
  assume "d \<in> set m"
  then obtain k where k: "last_occurrence d m = Some k"
    using last_occurrence_None [of d m] by auto
  then have fetch: "fetch_log_page (manifest_string m) d = Some (Some k)"
    using assms by (simp add: fetch_log_page_manifest)
  have "translate c event s =
      Some (SUCCESS, event\<lparr>ev_address := page_address c log_address k\<rparr>,
            s\<lparr>start_time := ev_start_time event\<rparr>)"
    if "ev_type event = READ" "of_nat (ev_logical_address event) < USABLE_SIZE c"
      "check_physical_address c s (ev_logical_address event) = Some pa"
      "pa mod BLOCK_SIZE c = d"
      "check_page_empty s (ev_logical_address event) = Some False"
      "check_log_block c s (pa - d) = Some (Some log_address)"
      "log_to_pages s log_address = Some (manifest_string m)"
    for c event s pa log_address
    using that fetch by (intro translate_read_hit [where pa = pa and offsets = "manifest_string m"]) simp_all
  with fetch last_occurrence_less [OF k] last_occurrence_Some [OF k]
  show "\<exists>k. fetch_log_page (manifest_string m) d = Some (Some k) \<and>
          k < length m \<and> m ! k = d \<and> (\<forall>j. k < j \<and> j < length m \<longrightarrow> m ! j \<noteq> d) \<and>
          (\<forall>c event s pa log_address.
             ev_type event = READ \<and> of_nat (ev_logical_address event) < USABLE_SIZE c \<and>
             check_physical_address c s (ev_logical_address event) = Some pa \<and>
             pa mod BLOCK_SIZE c = d \<and>
             check_page_empty s (ev_logical_address event) = Some False \<and>
             check_log_block c s (pa - d) = Some (Some log_address) \<and>
             log_to_pages s log_address = Some (manifest_string m) \<longrightarrow>
             translate c event s =
               Some (SUCCESS, event\<lparr>ev_address := page_address c log_address k\<rparr>,
                     s\<lparr>start_time := ev_start_time event\<rparr>))"
    by blast
qed

text \<open>
  The theorem for the manifest \<open>[0, 0]\<close>: page 0 was overwritten twice, and the read
  resolves to page 1 of log block 3.
\<close>

theorem fetch_log_page_last_occurrence_witness:
  "length [0, 0 :: nat] \<le> 2 ^ 32 \<and> (0 :: nat) \<in> set [0, 0] \<and>
   manifest_string [0, 0] = ''0,0,'' \<and>
   fetch_log_page ''0,0,'' 0 = Some (Some 1) \<and>
   translate scenario_geometry (read_event 0 7) scenario_logged =
     Some (SUCCESS, (read_event 0 7)\<lparr>ev_address := Address 0 0 0 3 1 PAGE\<rparr>,
           scenario_logged\<lparr>start_time := 7\<rparr>)"
proof -
  have len: "length [0, 0 :: nat] \<le> 2 ^ 32" by simp
  have str: "manifest_string [0, 0] = ''0,0,''"
    by (simp add: to_string_digit digit_char_def)
  from fetch_log_page_last_occurrence [OF len, of 0] obtain k where
    fetch: "fetch_log_page (manifest_string [0, 0]) 0 = Some (Some k)"
    and k: "k < length [0, 0 :: nat]"
    and last: "\<forall>j. k < j \<and> j < length [0, 0 :: nat] \<longrightarrow> [0, 0 :: nat] ! j \<noteq> 0"
    and tr: "\<And>c event s pa log_address.
             ev_type event = READ \<and> of_nat (ev_logical_address event) < USABLE_SIZE c \<and>
             check_physical_address c s (ev_logical_address event) = Some pa \<and>
             pa mod BLOCK_SIZE c = 0 \<and>
             check_page_empty s (ev_logical_address event) = Some False \<and>
             check_log_block c s (pa - 0) = Some (Some log_address) \<and>
             log_to_pages s log_address = Some (manifest_string [0, 0]) \<Longrightarrow>
             translate c event s =
               Some (SUCCESS, event\<lparr>ev_address := page_address c log_address k\<rparr>,
                     s\<lparr>start_time := ev_start_time event\<rparr>)"
    by auto
  have "k = 1"
  proof (rule ccontr)
    assume "k \<noteq> 1"
    with k have "k = 0" by simp
    with last show False by (auto dest: spec [of _ 1])
  qed
  have "translate scenario_geometry (read_event 0 7) scenario_logged =
      Some (SUCCESS, (read_event 0 7)\<lparr>ev_address := page_address scenario_geometry 12 k\<rparr>,
            scenario_logged\<lparr>start_time := ev_start_time (read_event 0 7)\<rparr>)"
    by (rule tr [where pa = 0])
      (simp add: to_string_digit digit_char_def read_event_def Event_def scenario_sizes
        scenario_logged_def scenario_written_def
        scenario_fresh_eq check_physical_address_eq check_page_empty_def check_log_block_def
        array_get_def sizeof_unsigned_int_def block_address_def ulong_def)
  with fetch str \<open>k = 1\<close> show ?thesis
    by (simp add: page_address_def map_physical_to_SSD_def scenario_sizes read_event_def Event_def
        to_string_digit digit_char_def)
qed


subsection \<open>Cleaning\<close>

lemma check_page_empty_issued [simp]:
  "check_page_empty (s\<lparr>controller_issued := es\<rparr>) L = check_page_empty s L"
  by (simp add: check_page_empty_def)

lemma copy_page_loop:
  "for_loop is (copy_page c lb src des) s = Some s' \<Longrightarrow>
   s' = s\<lparr>controller_issued := controller_issued s @
           copy_events c lb src des (start_time s)
             (filter (\<lambda>i. check_page_empty s (lb + i) = Some False) is)\<rparr>"
proof (induction "is" arbitrary: s)
  case Nil
  then show ?case by (simp add: copy_events_def)
next
  case (Cons i "is")
  from Cons.prems obtain s1 where step: "copy_page c lb src des i s = Some s1"
    and rest: "for_loop is (copy_page c lb src des) s1 = Some s'"
    by (auto split: option.splits)
  from step obtain e where e: "check_page_empty s (lb + i) = Some e"
    by (auto simp: copy_page_def split: Option.bind_splits)
  show ?case
  proof (cases e)
    case True
    with step e have "s1 = s"
      by (simp add: copy_page_def)
    with Cons.IH [OF rest] e True show ?thesis
      by simp
  next
    case False
    with step e have s1: "s1 = s\<lparr>controller_issued := controller_issued s @
        [Event READ (lb + i) 1 (start_time s) (page_address c src i),
         Event WRITE (lb + i) 1 (start_time s) (page_address c des i)]\<rparr>"
      by (simp add: copy_page_def issue_def)
    from Cons.IH [OF rest] e False show ?thesis
      unfolding s1 by (simp add: copy_events_def)
  qed
qed

lemma clean_copy_out_loop:
  "for_loop is (clean_copy_out c lb D L cln log_pages) s = Some s' \<Longrightarrow>
   (filter (\<lambda>i. check_page_empty s (lb + i) = Some False) is \<noteq> [] \<longrightarrow> log_pages \<noteq> None) \<and>
   s' = s\<lparr>controller_issued := controller_issued s @
           copy_out_events c lb D L cln (the log_pages) (start_time s)
             (filter (\<lambda>i. check_page_empty s (lb + i) = Some False) is)\<rparr>"
proof (induction "is" arbitrary: s)
  case Nil
  then show ?case by (simp add: copy_out_events_def)
next
  case (Cons i "is")
  from Cons.prems obtain s1 where step: "clean_copy_out c lb D L cln log_pages i s = Some s1"
    and rest: "for_loop is (clean_copy_out c lb D L cln log_pages) s1 = Some s'"
    by (auto split: option.splits)
  from step obtain e where e: "check_page_empty s (lb + i) = Some e"
    by (auto simp: clean_copy_out_def split: Option.bind_splits)
  show ?case
  proof (cases e)
    case True
    with step e have "s1 = s"
      by (simp add: clean_copy_out_def)
    with Cons.IH [OF rest] e True show ?thesis
      by simp
  next
    case False
    with step e obtain offsets r where lp: "log_pages = Some offsets"
      and r: "fetch_log_page offsets i = Some r"
      by (auto simp: clean_copy_out_def deref_def split: Option.bind_splits)
    with step e False have s1: "s1 = s\<lparr>controller_issued := controller_issued s @
        [Event READ (lb + i) 1 (start_time s) (clean_source c D L offsets i),
         Event WRITE (lb + i) 1 (start_time s) (page_address c cln i)]\<rparr>"
      by (auto simp: clean_copy_out_def deref_def issue_def clean_source_def Let_def split: option.splits)
    from Cons.IH [OF rest] e False lp show ?thesis
      unfolding s1 by (simp add: copy_out_events_def)
  qed
qed

lemma update_erase_count_Some:
  "update_erase_count c pa s = Some s' \<Longrightarrow>
   pa div BLOCK_SIZE c < length (erase_count s) \<and>
   s' = s\<lparr>erase_count := (erase_count s)
          [pa div BLOCK_SIZE c := erase_count s ! (pa div BLOCK_SIZE c) + 1]\<rparr>"
  by (auto simp: update_erase_count_def array_get_def array_set_def split: if_splits)

lemma clean_Some_True:
  assumes "clean c lb D L s = Some (True, s')"
  shows "\<exists>cln. find_empty_data_block_for_cleaning c s = Some (Some cln) \<and>
    (written_pages s lb (BLOCK_SIZE c) \<noteq> [] \<longrightarrow> log_to_pages s L \<noteq> None) \<and>
    D div BLOCK_SIZE c < length (erase_count s) \<and>
    L div BLOCK_SIZE c < length (erase_count s) \<and>
    cln div BLOCK_SIZE c < length (erase_count s) \<and>
    s' = s\<lparr>controller_issued := controller_issued s @
            copy_out_events c lb D L cln (the (log_to_pages s L)) (start_time s)
              (written_pages s lb (BLOCK_SIZE c)) @
            [erase_event c lb D (start_time s), erase_event c lb L (start_time s)] @
            copy_events c lb cln D (start_time s) (written_pages s lb (BLOCK_SIZE c)) @
            [erase_event c lb cln (start_time s)],
          erase_count :=
            (let e1 = (erase_count s)[D div BLOCK_SIZE c := erase_count s ! (D div BLOCK_SIZE c) + 1];
                 e2 = e1[L div BLOCK_SIZE c := e1 ! (L div BLOCK_SIZE c) + 1]
             in e2[cln div BLOCK_SIZE c := e2 ! (cln div BLOCK_SIZE c) + 1])\<rparr>"
proof -
  from assms obtain cln s1 s4 s6 s7 where
    cln: "find_empty_data_block_for_cleaning c s = Some (Some cln)"
    and l1: "for_loop [0..<BLOCK_SIZE c] (clean_copy_out c lb D L cln (log_to_pages s L)) s = Some s1"
    and l2: "for_loop [0..<BLOCK_SIZE c] (copy_page c lb cln D)
        (issue (erase_event c lb L (start_time s1)) (issue (erase_event c lb D (start_time s1)) s1)) = Some s4"
    and u1: "update_erase_count c D (issue (erase_event c lb cln (start_time s4)) s4) = Some s6"
    and u2: "update_erase_count c L s6 = Some s7"
    and u3: "update_erase_count c cln s7 = Some s'"
    by (auto simp: clean_def Let_def erase_event_def issue_def split: Option.bind_splits option.splits)
  note a = clean_copy_out_loop [OF l1]
  note b = copy_page_loop [OF l2]
  note d1 = update_erase_count_Some [OF u1]
  note d2 = update_erase_count_Some [OF u2]
  note d3 = update_erase_count_Some [OF u3]
  from a have s1: "s1 = s\<lparr>controller_issued := controller_issued s @
           copy_out_events c lb D L cln (the (log_to_pages s L)) (start_time s)
             (written_pages s lb (BLOCK_SIZE c))\<rparr>"
    by (simp add: written_pages_def)
  from b have s4: "s4 = s\<lparr>controller_issued := controller_issued s @
            copy_out_events c lb D L cln (the (log_to_pages s L)) (start_time s)
              (written_pages s lb (BLOCK_SIZE c)) @
            [erase_event c lb D (start_time s), erase_event c lb L (start_time s)] @
            copy_events c lb cln D (start_time s) (written_pages s lb (BLOCK_SIZE c))\<rparr>"
    unfolding s1 by (simp add: issue_def written_pages_def)
  from d1 have s6: "s6 = s4\<lparr>controller_issued := controller_issued s4 @ [erase_event c lb cln (start_time s)],
      erase_count := (erase_count s)[D div BLOCK_SIZE c := erase_count s ! (D div BLOCK_SIZE c) + 1]\<rparr>"
    and D: "D div BLOCK_SIZE c < length (erase_count s)"
    unfolding s4 by (simp_all add: issue_def)
  from d2 have s7: "s7 = s6\<lparr>erase_count := (erase_count s6)
          [L div BLOCK_SIZE c := erase_count s6 ! (L div BLOCK_SIZE c) + 1]\<rparr>"
    and L: "L div BLOCK_SIZE c < length (erase_count s)"
    unfolding s6 by simp_all
  from d3 have s': "s' = s7\<lparr>erase_count := (erase_count s7)
          [cln div BLOCK_SIZE c := erase_count s7 ! (cln div BLOCK_SIZE c) + 1]\<rparr>"
    and C: "cln div BLOCK_SIZE c < length (erase_count s)"
    unfolding s7 s6 by simp_all
  have "s' = s\<lparr>controller_issued := controller_issued s @
            copy_out_events c lb D L cln (the (log_to_pages s L)) (start_time s)
              (written_pages s lb (BLOCK_SIZE c)) @
            [erase_event c lb D (start_time s), erase_event c lb L (start_time s)] @
            copy_events c lb cln D (start_time s) (written_pages s lb (BLOCK_SIZE c)) @
            [erase_event c lb cln (start_time s)],
          erase_count :=
            (let e1 = (erase_count s)[D div BLOCK_SIZE c := erase_count s ! (D div BLOCK_SIZE c) + 1];
                 e2 = e1[L div BLOCK_SIZE c := e1 ! (L div BLOCK_SIZE c) + 1]
             in e2[cln div BLOCK_SIZE c := e2 ! (cln div BLOCK_SIZE c) + 1])\<rparr>"
    unfolding s' s7 s6 s4 by (simp add: Let_def)
  moreover from a have "written_pages s lb (BLOCK_SIZE c) \<noteq> [] \<longrightarrow> log_to_pages s L \<noteq> None"
    by (simp add: written_pages_def)
  ultimately show ?thesis
    using cln D L C by blast
qed

text \<open>
  Claim C1. Whenever \<open>clean logical_block D L\<close> returns success, a cleaning block \<open>cln\<close> was
  found, and the events issued by the call are, in this order: for every written page
  offset \<open>i\<close> of the logical block a READ from the source of \<open>i\<close> (page \<open>k\<close> of \<open>L\<close> when
  \<open>fetch_log_page\<close> finds \<open>i\<close> at index \<open>k\<close>, page \<open>i\<close> of \<open>D\<close> otherwise) and a WRITE to
  page \<open>i\<close> of \<open>cln\<close>; an ERASE of \<open>D\<close>; an ERASE of \<open>L\<close>; for every written \<open>i\<close> a READ from
  page \<open>i\<close> of \<open>cln\<close> and a WRITE to page \<open>i\<close> of \<open>D\<close>; an ERASE of \<open>cln\<close>. No erase count
  other than those of the three blocks changes, and when the three blocks are pairwise
  different each of their erase counts grows by exactly one. Nothing else changes.
\<close>

theorem clean_event_sequence:
  assumes "clean c logical_block D L s = Some (True, s')"
  shows "\<exists>cln. find_empty_data_block_for_cleaning c s = Some (Some cln) \<and>
    controller_issued s' = controller_issued s @
      copy_out_events c logical_block D L cln (the (log_to_pages s L)) (start_time s)
        (written_pages s logical_block (BLOCK_SIZE c)) @
      [erase_event c logical_block D (start_time s), erase_event c logical_block L (start_time s)] @
      copy_events c logical_block cln D (start_time s) (written_pages s logical_block (BLOCK_SIZE c)) @
      [erase_event c logical_block cln (start_time s)] \<and>
    (written_pages s logical_block (BLOCK_SIZE c) \<noteq> [] \<longrightarrow> log_to_pages s L \<noteq> None) \<and>
    length (erase_count s') = length (erase_count s) \<and>
    (\<forall>b. b \<noteq> D div BLOCK_SIZE c \<and> b \<noteq> L div BLOCK_SIZE c \<and> b \<noteq> cln div BLOCK_SIZE c \<longrightarrow>
       erase_count s' ! b = erase_count s ! b) \<and>
    (distinct [D div BLOCK_SIZE c, L div BLOCK_SIZE c, cln div BLOCK_SIZE c] \<longrightarrow>
       erase_count s' ! (D div BLOCK_SIZE c) = erase_count s ! (D div BLOCK_SIZE c) + 1 \<and>
       erase_count s' ! (L div BLOCK_SIZE c) = erase_count s ! (L div BLOCK_SIZE c) + 1 \<and>
       erase_count s' ! (cln div BLOCK_SIZE c) = erase_count s ! (cln div BLOCK_SIZE c) + 1) \<and>
    logical_to_emptiness s' = logical_to_emptiness s \<and>
    logical_to_physical s' = logical_to_physical s \<and>
    data_to_log s' = data_to_log s \<and>
    log_to_pages s' = log_to_pages s \<and>
    op_blocks s' = op_blocks s \<and>
    start_time s' = start_time s"
proof -
  from clean_Some_True [OF assms] obtain cln where
    cln: "find_empty_data_block_for_cleaning c s = Some (Some cln)"
    and mani: "written_pages s logical_block (BLOCK_SIZE c) \<noteq> [] \<longrightarrow> log_to_pages s L \<noteq> None"
    and D: "D div BLOCK_SIZE c < length (erase_count s)"
    and L: "L div BLOCK_SIZE c < length (erase_count s)"
    and C: "cln div BLOCK_SIZE c < length (erase_count s)"
    and s': "s' = s\<lparr>controller_issued := controller_issued s @
            copy_out_events c logical_block D L cln (the (log_to_pages s L)) (start_time s)
              (written_pages s logical_block (BLOCK_SIZE c)) @
            [erase_event c logical_block D (start_time s), erase_event c logical_block L (start_time s)] @
            copy_events c logical_block cln D (start_time s) (written_pages s logical_block (BLOCK_SIZE c)) @
            [erase_event c logical_block cln (start_time s)],
          erase_count :=
            (let e1 = (erase_count s)[D div BLOCK_SIZE c := erase_count s ! (D div BLOCK_SIZE c) + 1];
                 e2 = e1[L div BLOCK_SIZE c := e1 ! (L div BLOCK_SIZE c) + 1]
             in e2[cln div BLOCK_SIZE c := e2 ! (cln div BLOCK_SIZE c) + 1])\<rparr>"
    by blast
  have counts: "erase_count s' =
      (let e1 = (erase_count s)[D div BLOCK_SIZE c := erase_count s ! (D div BLOCK_SIZE c) + 1];
           e2 = e1[L div BLOCK_SIZE c := e1 ! (L div BLOCK_SIZE c) + 1]
       in e2[cln div BLOCK_SIZE c := e2 ! (cln div BLOCK_SIZE c) + 1])"
    by (simp add: s')
  have other: "\<forall>b. b \<noteq> D div BLOCK_SIZE c \<and> b \<noteq> L div BLOCK_SIZE c \<and> b \<noteq> cln div BLOCK_SIZE c \<longrightarrow>
       erase_count s' ! b = erase_count s ! b"
    by (simp add: counts Let_def)
  have three: "distinct [D div BLOCK_SIZE c, L div BLOCK_SIZE c, cln div BLOCK_SIZE c] \<longrightarrow>
       erase_count s' ! (D div BLOCK_SIZE c) = erase_count s ! (D div BLOCK_SIZE c) + 1 \<and>
       erase_count s' ! (L div BLOCK_SIZE c) = erase_count s ! (L div BLOCK_SIZE c) + 1 \<and>
       erase_count s' ! (cln div BLOCK_SIZE c) = erase_count s ! (cln div BLOCK_SIZE c) + 1"
    using D L C by (auto simp: counts Let_def)
  have len: "length (erase_count s') = length (erase_count s)"
    by (simp add: counts Let_def)
  have rest: "controller_issued s' = controller_issued s @
      copy_out_events c logical_block D L cln (the (log_to_pages s L)) (start_time s)
        (written_pages s logical_block (BLOCK_SIZE c)) @
      [erase_event c logical_block D (start_time s), erase_event c logical_block L (start_time s)] @
      copy_events c logical_block cln D (start_time s) (written_pages s logical_block (BLOCK_SIZE c)) @
      [erase_event c logical_block cln (start_time s)]"
    "logical_to_emptiness s' = logical_to_emptiness s"
    "logical_to_physical s' = logical_to_physical s"
    "data_to_log s' = data_to_log s"
    "log_to_pages s' = log_to_pages s"
    "op_blocks s' = op_blocks s"
    "start_time s' = start_time s"
    by (simp_all add: s')
  from cln mani len other three rest show ?thesis
    by blast
qed

lemma scenario_logged_eq:
  "scenario_logged =
     \<lparr>logical_to_emptiness = [1, 0, 0], erase_count = [0, 0, 0, 0],
      logical_to_physical = [0, 0, 0], data_to_log = [3, 0, 0, 0],
      log_to_pages = [12 \<mapsto> ''0,0,''], start_time = 0, op_blocks = [], controller_issued = []\<rparr>"
  by (simp add: scenario_logged_def scenario_written_def scenario_fresh_eq)

lemmas eval_defs =
  check_physical_address_def check_page_empty_def check_log_block_def array_get_def array_set_def
  sizeof_unsigned_int_def block_address_def ulong_def page_address_def whole_block_address_def
  map_physical_to_SSD_def Address_def Event_def issue_def deref_def over_erase_limit_def
  update_erase_count_def set_physical_address_def set_log_block_def cancel_log_block_def
  set_page_written_def upt_conv_Cons

lemma scenario_logged_scratch:
  "find_empty_data_block_for_cleaning scenario_geometry scenario_logged = Some (Some 4)"
  by (simp add: find_empty_data_block_for_cleaning_def find_empty_step_def scenario_logged_eq
      scenario_sizes eval_defs)

lemma fetch_0_0: "fetch_log_page ''0,0,'' 0 = Some (Some 1)"
  by (simp add: fetch_log_page_def str_rfind_def str_find_def to_string_digit digit_char_def
      count_pages.simps)

lemma clean_scenario:
  "clean scenario_geometry 0 0 12 scenario_logged =
     Some (True, scenario_logged\<lparr>erase_count := [1, 1, 0, 1],
       controller_issued :=
         [Event READ 0 1 0 (Address 0 0 0 3 1 PAGE), Event WRITE 0 1 0 (Address 0 0 0 1 0 PAGE),
          Event ERASE 0 1 0 (Address 0 0 0 0 0 BLOCK), Event ERASE 0 1 0 (Address 0 0 0 3 0 BLOCK),
          Event READ 0 1 0 (Address 0 0 0 1 0 PAGE), Event WRITE 0 1 0 (Address 0 0 0 0 0 PAGE),
          Event ERASE 0 1 0 (Address 0 0 0 1 0 BLOCK)]\<rparr>)"
  by (simp add: clean_def scenario_logged_scratch)
     (simp add: scenario_logged_eq scenario_sizes eval_defs fetch_0_0 clean_copy_out_def copy_page_def)

text \<open>
  The theorem for the cleaning of block 0 and its log block 3 in the scenario: block 1
  is the cleaning block, and the only written page, page 0, is read from page 1 of the
  log block.
\<close>

theorem clean_event_sequence_witness:
  "clean scenario_geometry 0 0 12 scenario_logged =
     Some (True, scenario_logged\<lparr>erase_count := [1, 1, 0, 1],
       controller_issued :=
         [Event READ 0 1 0 (Address 0 0 0 3 1 PAGE), Event WRITE 0 1 0 (Address 0 0 0 1 0 PAGE),
          Event ERASE 0 1 0 (Address 0 0 0 0 0 BLOCK), Event ERASE 0 1 0 (Address 0 0 0 3 0 BLOCK),
          Event READ 0 1 0 (Address 0 0 0 1 0 PAGE), Event WRITE 0 1 0 (Address 0 0 0 0 0 PAGE),
          Event ERASE 0 1 0 (Address 0 0 0 1 0 BLOCK)]\<rparr>) \<and>
   find_empty_data_block_for_cleaning scenario_geometry scenario_logged = Some (Some 4) \<and>
   written_pages scenario_logged 0 (BLOCK_SIZE scenario_geometry) = [0] \<and>
   distinct [0 div BLOCK_SIZE scenario_geometry, 12 div BLOCK_SIZE scenario_geometry,
             4 div BLOCK_SIZE scenario_geometry :: nat]"
  using clean_event_sequence [OF clean_scenario]
  by (simp add: clean_scenario scenario_logged_scratch written_pages_def scenario_sizes)
     (simp add: scenario_logged_eq eval_defs)


subsection \<open>The shuffle\<close>

lemma find_logical_block_Some:
  "find_logical_block c s target is = Some lb \<Longrightarrow>
   lb = RAW_SIZE c \<or> (\<exists>i \<in> set is. lb = i * BLOCK_SIZE c \<and> check_physical_address c s lb = Some target)"
  by (induction "is") (auto simp: Let_def split: Option.bind_splits if_splits)

lemma set_physical_address_Some:
  "set_physical_address c la pa s = Some s' \<Longrightarrow>
   la div BLOCK_SIZE c < length (logical_to_physical s) \<and>
   s' = s\<lparr>logical_to_physical := (logical_to_physical s)
          [la div BLOCK_SIZE c := int (pa div BLOCK_SIZE c) - int (la div BLOCK_SIZE c)]\<rparr>"
  by (auto simp: set_physical_address_def array_set_def Let_def split: if_splits)

lemma shuffle_Some_True:
  assumes "shuffle_data_log c s = Some (True, s')"
  shows "\<exists>max_count max_erase_log max_erase_data logical_block min_count min_erase_data s1 s2 logical_block2.
    for_loop [0..<NUM_OF_PHY_B c] (max_pair_step c s) (0, RAW_SIZE c, RAW_SIZE c)
      = Some (max_count, max_erase_log, max_erase_data) \<and>
    max_erase_data \<noteq> RAW_SIZE c \<and> max_erase_log \<noteq> RAW_SIZE c \<and>
    find_logical_block c s max_erase_data [0..<NUM_OF_LGC_B c] = Some logical_block \<and>
    logical_block \<noteq> RAW_SIZE c \<and>
    for_loop [0..<NUM_OF_LGC_B c] (min_data_step c s) (BLOCK_ERASES c + 1, RAW_SIZE c)
      = Some (min_count, min_erase_data) \<and>
    min_erase_data \<noteq> RAW_SIZE c \<and> \<not> BLOCK_ERASES c - 1 \<le> min_count \<and>
    clean c logical_block max_erase_data max_erase_log s = Some (True, s1) \<and>
    cancel_log_block c max_erase_data s1 = Some s2 \<and>
    find_logical_block c s2 min_erase_data [0..<NUM_OF_LGC_B c] = Some logical_block2 \<and>
    logical_block2 \<noteq> RAW_SIZE c \<and>
    logical_block2 div BLOCK_SIZE c < length (logical_to_physical s2) \<and>
    s' = s2\<lparr>controller_issued := controller_issued s2 @
              copy_events c logical_block2 min_erase_data max_erase_log (start_time s2)
                (written_pages s2 logical_block2 (BLOCK_SIZE c)) @
              [erase_event c logical_block2 min_erase_data (start_time s2)],
            logical_to_physical := (logical_to_physical s2)
              [logical_block2 div BLOCK_SIZE c :=
                 int (max_erase_log div BLOCK_SIZE c) - int (logical_block2 div BLOCK_SIZE c)],
            op_blocks := op_blocks s2 @ [min_erase_data]\<rparr>"
proof -
  from assms obtain max_count max_erase_log max_erase_data logical_block min_count min_erase_data
      s1 s2 logical_block2 s3 s5 where
    a: "for_loop [0..<NUM_OF_PHY_B c] (max_pair_step c s) (0, RAW_SIZE c, RAW_SIZE c)
      = Some (max_count, max_erase_log, max_erase_data)"
      "max_erase_data \<noteq> RAW_SIZE c" "max_erase_log \<noteq> RAW_SIZE c"
      "find_logical_block c s max_erase_data [0..<NUM_OF_LGC_B c] = Some logical_block"
      "logical_block \<noteq> RAW_SIZE c"
      "for_loop [0..<NUM_OF_LGC_B c] (min_data_step c s) (BLOCK_ERASES c + 1, RAW_SIZE c)
        = Some (min_count, min_erase_data)"
      "min_erase_data \<noteq> RAW_SIZE c" "\<not> BLOCK_ERASES c - 1 \<le> min_count"
      "clean c logical_block max_erase_data max_erase_log s = Some (True, s1)"
      "cancel_log_block c max_erase_data s1 = Some s2"
      "find_logical_block c s2 min_erase_data [0..<NUM_OF_LGC_B c] = Some logical_block2"
      "logical_block2 \<noteq> RAW_SIZE c"
    and loop: "for_loop [0..<BLOCK_SIZE c] (copy_page c logical_block2 min_erase_data max_erase_log) s2 = Some s3"
    and set: "set_physical_address c logical_block2 max_erase_log
        (issue (erase_event c logical_block2 min_erase_data (start_time s3)) s3) = Some s5"
    and s': "s' = s5\<lparr>op_blocks := op_blocks s5 @ [min_erase_data]\<rparr>"
    unfolding shuffle_data_log_def erase_event_def Let_def
    by (auto split: Option.bind_splits if_splits prod.splits)
  from copy_page_loop [OF loop] have s3: "s3 = s2\<lparr>controller_issued := controller_issued s2 @
      copy_events c logical_block2 min_erase_data max_erase_log (start_time s2)
        (written_pages s2 logical_block2 (BLOCK_SIZE c))\<rparr>"
    by (simp add: written_pages_def)
  from set_physical_address_Some [OF set] have idx: "logical_block2 div BLOCK_SIZE c < length (logical_to_physical s2)"
    and s5: "s5 = (issue (erase_event c logical_block2 min_erase_data (start_time s3)) s3)
        \<lparr>logical_to_physical := (logical_to_physical s2)
          [logical_block2 div BLOCK_SIZE c :=
             int (max_erase_log div BLOCK_SIZE c) - int (logical_block2 div BLOCK_SIZE c)]\<rparr>"
    unfolding s3 by (simp_all add: issue_def)
  have "s' = s2\<lparr>controller_issued := controller_issued s2 @
              copy_events c logical_block2 min_erase_data max_erase_log (start_time s2)
                (written_pages s2 logical_block2 (BLOCK_SIZE c)) @
              [erase_event c logical_block2 min_erase_data (start_time s2)],
            logical_to_physical := (logical_to_physical s2)
              [logical_block2 div BLOCK_SIZE c :=
                 int (max_erase_log div BLOCK_SIZE c) - int (logical_block2 div BLOCK_SIZE c)],
            op_blocks := op_blocks s2 @ [min_erase_data]\<rparr>"
    unfolding s' s5 s3 by (simp add: issue_def)
  with a idx show ?thesis
    by blast
qed


lemma min_data_step_Some:
  "min_data_step c s i acc = Some acc' \<Longrightarrow>
   \<exists>d r. check_physical_address c s (i * BLOCK_SIZE c) = Some d \<and> check_log_block c s d = Some r \<and>
     (case r of
        Some l \<Rightarrow> acc' = acc
      | None \<Rightarrow> \<exists>n. array_get (erase_count s) (d div BLOCK_SIZE c) = Some n \<and>
          acc' = (if n < fst acc then (n, d) else acc))"
  by (auto simp: min_data_step_def Let_def split: Option.bind_splits option.splits if_splits)

lemma min_data_loop:
  "for_loop is (min_data_step c s) acc = Some acc' \<Longrightarrow>
   (acc' = acc \<or>
    (\<exists>i \<in> set is. check_physical_address c s (i * BLOCK_SIZE c) = Some (snd acc') \<and>
       check_log_block c s (snd acc') = Some None \<and>
       array_get (erase_count s) (snd acc' div BLOCK_SIZE c) = Some (fst acc') \<and>
       fst acc' < fst acc)) \<and>
   fst acc' \<le> fst acc \<and>
   (\<forall>i \<in> set is. \<forall>d n. check_physical_address c s (i * BLOCK_SIZE c) = Some d \<longrightarrow>
      check_log_block c s d = Some None \<longrightarrow>
      array_get (erase_count s) (d div BLOCK_SIZE c) = Some n \<longrightarrow> fst acc' \<le> n)"
proof (induction "is" arbitrary: acc)
  case Nil
  then show ?case by simp
next
  case (Cons i "is")
  from Cons.prems obtain acc1 where step: "min_data_step c s i acc = Some acc1"
    and rest: "for_loop is (min_data_step c s) acc1 = Some acc'"
    by (auto split: option.splits)
  note ih = Cons.IH [OF rest]
  from min_data_step_Some [OF step] obtain d r where
    d: "check_physical_address c s (i * BLOCK_SIZE c) = Some d"
    and r: "check_log_block c s d = Some r"
    and acc1: "case r of
        Some l \<Rightarrow> acc1 = acc
      | None \<Rightarrow> \<exists>n. array_get (erase_count s) (d div BLOCK_SIZE c) = Some n \<and>
          acc1 = (if n < fst acc then (n, d) else acc)"
    by blast
  show ?case
  proof (cases r)
    case (Some l)
    with acc1 have "acc1 = acc" by simp
    with ih d r Some show ?thesis
      by auto
  next
    case None
    with acc1 obtain n where n: "array_get (erase_count s) (d div BLOCK_SIZE c) = Some n"
      and a1: "acc1 = (if n < fst acc then (n, d) else acc)"
      by auto
    show ?thesis
    proof (cases "n < fst acc")
      case True
      with a1 have a1': "acc1 = (n, d)" by simp
      from ih show ?thesis
        unfolding a1' using d r None n True
        by (auto simp: order.strict_trans)
    next
      case False
      with a1 have "acc1 = acc" by simp
      with ih d r None n False show ?thesis
        by (auto simp: not_less intro: order_trans)
    qed
  qed
qed

lemma cancel_log_block_Some:
  "cancel_log_block c da s = Some s' \<Longrightarrow>
   da div BLOCK_SIZE c < length (data_to_log s) \<and>
   (\<exists>r. check_log_block c s da = Some r \<and>
      s' = s\<lparr>log_to_pages := (case r of Some la \<Rightarrow> (log_to_pages s)(la := None) | None \<Rightarrow> log_to_pages s),
             data_to_log := (data_to_log s)[da div BLOCK_SIZE c := 0]\<rparr>)"
  by (auto simp: cancel_log_block_def set_log_block_def array_set_def Let_def
      split: Option.bind_splits option.splits if_splits)

lemma check_physical_address_cong:
  "logical_to_physical s' = logical_to_physical s \<Longrightarrow>
   check_physical_address c s' = check_physical_address c s"
  by (rule ext) (simp add: check_physical_address_def)

text \<open>
  Claim C4, as amended. In every successful run of \<open>shuffle_data_log\<close>, after the clean
  of the selected data/log pair and the unmapping of its log block, the procedure turns
  to the least-erased data block that has no log block (\<open>min_erase_data\<close>, not the data
  block of the cleaned pair) and to the logical block mapped to it: it copies every
  written page of that logical block from \<open>min_erase_data\<close> to the same page of the old log
  block by READ/WRITE pairs, erases \<open>min_erase_data\<close>, redirects the logical block to the old
  log block, and pushes \<open>min_erase_data\<close> onto the free pool. The erase counts, the bitmap,
  the data-to-log table and the manifests are as the clean and the unmapping left them.
\<close>

theorem shuffle_data_log_moves_least_erased_data_block:
  assumes "shuffle_data_log c s = Some (True, s')"
  shows "\<exists>max_count max_erase_log max_erase_data logical_block min_count min_erase_data s1 s2 logical_block2.
    for_loop [0..<NUM_OF_PHY_B c] (max_pair_step c s) (0, RAW_SIZE c, RAW_SIZE c)
      = Some (max_count, max_erase_log, max_erase_data) \<and>
    clean c logical_block max_erase_data max_erase_log s = Some (True, s1) \<and>
    cancel_log_block c max_erase_data s1 = Some s2 \<and>
    check_physical_address c s logical_block2 = Some min_erase_data \<and>
    check_log_block c s min_erase_data = Some None \<and>
    array_get (erase_count s) (min_erase_data div BLOCK_SIZE c) = Some min_count \<and>
    (\<forall>i < NUM_OF_LGC_B c. \<forall>d n. check_physical_address c s (i * BLOCK_SIZE c) = Some d \<longrightarrow>
       check_log_block c s d = Some None \<longrightarrow>
       array_get (erase_count s) (d div BLOCK_SIZE c) = Some n \<longrightarrow> min_count \<le> n) \<and>
    controller_issued s' = controller_issued s2 @
      copy_events c logical_block2 min_erase_data max_erase_log (start_time s2)
        (written_pages s2 logical_block2 (BLOCK_SIZE c)) @
      [erase_event c logical_block2 min_erase_data (start_time s2)] \<and>
    check_physical_address c s' logical_block2 =
      Some (block_address c (logical_block2 mod BLOCK_SIZE c) (int (max_erase_log div BLOCK_SIZE c))) \<and>
    (\<forall>i < length (logical_to_physical s). i \<noteq> logical_block2 div BLOCK_SIZE c \<longrightarrow>
       logical_to_physical s' ! i = logical_to_physical s ! i) \<and>
    op_blocks s' = op_blocks s2 @ [min_erase_data] \<and>
    erase_count s' = erase_count s2 \<and>
    logical_to_emptiness s' = logical_to_emptiness s \<and>
    data_to_log s' = data_to_log s2 \<and>
    log_to_pages s' = log_to_pages s2"
proof -
  from shuffle_Some_True [OF assms]
  obtain max_count max_erase_log max_erase_data logical_block min_count min_erase_data
      s1 s2 logical_block2 where
    pair: "for_loop [0..<NUM_OF_PHY_B c] (max_pair_step c s) (0, RAW_SIZE c, RAW_SIZE c)
      = Some (max_count, max_erase_log, max_erase_data)"
    and minl: "for_loop [0..<NUM_OF_LGC_B c] (min_data_step c s) (BLOCK_ERASES c + 1, RAW_SIZE c)
      = Some (min_count, min_erase_data)"
    and min_found: "min_erase_data \<noteq> RAW_SIZE c"
    and cl: "clean c logical_block max_erase_data max_erase_log s = Some (True, s1)"
    and cn: "cancel_log_block c max_erase_data s1 = Some s2"
    and fl: "find_logical_block c s2 min_erase_data [0..<NUM_OF_LGC_B c] = Some logical_block2"
    and lb2: "logical_block2 \<noteq> RAW_SIZE c"
    and idx: "logical_block2 div BLOCK_SIZE c < length (logical_to_physical s2)"
    and s': "s' = s2\<lparr>controller_issued := controller_issued s2 @
              copy_events c logical_block2 min_erase_data max_erase_log (start_time s2)
                (written_pages s2 logical_block2 (BLOCK_SIZE c)) @
              [erase_event c logical_block2 min_erase_data (start_time s2)],
            logical_to_physical := (logical_to_physical s2)
              [logical_block2 div BLOCK_SIZE c :=
                 int (max_erase_log div BLOCK_SIZE c) - int (logical_block2 div BLOCK_SIZE c)],
            op_blocks := op_blocks s2 @ [min_erase_data]\<rparr>"
    by blast
  from clean_Some_True [OF cl] have s1: "logical_to_physical s1 = logical_to_physical s"
    "logical_to_emptiness s1 = logical_to_emptiness s"
    by auto
  from cancel_log_block_Some [OF cn] have s2: "logical_to_physical s2 = logical_to_physical s1"
    "logical_to_emptiness s2 = logical_to_emptiness s1"
    by auto
  have l2p: "logical_to_physical s2 = logical_to_physical s"
    and bm: "logical_to_emptiness s2 = logical_to_emptiness s"
    by (simp_all add: s1 s2)
  from find_logical_block_Some [OF fl] lb2
  have "check_physical_address c s2 logical_block2 = Some min_erase_data"
    by auto
  then have data: "check_physical_address c s logical_block2 = Some min_erase_data"
    by (simp add: check_physical_address_cong [OF l2p])
  from min_data_loop [OF minl] min_found
  have nolog: "check_log_block c s min_erase_data = Some None"
    and cnt: "array_get (erase_count s) (min_erase_data div BLOCK_SIZE c) = Some min_count"
    and least: "\<forall>i < NUM_OF_LGC_B c. \<forall>d n. check_physical_address c s (i * BLOCK_SIZE c) = Some d \<longrightarrow>
       check_log_block c s d = Some None \<longrightarrow>
       array_get (erase_count s) (d div BLOCK_SIZE c) = Some n \<longrightarrow> min_count \<le> n"
    by auto
  have redirected: "check_physical_address c s' logical_block2 =
      Some (block_address c (logical_block2 mod BLOCK_SIZE c) (int (max_erase_log div BLOCK_SIZE c)))"
    using idx by (simp add: s' check_physical_address_eq)
  have others: "\<forall>i < length (logical_to_physical s). i \<noteq> logical_block2 div BLOCK_SIZE c \<longrightarrow>
       logical_to_physical s' ! i = logical_to_physical s ! i"
    by (simp add: s' l2p)
  have fields: "controller_issued s' = controller_issued s2 @
      copy_events c logical_block2 min_erase_data max_erase_log (start_time s2)
        (written_pages s2 logical_block2 (BLOCK_SIZE c)) @
      [erase_event c logical_block2 min_erase_data (start_time s2)]"
    "op_blocks s' = op_blocks s2 @ [min_erase_data]"
    "erase_count s' = erase_count s2"
    "logical_to_emptiness s' = logical_to_emptiness s"
    "data_to_log s' = data_to_log s2"
    "log_to_pages s' = log_to_pages s2"
    by (simp_all add: s' bm)
  from pair cl cn data nolog cnt least redirected others fields show ?thesis
    by blast
qed


lemma shuffle_ready_eq:
  "shuffle_ready =
     \<lparr>logical_to_emptiness = [1, 1, 0], erase_count = [0, 0, 0, 0],
      logical_to_physical = [0, 0, 0], data_to_log = [3, 0, 0, 0],
      log_to_pages = [12 \<mapsto> ''0,''], start_time = 0, op_blocks = [], controller_issued = []\<rparr>"
  by (simp add: shuffle_ready_def scenario_fresh_eq)

lemma fetch_0: "fetch_log_page ''0,'' 0 = Some (Some 0)"
  by (simp add: fetch_log_page_def str_rfind_def str_find_def to_string_digit digit_char_def)

lemma shuffle_ready_fields:
  "logical_to_emptiness shuffle_ready = [1, 1, 0]" "erase_count shuffle_ready = [0, 0, 0, 0]"
  "logical_to_physical shuffle_ready = [0, 0, 0]" "data_to_log shuffle_ready = [3, 0, 0, 0]"
  "log_to_pages shuffle_ready = [12 \<mapsto> ''0,'']" "start_time shuffle_ready = 0"
  "op_blocks shuffle_ready = []" "controller_issued shuffle_ready = []"
  by (simp_all add: shuffle_ready_eq)

lemmas run_defs =
  clean_def clean_copy_out_def copy_page_def find_empty_data_block_for_cleaning_def
  find_empty_data_block_for_remapping_def find_empty_step_def shuffle_data_log_def
  max_pair_step_def min_data_step_def next_unmapped_log_block_def remap_data_block_def
  remap_data_copy_def remap_log_block_def remap_log_copy_def translate_def translate_write_def
  translate_read_def translate_clean_def next_free_log_page_def ulong_sub_def

lemma shuffle_ready_run:
  "shuffle_data_log scenario_geometry shuffle_ready = Some (True, shuffle_done)"
  by (simp add: run_defs eval_defs scenario_sizes shuffle_ready_fields fetch_0)
     (simp add: shuffle_ready_eq shuffle_done_def eval_defs)


text \<open>
  Claim C4 as stated fails. In the state \<open>shuffle_ready\<close> the selected pair is data block 0
  with log block 3. After its clean (seven events) the code copies the written page of
  logical block 1 from block 1, the least-erased data block without a log block, into
  block 3, erases block 1, redirects logical block 1 to block 3 and pushes block 1
  (address 4): the data block 0 of the cleaned pair is neither the source of the copy,
  nor erased again, nor pushed, and logical block 0 keeps its mapping.
\<close>

theorem shuffle_data_log_old_data_block_counterexample:
  "shuffle_data_log scenario_geometry shuffle_ready = Some (True, shuffle_done) \<and>
   for_loop [0..<NUM_OF_PHY_B scenario_geometry] (max_pair_step scenario_geometry shuffle_ready)
     (0, RAW_SIZE scenario_geometry, RAW_SIZE scenario_geometry) = Some (0, 12, 0) \<and>
   drop 7 (controller_issued shuffle_done) =
     [Event READ 4 1 0 (Address 0 0 0 1 0 PAGE), Event WRITE 4 1 0 (Address 0 0 0 3 0 PAGE),
      Event ERASE 4 1 0 (Address 0 0 0 1 0 BLOCK)] \<and>
   op_blocks shuffle_done = [4] \<and> 0 \<notin> set (op_blocks shuffle_done) \<and>
   logical_to_physical shuffle_ready = [0, 0, 0] \<and>
   logical_to_physical shuffle_done = [0, 2, 0]"
  by (simp add: shuffle_ready_run)
     (simp add: shuffle_done_def max_pair_step_def eval_defs scenario_sizes shuffle_ready_fields)

text \<open>The amended theorem in the same state.\<close>

theorem shuffle_data_log_moves_least_erased_data_block_witness:
  "shuffle_data_log scenario_geometry shuffle_ready = Some (True, shuffle_done) \<and>
   check_physical_address scenario_geometry shuffle_ready 4 = Some 4 \<and>
   check_log_block scenario_geometry shuffle_ready 4 = Some None \<and>
   check_physical_address scenario_geometry shuffle_done 4 = Some 12 \<and>
   op_blocks shuffle_done = [4]"
  using shuffle_data_log_moves_least_erased_data_block [OF shuffle_ready_run]
  by (simp add: shuffle_ready_run)
     (simp add: shuffle_done_def eval_defs scenario_sizes shuffle_ready_fields)

subsection \<open>The free pool\<close>

lemma pop_log_block_top:
  assumes "op_blocks s \<noteq> []"
    and "last (op_blocks s) div BLOCK_SIZE c < length (erase_count s)"
  shows "pop_log_block c 0 s =
    (if erase_count s ! (last (op_blocks s) div BLOCK_SIZE c) < BLOCK_ERASES c
     then Some (Some (last (op_blocks s)), s\<lparr>op_blocks := butlast (op_blocks s)\<rparr>)
     else pop_log_block c 1 (s\<lparr>op_blocks := butlast (op_blocks s)\<rparr>))"
proof -
  have "op_blocks s ! (length (op_blocks s) - 1 - 0) = last (op_blocks s)"
    using assms(1) by (simp add: last_conv_nth)
  then show ?thesis
    using assms by (subst pop_log_block.simps)
      (simp add: Let_def over_erase_limit_def array_get_def not_le del: pop_log_block.simps)
qed

lemma pop_log_block_single:
  assumes "op_blocks s = [b]" and "b div BLOCK_SIZE c < length (erase_count s)"
  shows "pop_log_block c 0 s =
    Some (if erase_count s ! (b div BLOCK_SIZE c) < BLOCK_ERASES c then Some b else None,
          s\<lparr>op_blocks := []\<rparr>)"
proof -
  have "pop_log_block c 1 (s\<lparr>op_blocks := []\<rparr>) = Some (None, s\<lparr>op_blocks := []\<rparr>)"
    by (subst pop_log_block.simps) simp
  then show ?thesis
    using pop_log_block_top [of s c] assms by simp
qed




subsection \<open>The manifest of a mapped log block\<close>

lemma unaligned_logged_eq:
  "unaligned_written =
     \<lparr>logical_to_emptiness = [1, 0, 0, 0], erase_count = [0, 0, 0, 0],
      logical_to_physical = [0, 0, 0], data_to_log = [0, 0, 0, 0],
      log_to_pages = Map.empty, start_time = 1, op_blocks = [14], controller_issued = []\<rparr>"
  "unaligned_logged =
     \<lparr>logical_to_emptiness = [1, 0, 0, 0], erase_count = [0, 0, 0, 0],
      logical_to_physical = [0, 0, 0], data_to_log = [3, 0, 0, 0],
      log_to_pages = [14 \<mapsto> ''0,''], start_time = 2, op_blocks = [], controller_issued = []\<rparr>"
  by (simp_all add: unaligned_logged_def unaligned_written_def unaligned_init)

lemma unaligned_first_write:
  "translate unaligned_geometry (write_event 0 1) (init_ftl_user unaligned_geometry) =
     Some (SUCCESS, (write_event 0 1)\<lparr>ev_address := Address 0 0 0 0 0 PAGE\<rparr>, unaligned_written)"
  by (simp add: translate_def translate_write_def write_event_def unaligned_sizes unaligned_init
      eval_defs)
    (simp add: unaligned_logged_eq Event_def Address_def)

lemma unaligned_second_write:
  "translate unaligned_geometry (write_event 0 2) unaligned_written =
     Some (SUCCESS, (write_event 0 2)\<lparr>ev_address := Address 0 0 0 3 0 PAGE\<rparr>, unaligned_logged)"
  by (simp add: translate_def translate_write_def next_unmapped_log_block_def write_event_def
      unaligned_sizes unaligned_logged_eq eval_defs to_string_digit digit_char_def)

text \<open>
  Claim C9 does not hold of the code. With 12.5 percent over-provisioning on the scenario
  device \<^verbatim>\<open>USABLE_SIZE\<close> is 14, and \<^verbatim>\<open>init_ftl_user\<close> fills the free pool from
  \<^verbatim>\<open>i = USABLE_SIZE\<close> in steps of \<^verbatim>\<open>BLOCK_SIZE\<close>: the pool holds the address 14, which is
  not the base address of a block. The second \<^verbatim>\<open>WRITE 0\<close> takes this address as the log
  block of data block 0: \<^verbatim>\<open>set_log_block\<close> stores the block offset
  \<open>14 / 4 - 0 = 3\<close>, and the manifest is stored under the key 14. From then on
  \<^verbatim>\<open>check_log_block\<close> yields the base address \<open>3 * 4 = 12\<close> of the log block, under which
  \<^verbatim>\<open>log_to_pages\<close> has no entry: the offset of data block 0 is not zero while the manifest
  of its log block is missing, and the next \<^verbatim>\<open>WRITE 0\<close> or \<^verbatim>\<open>READ 0\<close> dereferences
  \<^verbatim>\<open>log_to_pages.find(12)\<close>, the end iterator.
\<close>

theorem manifest_lookup_misses_unaligned_log_block:
  "USABLE_SIZE unaligned_geometry = 14 \<and>
   op_blocks (init_ftl_user unaligned_geometry) = [14] \<and>
   translate unaligned_geometry (write_event 0 1) (init_ftl_user unaligned_geometry) =
     Some (SUCCESS, (write_event 0 1)\<lparr>ev_address := Address 0 0 0 0 0 PAGE\<rparr>, unaligned_written) \<and>
   translate unaligned_geometry (write_event 0 2) unaligned_written =
     Some (SUCCESS, (write_event 0 2)\<lparr>ev_address := Address 0 0 0 3 0 PAGE\<rparr>, unaligned_logged) \<and>
   data_to_log unaligned_logged ! 0 = 3 \<and>
   check_log_block unaligned_geometry unaligned_logged 0 = Some (Some 12) \<and>
   log_to_pages unaligned_logged 12 = None \<and>
   log_to_pages unaligned_logged 14 = Some ''0,'' \<and>
   translate unaligned_geometry (write_event 0 3) unaligned_logged = None \<and>
   translate unaligned_geometry (read_event 0 3) unaligned_logged = None"
  by (simp add: unaligned_first_write unaligned_second_write)
    (simp add: translate_def translate_write_def translate_read_def write_event_def read_event_def
      unaligned_sizes unaligned_init unaligned_logged_eq eval_defs)


subsection \<open>The geometry\<close>

lemma logical_blocks_le:
  assumes "0 \<le> OVERPROVISIONING c"
  shows "NUM_OF_LGC_B c \<le> NUM_OF_PHY_B c"
proof -
  have "USABLE_SIZE c \<le> of_nat (RAW_SIZE c)"
    using assms by (simp add: USABLE_SIZE_def OP_SIZE_def)
  then have "USABLE_SIZE c / of_nat (BLOCK_SIZE c) \<le> of_nat (RAW_SIZE c) / of_nat (BLOCK_SIZE c)"
    by (rule divide_right_mono) simp
  then have "\<lfloor>USABLE_SIZE c / of_nat (BLOCK_SIZE c)\<rfloor> \<le> \<lfloor>(of_nat (RAW_SIZE c) :: rat) / of_nat (BLOCK_SIZE c)\<rfloor>"
    by (rule floor_mono)
  also have "\<dots> = int (RAW_SIZE c div BLOCK_SIZE c)"
    by (simp only: floor_divide_of_nat_eq)
  finally show ?thesis
    by (simp add: NUM_OF_LGC_B_def NUM_OF_PHY_B_def to_unsigned_def)
qed

lemma valid_config_facts:
  assumes "valid_config c"
  shows "0 < BLOCK_SIZE c" and "NUM_OF_PHY_B c * BLOCK_SIZE c = RAW_SIZE c"
    and "NUM_OF_LGC_B c \<le> NUM_OF_PHY_B c" and "RAW_SIZE c < 2 ^ 32"
    and "0 \<le> OVERPROVISIONING c"
    and "0 < BLOCK_ERASES c" and "BLOCK_ERASES c < - 1"
    and "NUM_OF_PHY_B c = SSD_SIZE c * PACKAGE_SIZE c * DIE_SIZE c * PLANE_SIZE c"
    and "0 < SSD_SIZE c" "0 < PACKAGE_SIZE c" "0 < DIE_SIZE c" "0 < PLANE_SIZE c"
  using assms logical_blocks_le [of c]
  by (auto simp add: valid_config_def NUM_OF_PHY_B_def RAW_SIZE_def)

lemma block_address_eq:
  assumes "valid_config c" and "pg < BLOCK_SIZE c" and "0 \<le> n" and "nat n < NUM_OF_PHY_B c"
  shows "block_address c pg n = pg + nat n * BLOCK_SIZE c"
proof -
  have "pg + nat n * BLOCK_SIZE c < Suc (nat n) * BLOCK_SIZE c"
    using assms(2) by simp
  also have "\<dots> \<le> NUM_OF_PHY_B c * BLOCK_SIZE c"
    using assms(4) by (intro mult_le_mono1) simp
  also have "\<dots> < 2 ^ 32"
    using valid_config_facts [OF assms(1)] by simp
  finally have small: "pg + nat n * BLOCK_SIZE c < 2 ^ 32" .
  have "nat n < 2 ^ 32"
  proof -
    have "nat n \<le> nat n * BLOCK_SIZE c"
      using valid_config_facts(1) [OF assms(1)] by (cases "BLOCK_SIZE c") simp_all
    with small show ?thesis by linarith
  qed
  then have "n mod 2 ^ 64 = n"
    using assms(3) by (intro mod_pos_pos_trivial) auto
  moreover have "(pg + nat n * BLOCK_SIZE c) mod 2 ^ 64 = pg + nat n * BLOCK_SIZE c"
    using small by (intro mod_less) simp
  ultimately show ?thesis
    by (simp add: block_address_def ulong_def)
qed

lemma physical_block_address:
  assumes "valid_config c" and "pba div BLOCK_SIZE c < NUM_OF_PHY_B c"
  shows "physical_block c (page_address c pba i) = pba div BLOCK_SIZE c"
    and "physical_block c (whole_block_address c pba) = pba div BLOCK_SIZE c"
proof -
  let ?n = "pba div BLOCK_SIZE c"
  let ?S = "SSD_SIZE c" and ?P = "PACKAGE_SIZE c" and ?D = "DIE_SIZE c" and ?L = "PLANE_SIZE c"
  have n: "?n < ?S * ?P * ?D * ?L"
    using assms valid_config_facts(8) [OF assms(1)] by simp
  have "?n div ?L div ?D div ?P < ?S"
    using n by (simp add: less_mult_imp_div_less mult.commute mult.assoc)
  then have top: "(?n div ?L div ?D div ?P) mod ?S = ?n div ?L div ?D div ?P"
    by simp
  have "((?n div ?L div ?D div ?P * ?P + ?n div ?L div ?D mod ?P) * ?D + ?n div ?L mod ?D) * ?L
      + ?n mod ?L = ?n"
    by (simp add: div_mult_mod_eq)
  with top show "physical_block c (page_address c pba i) = ?n"
    and "physical_block c (whole_block_address c pba) = ?n"
    by (simp_all add: physical_block_def page_address_def whole_block_address_def
        map_physical_to_SSD_def Address_def)
qed

subsection \<open>The primitives in a state that satisfies the invariant\<close>

lemma unat_inc: "(n :: 32 word) < cap \<Longrightarrow> unat (n + 1) = Suc (unat n)"
proof -
  assume "n < cap"
  then have "unat n < unat cap"
    by (simp add: word_less_nat_alt)
  moreover have "unat cap < 2 ^ 32"
    using unsigned_less [of cap] by simp
  ultimately have "(unat n + 1) mod 2 ^ 32 = unat n + 1"
    by (intro mod_less) simp
  then show ?thesis
    by (simp add: unat_word_ariths)
qed

lemma word_inc_facts:
  assumes "(n :: 32 word) < cap"
  shows "n + 1 \<le> cap" and "n \<le> n + 1" and "n < n + 1"
  using assms unat_inc [OF assms] by (simp_all add: word_less_nat_alt word_le_nat_alt)

lemma word_below_pred:
  assumes "0 < (cap :: 32 word)" and "\<not> cap - 1 \<le> n"
  shows "n + 1 < cap" and "n < cap"
proof -
  have "unat (cap - 1) = unat cap - 1"
    using assms(1) by (simp add: unat_minus_one word_neq_0_conv)
  with assms have less: "unat n < unat cap - 1"
    by (simp add: word_le_nat_alt)
  then show "n < cap"
    by (simp add: word_less_nat_alt)
  then have "unat (n + 1) = Suc (unat n)"
    by (rule unat_inc)
  with less show "n + 1 < cap"
    by (simp add: word_less_nat_alt)
qed

lemma ftl_invariantD:
  assumes "ftl_invariant c s"
  shows "tables_allocated c s" "inv_data c s" "inv_log c s" "inv_pool c s"
    "inv_manifests c s" "inv_counts c s"
  using assms by (simp_all add: ftl_invariant_def)

lemma tables_allocatedD:
  assumes "tables_allocated c s"
  shows "length (logical_to_emptiness s) = emp_len c" "length (erase_count s) = NUM_OF_PHY_B c"
    "length (logical_to_physical s) = NUM_OF_LGC_B c" "length (data_to_log s) = NUM_OF_PHY_B c"
  using assms by (simp_all add: tables_allocated_def)

lemma inv_dataD:
  assumes "inv_data c s" and "i < NUM_OF_LGC_B c"
  shows "0 \<le> int i + logical_to_physical s ! i" and "data_block s i < NUM_OF_PHY_B c"
    and "j < NUM_OF_LGC_B c \<Longrightarrow> data_block s i = data_block s j \<Longrightarrow> i = j"
  using assms by (auto simp: inv_data_def)

lemma inv_logD:
  assumes "inv_log c s" and "d < NUM_OF_PHY_B c" and "data_to_log s ! d \<noteq> 0"
  shows "0 \<le> int d + data_to_log s ! d" and "log_block s d < NUM_OF_PHY_B c"
    and "\<exists>i < NUM_OF_LGC_B c. data_block s i = d \<and> logical_block_written c s i"
    and "i < NUM_OF_LGC_B c \<Longrightarrow> data_block s i \<noteq> log_block s d"
    and "log_to_pages s (log_block s d * BLOCK_SIZE c) \<noteq> None"
    and "d' < NUM_OF_PHY_B c \<Longrightarrow> data_to_log s ! d' \<noteq> 0 \<Longrightarrow> log_block s d = log_block s d' \<Longrightarrow> d = d'"
  using assms unfolding inv_log_def by blast+

lemma page_split:
  assumes "0 < B" and "j < B"
  shows "(i * B + j) div B = i" and "(i * B + j) mod B = (j::nat)"
  using assms by simp_all

lemma logical_page_bound:
  assumes "i < NUM_OF_LGC_B c" and "j < BLOCK_SIZE c"
  shows "i * BLOCK_SIZE c + j < NUM_OF_LGC_B c * BLOCK_SIZE c"
proof -
  have "i * BLOCK_SIZE c + j < Suc i * BLOCK_SIZE c"
    using assms(2) by simp
  also have "\<dots> \<le> NUM_OF_LGC_B c * BLOCK_SIZE c"
    using assms(1) by (intro mult_le_mono1) simp
  finally show ?thesis .
qed

lemma check_page_empty_defined:
  assumes "valid_config c" and "tables_allocated c s" and "L < NUM_OF_LGC_B c * BLOCK_SIZE c"
  shows "check_page_empty s L =
    Some (\<not> bit (logical_to_emptiness s ! (L div sizeof_unsigned_int)) (L mod sizeof_unsigned_int))"
proof -
  have "L div sizeof_unsigned_int < emp_len c"
    using valid_config_facts(1) [OF assms(1)] assms(3) by (rule word_in_bitmap)
  then show ?thesis
    using assms(2) by (simp add: check_page_empty_eq tables_allocated_def)
qed

lemma data_address:
  assumes "valid_config c" and "tables_allocated c s" and "inv_data c s"
    and "i < NUM_OF_LGC_B c" and "j < BLOCK_SIZE c"
  shows "check_physical_address c s (i * BLOCK_SIZE c + j) = Some (j + data_block s i * BLOCK_SIZE c)"
proof -
  have B: "0 < BLOCK_SIZE c"
    using assms(1) by (rule valid_config_facts)
  have "block_address c j (int i + logical_to_physical s ! i) = j + data_block s i * BLOCK_SIZE c"
    unfolding data_block_def using assms(1,5) inv_dataD(1,2) [OF assms(3,4)]
    by (intro block_address_eq) (simp_all add: data_block_def)
  then show ?thesis
    using assms(2,4,5) B by (simp add: check_physical_address_eq tables_allocated_def)
qed

lemma data_address_0:
  assumes "valid_config c" and "tables_allocated c s" and "inv_data c s" and "i < NUM_OF_LGC_B c"
  shows "check_physical_address c s (i * BLOCK_SIZE c) = Some (data_block s i * BLOCK_SIZE c)"
  using data_address [OF assms, of 0] valid_config_facts(1) [OF assms(1)] by simp

lemma log_address:
  assumes "valid_config c" and "tables_allocated c s" and "inv_log c s" and "d < NUM_OF_PHY_B c"
  shows "check_log_block c s (d * BLOCK_SIZE c) =
    Some (if data_to_log s ! d = 0 then None else Some (log_block s d * BLOCK_SIZE c))"
proof -
  have B: "0 < BLOCK_SIZE c"
    using assms(1) by (rule valid_config_facts)
  have "block_address c 0 (int d + data_to_log s ! d) = log_block s d * BLOCK_SIZE c"
    if "data_to_log s ! d \<noteq> 0"
    unfolding log_block_def using assms(1) B inv_logD(1,2) [OF assms(3,4) that]
    by (subst block_address_eq) (simp_all add: log_block_def)
  then show ?thesis
    using assms(2,4) B by (simp add: check_log_block_def array_get_def tables_allocated_def Let_def)
qed

lemma non_empty_loop:
  "\<forall>j \<in> set js. check_page_empty s (base + j) \<noteq> None \<Longrightarrow>
   non_empty s base js = Some (\<exists>j \<in> set js. check_page_empty s (base + j) = Some False)"
  by (induction js) (auto split: Option.bind_splits)

lemma non_empty_block:
  assumes "valid_config c" and "tables_allocated c s" and "i < NUM_OF_LGC_B c"
  shows "non_empty s (i * BLOCK_SIZE c) [0..<BLOCK_SIZE c] = Some (logical_block_written c s i)"
proof -
  have "\<forall>j \<in> set [0..<BLOCK_SIZE c]. check_page_empty s (i * BLOCK_SIZE c + j) \<noteq> None"
    using assms by (simp add: check_page_empty_defined logical_page_bound)
  then have "non_empty s (i * BLOCK_SIZE c) [0..<BLOCK_SIZE c] =
      Some (\<exists>j \<in> set [0..<BLOCK_SIZE c]. check_page_empty s (i * BLOCK_SIZE c + j) = Some False)"
    by (rule non_empty_loop)
  then show ?thesis
    by (simp add: logical_block_written_def Bex_def)
qed

text \<open>A logical block is eligible as empty data block when none of its pages is written
  and its data block is below the erase limit.\<close>

lemma find_empty_step_eq:
  assumes "valid_config c" and "tables_allocated c s" and "inv_data c s" and "i < NUM_OF_LGC_B c"
  shows "find_empty_step c s i acc =
    Some (if \<not> logical_block_written c s i \<and> erase_count s ! data_block s i < fst acc \<and>
             erase_count s ! data_block s i < BLOCK_ERASES c
          then (erase_count s ! data_block s i, Some (data_block s i * BLOCK_SIZE c, i * BLOCK_SIZE c))
          else acc)"
proof -
  have B: "0 < BLOCK_SIZE c"
    using assms(1) by (rule valid_config_facts)
  have "data_block s i < length (erase_count s)"
    using inv_dataD(2) [OF assms(3,4)] assms(2) by (simp add: tables_allocated_def)
  then show ?thesis
    using B by (simp add: find_empty_step_def data_address_0 [OF assms] non_empty_block [OF assms(1,2,4)]
        array_get_def)
qed

lemma find_empty_loop:
  assumes "valid_config c" and "tables_allocated c s" and "inv_data c s"
    and "\<forall>i \<in> set is. i < NUM_OF_LGC_B c"
    and "empty_candidate c s acc"
  shows "\<exists>acc'. for_loop is (find_empty_step c s) acc = Some acc' \<and> empty_candidate c s acc' \<and>
    (snd acc' = None \<longrightarrow> snd acc = None \<and>
        (\<forall>i \<in> set is. logical_block_written c s i \<or> BLOCK_ERASES c \<le> erase_count s ! data_block s i))"
  using assms(4,5)
proof (induction "is" arbitrary: acc)
  case Nil
  then show ?case by simp
next
  case (Cons i "is")
  have i: "i < NUM_OF_LGC_B c"
    using Cons.prems(1) by simp
  have cap: "BLOCK_ERASES c < BLOCK_ERASES c + 1"
    using valid_config_facts(7) [OF assms(1)] by (rule word_inc_facts)
  define n where "n = erase_count s ! data_block s i"
  define better where "better \<longleftrightarrow> \<not> logical_block_written c s i \<and> n < fst acc \<and> n < BLOCK_ERASES c"
  define acc1 where "acc1 = (if better then (n, Some (data_block s i * BLOCK_SIZE c, i * BLOCK_SIZE c)) else acc)"
  have step: "find_empty_step c s i acc = Some acc1"
    unfolding acc1_def better_def n_def using assms(1-3) i by (rule find_empty_step_eq)
  have ok1: "empty_candidate c s acc1"
  proof (cases better)
    case True
    then have "acc1 = (n, Some (data_block s i * BLOCK_SIZE c, i * BLOCK_SIZE c))"
      by (simp add: acc1_def)
    moreover have "empty_candidate c s (n, Some (data_block s i * BLOCK_SIZE c, i * BLOCK_SIZE c))"
      unfolding empty_candidate_def using True i by (auto simp: better_def n_def)
    ultimately show ?thesis by simp
  next
    case False
    then have "acc1 = acc"
      by (simp add: acc1_def)
    with Cons.prems(2) show ?thesis by simp
  qed
  from Cons.prems(1) have "\<forall>i \<in> set is. i < NUM_OF_LGC_B c"
    by simp
  from Cons.IH [OF this ok1] obtain acc' where
    loop: "for_loop is (find_empty_step c s) acc1 = Some acc'"
    and cand: "empty_candidate c s acc'"
    and none: "snd acc' = None \<longrightarrow> snd acc1 = None \<and>
        (\<forall>i \<in> set is. logical_block_written c s i \<or> BLOCK_ERASES c \<le> erase_count s ! data_block s i)"
    by (elim exE conjE) (rule that)
  have run: "for_loop (i # is) (find_empty_step c s) acc = Some acc'"
    using step loop by simp
  have "snd acc = None \<and> (logical_block_written c s i \<or> BLOCK_ERASES c \<le> n)"
    if "snd acc1 = None"
  proof -
    from that have nb: "\<not> better" and sn: "snd acc = None"
      by (auto simp: acc1_def split: if_splits)
    from sn Cons.prems(2) have "fst acc = BLOCK_ERASES c + 1"
      unfolding empty_candidate_def by auto
    with nb cap have "logical_block_written c s i \<or> \<not> n < BLOCK_ERASES c"
      unfolding better_def by (auto dest: order.strict_trans)
    with sn show ?thesis
      by (simp add: not_less)
  qed
  with none have "snd acc' = None \<longrightarrow> snd acc = None \<and>
      (\<forall>i \<in> set (i # is). logical_block_written c s i \<or> BLOCK_ERASES c \<le> erase_count s ! data_block s i)"
    by (simp add: n_def)
  with run cand show ?case
    by (intro exI conjI)
qed

lemma find_empty_spec:
  assumes "valid_config c" and "tables_allocated c s" and "inv_data c s"
  shows "\<exists>r. find_empty_data_block_for_remapping c s = Some r \<and>
    find_empty_data_block_for_cleaning c s = Some (map_option fst r) \<and>
    (case r of
       None \<Rightarrow> \<forall>i < NUM_OF_LGC_B c. logical_block_written c s i \<or>
                  BLOCK_ERASES c \<le> erase_count s ! data_block s i
     | Some (d, lb) \<Rightarrow> \<exists>i < NUM_OF_LGC_B c. d = data_block s i * BLOCK_SIZE c \<and> lb = i * BLOCK_SIZE c \<and>
                  \<not> logical_block_written c s i \<and> erase_count s ! data_block s i < BLOCK_ERASES c)"
proof -
  have start: "empty_candidate c s (BLOCK_ERASES c + 1, None)"
    by (simp add: empty_candidate_def)
  have "\<forall>i \<in> set [0..<NUM_OF_LGC_B c]. i < NUM_OF_LGC_B c"
    by simp
  from find_empty_loop [OF assms this start] obtain acc' where
    loop: "for_loop [0..<NUM_OF_LGC_B c] (find_empty_step c s) (BLOCK_ERASES c + 1, None) = Some acc'"
    and cand: "empty_candidate c s acc'"
    and none: "snd acc' = None \<longrightarrow>
        (\<forall>i \<in> set [0..<NUM_OF_LGC_B c]. logical_block_written c s i \<or>
            BLOCK_ERASES c \<le> erase_count s ! data_block s i)"
    by (elim exE conjE) simp
  obtain mc found where acc': "acc' = (mc, found)"
    by (cases acc')
  have cap: "BLOCK_ERASES c < BLOCK_ERASES c + 1"
    using valid_config_facts(7) [OF assms(1)] by (rule word_inc_facts)
  define r where "r = (if mc \<noteq> BLOCK_ERASES c + 1 then found else None)"
  have rem: "find_empty_data_block_for_remapping c s = Some r"
    by (simp add: find_empty_data_block_for_remapping_def loop acc' r_def)
  have cln: "find_empty_data_block_for_cleaning c s = Some (map_option fst r)"
    by (simp add: find_empty_data_block_for_cleaning_def loop acc' r_def)
  have "case r of
       None \<Rightarrow> \<forall>i < NUM_OF_LGC_B c. logical_block_written c s i \<or>
                  BLOCK_ERASES c \<le> erase_count s ! data_block s i
     | Some (d, lb) \<Rightarrow> \<exists>i < NUM_OF_LGC_B c. d = data_block s i * BLOCK_SIZE c \<and> lb = i * BLOCK_SIZE c \<and>
                  \<not> logical_block_written c s i \<and> erase_count s ! data_block s i < BLOCK_ERASES c"
  proof (cases found)
    case None
    then have "r = None"
      by (simp add: r_def)
    with none None acc' show ?thesis
      by simp
  next
    case (Some a)
    with cand acc' obtain i where i: "i < NUM_OF_LGC_B c"
      and a: "a = (data_block s i * BLOCK_SIZE c, i * BLOCK_SIZE c)"
      and e: "\<not> logical_block_written c s i" and n: "erase_count s ! data_block s i = mc"
      and lt: "mc < BLOCK_ERASES c"
      unfolding empty_candidate_def by auto
    from lt cap have "mc \<noteq> BLOCK_ERASES c + 1"
      by auto
    with Some have "r = Some a"
      by (simp add: r_def)
    with a i e n lt show ?thesis
      by auto
  qed
  with rem cln show ?thesis
    by (intro exI conjI)
qed

lemma for_loop_defined:
  assumes "P a" and "\<And>i a. i \<in> set is \<Longrightarrow> P a \<Longrightarrow> \<exists>a'. body i a = Some a' \<and> P a'"
  shows "\<exists>a'. for_loop is body a = Some a' \<and> P a'"
  using assms
proof (induction "is" arbitrary: a)
  case Nil
  then show ?case by simp
next
  case (Cons i "is")
  from Cons.prems(2) [of i a] Cons.prems(1) obtain a1 where "body i a = Some a1" "P a1"
    by auto
  moreover from Cons.IH [OF \<open>P a1\<close>] Cons.prems(2) obtain a' where "for_loop is body a1 = Some a'" "P a'"
    by auto
  ultimately show ?case
    by simp
qed

lemma manifest_fetch_defined:
  assumes "valid_config c" and "inv_manifests c s" and "log_to_pages s k = Some str"
  shows "\<exists>m. str = manifest_string m \<and> length m \<le> BLOCK_SIZE c \<and>
    fetch_log_page str d = Some (last_occurrence d m)"
proof -
  from assms(2,3) obtain m where m: "str = manifest_string m" "length m \<le> BLOCK_SIZE c"
    unfolding inv_manifests_def by blast
  have "BLOCK_SIZE c \<le> RAW_SIZE c"
    using valid_config_facts(1-3,9-12) [OF assms(1)] by (simp add: RAW_SIZE_def)
  with m(2) valid_config_facts(4) [OF assms(1)] have "length m \<le> 2 ^ 32"
    by simp
  then have "fetch_log_page (manifest_string m) d = Some (last_occurrence d m)"
    by (rule fetch_log_page_manifest)
  with m show ?thesis by blast
qed

lemma triple_increment:
  fixes cnt :: "32 word list"
  assumes "a < length cnt" "b < length cnt" "c' < length cnt" and "a \<noteq> b" "a \<noteq> c'" "b \<noteq> c'"
  shows "(let e1 = cnt[a := cnt ! a + 1]; e2 = e1[b := e1 ! b + 1] in e2[c' := e2 ! c' + 1]) =
    cnt[a := cnt ! a + 1, b := cnt ! b + 1, c' := cnt ! c' + 1]"
  using assms by (simp add: Let_def)

lemma targets_below_append:
  "targets_below c cnt (es @ es') \<longleftrightarrow> targets_below c cnt es \<and> targets_below c cnt es'"
  by (auto simp: targets_below_def)

lemma targets_below_Nil [simp]: "targets_below c cnt []"
  by (simp add: targets_below_def)

lemma targets_below_copy_events:
  assumes "valid_config c" and "des div BLOCK_SIZE c < NUM_OF_PHY_B c"
    and "cnt ! (des div BLOCK_SIZE c) < BLOCK_ERASES c"
  shows "targets_below c cnt (copy_events c lb src des t pages)"
    and "targets_below c cnt (copy_out_events c lb D L des offsets t pages)"
  using assms
  by (auto simp: targets_below_def copy_events_def copy_out_events_def Event_def physical_block_address)

lemma targets_below_erase_event:
  assumes "valid_config c" and "pba div BLOCK_SIZE c < NUM_OF_PHY_B c"
    and "cnt ! (pba div BLOCK_SIZE c) < BLOCK_ERASES c"
  shows "targets_below c cnt [erase_event c lb pba t]"
  using assms by (simp add: targets_below_def erase_event_def Event_def physical_block_address)

subsection \<open>Cleaning preserves the invariant\<close>

lemma issue_fields [simp]:
  "logical_to_emptiness (issue e s) = logical_to_emptiness s"
  "erase_count (issue e s) = erase_count s"
  "logical_to_physical (issue e s) = logical_to_physical s"
  "data_to_log (issue e s) = data_to_log s"
  "log_to_pages (issue e s) = log_to_pages s"
  "start_time (issue e s) = start_time s"
  "op_blocks (issue e s) = op_blocks s"
  "controller_issued (issue e s) = controller_issued s @ [e]"
  by (simp_all add: issue_def)

lemma check_page_empty_cong:
  "logical_to_emptiness s' = logical_to_emptiness s \<Longrightarrow> check_page_empty s' L = check_page_empty s L"
  by (simp add: check_page_empty_def)

lemma clean_copy_out_step:
  assumes "check_page_empty a (lb + j) = Some e" and "fetch_log_page str j = Some r"
  shows "\<exists>a'. clean_copy_out c lb D L cln (Some str) j a = Some a' \<and>
      logical_to_emptiness a' = logical_to_emptiness a"
proof (cases e)
  case True
  then show ?thesis
    using assms by (simp add: clean_copy_out_def)
next
  case False
  then show ?thesis
    using assms by (simp add: clean_copy_out_def deref_def Let_def)
qed

lemma copy_page_step:
  assumes "check_page_empty a (lb + j) = Some e"
  shows "\<exists>a'. copy_page c lb src des j a = Some a' \<and>
      logical_to_emptiness a' = logical_to_emptiness a"
proof (cases e)
  case True
  then show ?thesis
    using assms by (simp add: copy_page_def)
next
  case False
  then show ?thesis
    using assms by (simp add: copy_page_def Let_def)
qed

lemma page_defined_in_loop:
  assumes "valid_config c" and "tables_allocated c s" and "i < NUM_OF_LGC_B c"
    and "j \<in> set [0..<BLOCK_SIZE c]" and "logical_to_emptiness a = logical_to_emptiness s"
  shows "\<exists>e. check_page_empty a (i * BLOCK_SIZE c + j) = Some e"
proof -
  from assms(4) have "j < BLOCK_SIZE c"
    by simp
  with assms(3) have "i * BLOCK_SIZE c + j < NUM_OF_LGC_B c * BLOCK_SIZE c"
    by (rule logical_page_bound)
  from check_page_empty_defined [OF assms(1,2) this]
  have "\<exists>e. check_page_empty s (i * BLOCK_SIZE c + j) = Some e" ..
  then show ?thesis
    by (simp only: check_page_empty_cong [OF assms(5)])
qed

lemma clean_copy_out_defined:
  assumes "valid_config c" and "tables_allocated c s" and "inv_manifests c s"
    and "i < NUM_OF_LGC_B c" and "log_to_pages s k = Some str"
  shows "\<exists>s'. for_loop [0..<BLOCK_SIZE c] (clean_copy_out c (i * BLOCK_SIZE c) D L cln (Some str)) s = Some s' \<and>
    logical_to_emptiness s' = logical_to_emptiness s"
proof (rule for_loop_defined [where P = "\<lambda>a. logical_to_emptiness a = logical_to_emptiness s"])
  show "logical_to_emptiness s = logical_to_emptiness s" by simp
next
  fix j and a :: ftl
  assume j: "j \<in> set [0..<BLOCK_SIZE c]" and a: "logical_to_emptiness a = logical_to_emptiness s"
  from page_defined_in_loop [OF assms(1,2,4) j a]
  obtain e where e: "check_page_empty a (i * BLOCK_SIZE c + j) = Some e" ..
  from manifest_fetch_defined [OF assms(1,3,5), where d = j]
  obtain r where r: "fetch_log_page str j = Some r"
    by (elim exE conjE) (rule that)
  from clean_copy_out_step [OF e r, of c D L cln]
  show "\<exists>a'. clean_copy_out c (i * BLOCK_SIZE c) D L cln (Some str) j a = Some a' \<and>
      logical_to_emptiness a' = logical_to_emptiness s"
    by (simp only: a)
qed

lemma copy_page_defined:
  assumes "valid_config c" and "tables_allocated c s" and "i < NUM_OF_LGC_B c"
    and "logical_to_emptiness s0 = logical_to_emptiness s"
  shows "\<exists>s'. for_loop [0..<BLOCK_SIZE c] (copy_page c (i * BLOCK_SIZE c) src des) s0 = Some s' \<and>
    logical_to_emptiness s' = logical_to_emptiness s"
proof (rule for_loop_defined [where P = "\<lambda>a. logical_to_emptiness a = logical_to_emptiness s"])
  show "logical_to_emptiness s0 = logical_to_emptiness s" by (rule assms(4))
next
  fix j and a :: ftl
  assume j: "j \<in> set [0..<BLOCK_SIZE c]" and a: "logical_to_emptiness a = logical_to_emptiness s"
  from page_defined_in_loop [OF assms(1,2,3) j a]
  obtain e where e: "check_page_empty a (i * BLOCK_SIZE c + j) = Some e" ..
  from copy_page_step [OF e, of c src des]
  show "\<exists>a'. copy_page c (i * BLOCK_SIZE c) src des j a = Some a' \<and>
      logical_to_emptiness a' = logical_to_emptiness s"
    by (simp only: a)
qed

lemma update_erase_count_defined:
  "pa div BLOCK_SIZE c < length (erase_count s) \<Longrightarrow>
   update_erase_count c pa s = Some (s\<lparr>erase_count := (erase_count s)
          [pa div BLOCK_SIZE c := erase_count s ! (pa div BLOCK_SIZE c) + 1]\<rparr>)"
  by (simp add: update_erase_count_def array_get_def array_set_def)

lemma clean_total:
  assumes "valid_config c" and "tables_allocated c s" and "inv_data c s" and "inv_manifests c s"
    and "i < NUM_OF_LGC_B c" and "D < NUM_OF_PHY_B c" and "L < NUM_OF_PHY_B c"
    and "log_to_pages s (L * BLOCK_SIZE c) \<noteq> None"
  shows "\<exists>ok s'. clean c (i * BLOCK_SIZE c) (D * BLOCK_SIZE c) (L * BLOCK_SIZE c) s = Some (ok, s') \<and>
    (\<not> ok \<longrightarrow> s' = s \<and> find_empty_data_block_for_cleaning c s = Some None)"
proof -
  have B: "0 < BLOCK_SIZE c"
    using assms(1) by (rule valid_config_facts)
  from find_empty_spec [OF assms(1-3)] obtain r :: "(nat \<times> nat) option" where
    cl: "find_empty_data_block_for_cleaning c s = Some (map_option fst r)"
    and r: "case r of
       None \<Rightarrow> \<forall>i < NUM_OF_LGC_B c. logical_block_written c s i \<or>
                  BLOCK_ERASES c \<le> erase_count s ! data_block s i
     | Some (d, lb) \<Rightarrow> \<exists>i < NUM_OF_LGC_B c. d = data_block s i * BLOCK_SIZE c \<and> lb = i * BLOCK_SIZE c \<and>
                  \<not> logical_block_written c s i \<and> erase_count s ! data_block s i < BLOCK_ERASES c"
    by (elim exE conjE) (rule that)
  show ?thesis
  proof (cases r)
    case None
    with cl have "clean c (i * BLOCK_SIZE c) (D * BLOCK_SIZE c) (L * BLOCK_SIZE c) s = Some (False, s)"
      and "find_empty_data_block_for_cleaning c s = Some None"
      by (simp_all add: clean_def)
    then show ?thesis
      by (intro exI [of _ False] exI [of _ s]) simp
  next
    case (Some a)
    obtain d lb where dlb: "a = (d, lb)"
      by (cases a)
    from r obtain e where e: "e < NUM_OF_LGC_B c" and d: "d = data_block s e * BLOCK_SIZE c"
      unfolding Some dlb by (simp only: option.case prod.case) (elim exE conjE, rule that)
    have a: "fst a = data_block s e * BLOCK_SIZE c"
      by (simp add: dlb d)
    define cln where "cln = data_block s e * BLOCK_SIZE c"
    have cl': "find_empty_data_block_for_cleaning c s = Some (Some cln)"
      using cl Some a by (simp add: cln_def)
    have len: "length (erase_count s) = NUM_OF_PHY_B c"
      using assms(2) by (simp add: tables_allocated_def)
    have clnb: "cln div BLOCK_SIZE c < NUM_OF_PHY_B c"
      using inv_dataD(2) [OF assms(3) e] B by (simp add: cln_def)
    from assms(8) obtain str where str: "log_to_pages s (L * BLOCK_SIZE c) = Some str"
      by auto
    from clean_copy_out_defined [OF assms(1,2,4,5) str, where D = "D * BLOCK_SIZE c"
        and L = "L * BLOCK_SIZE c" and cln = cln] obtain s1 where
      l1: "for_loop [0..<BLOCK_SIZE c]
          (clean_copy_out c (i * BLOCK_SIZE c) (D * BLOCK_SIZE c) (L * BLOCK_SIZE c) cln (Some str)) s = Some s1"
      and b1: "logical_to_emptiness s1 = logical_to_emptiness s"
      by (elim exE conjE) (rule that)
    from clean_copy_out_loop [OF l1] have e1: "erase_count s1 = erase_count s"
      by simp
    let ?s2 = "issue (Event ERASE (i * BLOCK_SIZE c) 1 (start_time s1)
          (whole_block_address c (D * BLOCK_SIZE c))) s1"
    let ?s3 = "issue (Event ERASE (i * BLOCK_SIZE c) 1 (start_time s1)
          (whole_block_address c (L * BLOCK_SIZE c))) ?s2"
    have b3: "logical_to_emptiness ?s3 = logical_to_emptiness s"
      by (simp add: b1)
    from copy_page_defined [OF assms(1,2,5) b3, where src = cln and des = "D * BLOCK_SIZE c"] obtain s4 where
      l2: "for_loop [0..<BLOCK_SIZE c] (copy_page c (i * BLOCK_SIZE c) cln (D * BLOCK_SIZE c)) ?s3 = Some s4"
      by (elim exE conjE) (rule that)
    from copy_page_loop [OF l2] have e4: "erase_count s4 = erase_count s"
      by (simp add: e1)
    let ?s5 = "issue (Event ERASE (i * BLOCK_SIZE c) 1 (start_time s4)
          (whole_block_address c cln)) s4"
    have e5: "length (erase_count ?s5) = NUM_OF_PHY_B c"
      by (simp add: e4 len)
    have d5: "D * BLOCK_SIZE c div BLOCK_SIZE c < length (erase_count ?s5)"
      using assms(6) B by (simp add: e4 len)
    note u1 = update_erase_count_defined [OF d5]
    define s6 where "s6 = ?s5\<lparr>erase_count := (erase_count ?s5)
          [D * BLOCK_SIZE c div BLOCK_SIZE c := erase_count ?s5 ! (D * BLOCK_SIZE c div BLOCK_SIZE c) + 1]\<rparr>"
    have e6: "length (erase_count s6) = NUM_OF_PHY_B c"
      by (simp add: s6_def e4 len)
    have d6: "L * BLOCK_SIZE c div BLOCK_SIZE c < length (erase_count s6)"
      using assms(7) B by (simp add: e6)
    note u2 = update_erase_count_defined [OF d6]
    define s7 where "s7 = s6\<lparr>erase_count := (erase_count s6)
          [L * BLOCK_SIZE c div BLOCK_SIZE c := erase_count s6 ! (L * BLOCK_SIZE c div BLOCK_SIZE c) + 1]\<rparr>"
    have e7: "length (erase_count s7) = NUM_OF_PHY_B c"
      by (simp add: s7_def e6)
    have d7: "cln div BLOCK_SIZE c < length (erase_count s7)"
      using clnb by (simp add: e7)
    note u3 = update_erase_count_defined [OF d7]
    define s8 where "s8 = s7\<lparr>erase_count := (erase_count s7)
          [cln div BLOCK_SIZE c := erase_count s7 ! (cln div BLOCK_SIZE c) + 1]\<rparr>"
    have "clean c (i * BLOCK_SIZE c) (D * BLOCK_SIZE c) (L * BLOCK_SIZE c) s = Some (True, s8)"
      unfolding clean_def Let_def cl' str bind.bind_lunit option.case issue_fields l1 l2
        u1 [folded s6_def] u2 [folded s7_def] u3 [folded s8_def] ..
    then show ?thesis
      by (intro exI [of _ True] exI [of _ s8]) simp
  qed
qed

subsection \<open>Counting erases preserves the invariant\<close>

lemma worn_le:
  assumes "worn c s cnt" and "b < length (erase_count s)"
  shows "erase_count s ! b \<le> cnt ! b"
proof -
  from assms have "cnt ! b = erase_count s ! b \<or>
      (erase_count s ! b < BLOCK_ERASES c \<and> cnt ! b = erase_count s ! b + 1)"
    by (auto simp: worn_def)
  then show ?thesis
    using word_inc_facts(2) [of "erase_count s ! b" "BLOCK_ERASES c"] by auto
qed

lemma worn_cap:
  assumes "worn c s cnt" and "b < length (erase_count s)" and "erase_count s ! b \<le> BLOCK_ERASES c"
  shows "cnt ! b \<le> BLOCK_ERASES c"
proof -
  from assms have "cnt ! b = erase_count s ! b \<or>
      (erase_count s ! b < BLOCK_ERASES c \<and> cnt ! b = erase_count s ! b + 1)"
    by (auto simp: worn_def)
  then show ?thesis
    using word_inc_facts(1) [of "erase_count s ! b" "BLOCK_ERASES c"] assms(3) by auto
qed

lemma worn_same:
  assumes "worn c s cnt" and "b < length (erase_count s)" and "\<not> wearable c s b"
  shows "cnt ! b = erase_count s ! b"
  using assms by (auto simp: worn_def)

lemma worn_below:
  assumes "worn c s cnt" and "b < length (erase_count s)" and "erase_count s ! b + 1 < cap"
    and "erase_count s ! b < BLOCK_ERASES c"
  shows "cnt ! b < cap"
proof -
  from assms(1,2) have "cnt ! b = erase_count s ! b \<or> cnt ! b = erase_count s ! b + 1"
    by (auto simp: worn_def)
  moreover have "erase_count s ! b < erase_count s ! b + 1"
    using assms(4) by (rule word_inc_facts)
  ultimately show ?thesis
    using assms(3) by auto
qed

lemma free_block_not_wearable:
  assumes "inv_log c s" and "free_block c s p"
  shows "\<not> wearable c s (p div BLOCK_SIZE c)"
proof
  assume "wearable c s (p div BLOCK_SIZE c)"
  then consider i where "i < NUM_OF_LGC_B c" "data_block s i = p div BLOCK_SIZE c"
    | d where "d < NUM_OF_PHY_B c" "data_to_log s ! d \<noteq> 0" "p div BLOCK_SIZE c = d"
    | d where "d < NUM_OF_PHY_B c" "data_to_log s ! d \<noteq> 0" "p div BLOCK_SIZE c = log_block s d"
    unfolding wearable_def by (elim disjE exE conjE) auto
  then show False
  proof cases
    case 1
    with assms(2) show False
      by (simp add: free_block_def)
  next
    case 2
    from inv_logD(3) [OF assms(1) 2(1,2)] obtain i where "i < NUM_OF_LGC_B c" "data_block s i = d"
      by (elim exE conjE) (rule that)
    with assms(2) 2(3) show False
      by (simp add: free_block_def)
  next
    case 3
    with assms(2) show False
      by (auto simp: free_block_def)
  qed
qed

lemma logical_block_written_cong:
  "logical_to_emptiness s' = logical_to_emptiness s \<Longrightarrow>
   logical_block_written c s' = logical_block_written c s"
  by (simp add: logical_block_written_def check_page_empty_def fun_eq_iff)

lemma data_block_cong:
  "logical_to_physical s' = logical_to_physical s \<Longrightarrow> data_block s' = data_block s"
  by (simp add: data_block_def fun_eq_iff)

lemma log_block_cong:
  "data_to_log s' = data_to_log s \<Longrightarrow> log_block s' = log_block s"
  by (simp add: log_block_def fun_eq_iff)

lemma inv_data_cong:
  "logical_to_physical s' = logical_to_physical s \<Longrightarrow> inv_data c s' = inv_data c s"
  by (simp add: inv_data_def data_block_def)

lemma inv_log_cong:
  assumes "logical_to_physical s' = logical_to_physical s" and "data_to_log s' = data_to_log s"
    and "logical_to_emptiness s' = logical_to_emptiness s" and "log_to_pages s' = log_to_pages s"
  shows "inv_log c s' = inv_log c s"
  unfolding inv_log_def data_block_cong [OF assms(1)] log_block_cong [OF assms(2)]
    logical_block_written_cong [OF assms(3)] assms(2,4) ..

lemma inv_manifests_cong:
  "log_to_pages s' = log_to_pages s \<Longrightarrow> inv_manifests c s' = inv_manifests c s"
  by (simp add: inv_manifests_def)

lemma tables_allocated_cong:
  assumes "length (logical_to_emptiness s') = length (logical_to_emptiness s)"
    and "length (erase_count s') = length (erase_count s)"
    and "length (logical_to_physical s') = length (logical_to_physical s)"
    and "length (data_to_log s') = length (data_to_log s)"
  shows "tables_allocated c s' = tables_allocated c s"
  by (simp add: tables_allocated_def assms)

lemma free_block_cong:
  assumes "logical_to_physical s' = logical_to_physical s" and "data_to_log s' = data_to_log s"
    and "erase_count s' ! (p div BLOCK_SIZE c) = erase_count s ! (p div BLOCK_SIZE c)"
  shows "free_block c s' p = free_block c s p"
  unfolding free_block_def data_block_cong [OF assms(1)] log_block_cong [OF assms(2)] assms(2,3) ..

lemma invariant_worn:
  assumes "ftl_invariant c s" and "worn c s cnt"
    and "logical_to_emptiness s' = logical_to_emptiness s"
    and "logical_to_physical s' = logical_to_physical s"
    and "data_to_log s' = data_to_log s"
    and "log_to_pages s' = log_to_pages s"
    and "op_blocks s' = op_blocks s"
    and "erase_count s' = cnt"
  shows "ftl_invariant c s'"
proof -
  note inv = ftl_invariantD [OF assms(1)]
  note len = tables_allocatedD [OF inv(1)]
  have cnt: "length cnt = NUM_OF_PHY_B c"
    using assms(2) len(2) by (simp add: worn_def)
  have "tables_allocated c s'"
    using inv(1) by (simp add: tables_allocated_def assms(3-5,8) cnt)
  moreover have "inv_data c s'"
    using inv(2) by (simp only: inv_data_cong [OF assms(4)])
  moreover have "inv_log c s'"
    using inv(3) by (simp only: inv_log_cong [OF assms(4,5,3,6)])
  moreover have "inv_pool c s'"
    unfolding inv_pool_def assms(7)
  proof (intro conjI ballI)
    show "distinct (op_blocks s)"
      using inv(4) by (simp add: inv_pool_def)
  next
    fix p assume p: "p \<in> set (op_blocks s)"
    with inv(4) have f: "free_block c s p"
      by (simp add: inv_pool_def)
    then have "p div BLOCK_SIZE c < length (erase_count s)"
      by (simp add: free_block_def len(2))
    from worn_same [OF assms(2) this free_block_not_wearable [OF inv(3) f]]
    have "erase_count s' ! (p div BLOCK_SIZE c) = erase_count s ! (p div BLOCK_SIZE c)"
      by (simp add: assms(8))
    from free_block_cong [OF assms(4,5) this] f show "free_block c s' p"
      by simp
  qed
  moreover have "inv_manifests c s'"
    using inv(5) by (simp only: inv_manifests_cong [OF assms(6)])
  moreover have "inv_counts c s'"
    unfolding inv_counts_def assms(8)
  proof (intro allI impI)
    fix b assume b: "b < NUM_OF_PHY_B c"
    with inv(6) have "erase_count s ! b \<le> BLOCK_ERASES c"
      by (simp add: inv_counts_def)
    with worn_cap [OF assms(2)] b len(2) show "cnt ! b \<le> BLOCK_ERASES c"
      by simp
  qed
  ultimately show ?thesis
    by (simp add: ftl_invariant_def)
qed


subsection \<open>The outcome of cleaning\<close>

lemma written_data_block:
  assumes "inv_data c s" and "inv_log c s" and "i < NUM_OF_LGC_B c"
    and "data_block s i < NUM_OF_PHY_B c" and "data_to_log s ! data_block s i \<noteq> 0"
  shows "logical_block_written c s i"
proof -
  from inv_logD(3) [OF assms(2,4,5)] obtain i' where i': "i' < NUM_OF_LGC_B c"
    "data_block s i' = data_block s i" "logical_block_written c s i'"
    by (elim exE conjE) (rule that)
  from inv_dataD(3) [OF assms(1) i'(1) assms(3) i'(2)] i'(3) show ?thesis
    by simp
qed

lemma clean_spec:
  assumes "valid_config c" and "ftl_invariant c s" and "i < NUM_OF_LGC_B c"
    and "data_to_log s ! data_block s i \<noteq> 0"
    and "erase_count s ! data_block s i < BLOCK_ERASES c"
    and "erase_count s ! log_block s (data_block s i) < BLOCK_ERASES c"
  shows "\<exists>ok s'. clean c (i * BLOCK_SIZE c) (data_block s i * BLOCK_SIZE c)
        (log_block s (data_block s i) * BLOCK_SIZE c) s = Some (ok, s') \<and>
      (if ok then \<exists>es cnt. s' = s\<lparr>controller_issued := controller_issued s @ es, erase_count := cnt\<rparr> \<and>
                     targets_below c (erase_count s) es \<and> worn c s cnt
       else s' = s)"
proof -
  note inv = ftl_invariantD [OF assms(2)]
  note len = tables_allocatedD [OF inv(1)]
  have B: "0 < BLOCK_SIZE c"
    using assms(1) by (rule valid_config_facts)
  define D where "D = data_block s i"
  define L where "L = log_block s D"
  have D: "D < NUM_OF_PHY_B c"
    unfolding D_def using inv(2) assms(3) by (rule inv_dataD)
  have dl: "data_to_log s ! D \<noteq> 0"
    using assms(4) by (simp add: D_def)
  have L: "L < NUM_OF_PHY_B c"
    unfolding L_def using inv(3) D dl by (rule inv_logD)
  have man: "log_to_pages s (L * BLOCK_SIZE c) \<noteq> None"
    unfolding L_def using inv(3) D dl by (rule inv_logD)
  have cD: "erase_count s ! D < BLOCK_ERASES c" and cL: "erase_count s ! L < BLOCK_ERASES c"
    using assms(5,6) by (simp_all add: D_def L_def)
  have wr: "logical_block_written c s i"
    using inv(2,3) assms(3) D dl unfolding D_def by (rule written_data_block)
  have DL: "D \<noteq> L"
    using inv_logD(4) [OF inv(3) D dl assms(3)] by (simp add: D_def L_def)
  from clean_total [OF assms(1) inv(1,2,5) assms(3) D L man] obtain ok s' where
    cl: "clean c (i * BLOCK_SIZE c) (D * BLOCK_SIZE c) (L * BLOCK_SIZE c) s = Some (ok, s')"
    and no: "\<not> ok \<longrightarrow> s' = s"
    by (elim exE conjE) (rule that, assumption, simp)
  have "if ok then \<exists>es cnt. s' = s\<lparr>controller_issued := controller_issued s @ es, erase_count := cnt\<rparr> \<and>
                     targets_below c (erase_count s) es \<and> worn c s cnt
       else s' = s"
  proof (cases ok)
    case False
    with no show ?thesis
      by simp
  next
    case True
    with cl have cl': "clean c (i * BLOCK_SIZE c) (D * BLOCK_SIZE c) (L * BLOCK_SIZE c) s = Some (True, s')"
      by simp
    let ?t = "start_time s"
    let ?pages = "written_pages s (i * BLOCK_SIZE c) (BLOCK_SIZE c)"
    from clean_Some_True [OF cl'] obtain cln where
      cln: "find_empty_data_block_for_cleaning c s = Some (Some cln)"
      and s': "s' = s\<lparr>controller_issued := controller_issued s @
            copy_out_events c (i * BLOCK_SIZE c) (D * BLOCK_SIZE c) (L * BLOCK_SIZE c) cln
              (the (log_to_pages s (L * BLOCK_SIZE c))) ?t ?pages @
            [erase_event c (i * BLOCK_SIZE c) (D * BLOCK_SIZE c) ?t,
             erase_event c (i * BLOCK_SIZE c) (L * BLOCK_SIZE c) ?t] @
            copy_events c (i * BLOCK_SIZE c) cln (D * BLOCK_SIZE c) ?t ?pages @
            [erase_event c (i * BLOCK_SIZE c) cln ?t],
          erase_count :=
            (let e1 = (erase_count s)[D * BLOCK_SIZE c div BLOCK_SIZE c :=
                        erase_count s ! (D * BLOCK_SIZE c div BLOCK_SIZE c) + 1];
                 e2 = e1[L * BLOCK_SIZE c div BLOCK_SIZE c := e1 ! (L * BLOCK_SIZE c div BLOCK_SIZE c) + 1]
             in e2[cln div BLOCK_SIZE c := e2 ! (cln div BLOCK_SIZE c) + 1])\<rparr>"
      by (elim exE conjE) (rule that)
    from find_empty_spec [OF assms(1) inv(1,2)] obtain r :: "(nat \<times> nat) option" where
      r1: "find_empty_data_block_for_cleaning c s = Some (map_option fst r)"
      and r2: "case r of
         None \<Rightarrow> \<forall>i < NUM_OF_LGC_B c. logical_block_written c s i \<or>
                    BLOCK_ERASES c \<le> erase_count s ! data_block s i
       | Some (d, lb) \<Rightarrow> \<exists>i < NUM_OF_LGC_B c. d = data_block s i * BLOCK_SIZE c \<and> lb = i * BLOCK_SIZE c \<and>
                    \<not> logical_block_written c s i \<and> erase_count s ! data_block s i < BLOCK_ERASES c"
      by (elim exE conjE) (rule that)
    from cln r1 obtain lb where r: "r = Some (cln, lb)"
      by (cases r) auto
    from r2 obtain e where e: "e < NUM_OF_LGC_B c" and ce: "cln = data_block s e * BLOCK_SIZE c"
      and ne: "\<not> logical_block_written c s e" and cc: "erase_count s ! data_block s e < BLOCK_ERASES c"
      unfolding r by (simp only: option.case prod.case) (elim exE conjE, rule that)
    define C where "C = data_block s e"
    have C: "C < NUM_OF_PHY_B c"
      unfolding C_def using inv(2) e by (rule inv_dataD)
    have cC: "erase_count s ! C < BLOCK_ERASES c"
      using cc by (simp add: C_def)
    have "e \<noteq> i"
      using ne wr by auto
    then have DC: "D \<noteq> C"
      using inv_dataD(3) [OF inv(2) assms(3) e] by (auto simp: D_def C_def)
    have LC: "L \<noteq> C"
      using inv_logD(4) [OF inv(3) D dl e] by (simp add: C_def L_def)
    have divs: "D * BLOCK_SIZE c div BLOCK_SIZE c = D" "L * BLOCK_SIZE c div BLOCK_SIZE c = L"
      "cln div BLOCK_SIZE c = C"
      using B by (simp_all add: ce C_def)
    define cnt where "cnt = (erase_count s)[D := erase_count s ! D + 1, L := erase_count s ! L + 1,
        C := erase_count s ! C + 1]"
    have cnt: "(let e1 = (erase_count s)[D := erase_count s ! D + 1];
                 e2 = e1[L := e1 ! L + 1]
             in e2[C := e2 ! C + 1]) = cnt"
      unfolding cnt_def using D L C DL DC LC by (intro triple_increment) (simp_all add: len)
    define es where "es = copy_out_events c (i * BLOCK_SIZE c) (D * BLOCK_SIZE c) (L * BLOCK_SIZE c) cln
              (the (log_to_pages s (L * BLOCK_SIZE c))) ?t ?pages @
            [erase_event c (i * BLOCK_SIZE c) (D * BLOCK_SIZE c) ?t,
             erase_event c (i * BLOCK_SIZE c) (L * BLOCK_SIZE c) ?t] @
            copy_events c (i * BLOCK_SIZE c) cln (D * BLOCK_SIZE c) ?t ?pages @
            [erase_event c (i * BLOCK_SIZE c) cln ?t]"
    have s'': "s' = s\<lparr>controller_issued := controller_issued s @ es, erase_count := cnt\<rparr>"
      using s' unfolding divs cnt es_def [symmetric] .
    have tD: "D * BLOCK_SIZE c div BLOCK_SIZE c < NUM_OF_PHY_B c"
      "erase_count s ! (D * BLOCK_SIZE c div BLOCK_SIZE c) < BLOCK_ERASES c"
      and tL: "L * BLOCK_SIZE c div BLOCK_SIZE c < NUM_OF_PHY_B c"
      "erase_count s ! (L * BLOCK_SIZE c div BLOCK_SIZE c) < BLOCK_ERASES c"
      and tC: "cln div BLOCK_SIZE c < NUM_OF_PHY_B c"
      "erase_count s ! (cln div BLOCK_SIZE c) < BLOCK_ERASES c"
      unfolding divs using D L C cD cL cC by simp_all
    have tb: "targets_below c (erase_count s) es"
      unfolding es_def targets_below_append
      using targets_below_copy_events(2) [OF assms(1) tC] targets_below_copy_events(1) [OF assms(1) tD]
        targets_below_erase_event [OF assms(1) tD] targets_below_erase_event [OF assms(1) tL]
        targets_below_erase_event [OF assms(1) tC]
      by (simp add: targets_below_append [of c "erase_count s" "[x]" "[y]" for x y, simplified])
    have wD: "wearable c s D" and wL: "wearable c s L"
      unfolding wearable_def using D dl cD cL L_def by auto
    have wC: "wearable c s C"
      unfolding wearable_def using e ne C_def by auto
    have "worn c s cnt"
      unfolding worn_def
    proof (intro conjI allI impI)
      show "length cnt = length (erase_count s)"
        by (simp add: cnt_def)
    next
      fix b assume "b < length cnt"
      then have b: "b < length (erase_count s)"
        by (simp add: cnt_def)
      consider "b = C" | "b = L" "b \<noteq> C" | "b = D" "b \<noteq> L" "b \<noteq> C" | "b \<noteq> D" "b \<noteq> L" "b \<noteq> C"
        by auto
      then show "cnt ! b = erase_count s ! b \<or>
          wearable c s b \<and> erase_count s ! b < BLOCK_ERASES c \<and> cnt ! b = erase_count s ! b + 1"
      proof cases
        case 1
        then show ?thesis
          using wC cC b by (simp add: cnt_def)
      next
        case 2
        then show ?thesis
          using wL cL b by (simp add: cnt_def)
      next
        case 3
        then show ?thesis
          using wD cD b by (simp add: cnt_def)
      next
        case 4
        then show ?thesis
          by (simp add: cnt_def)
      qed
    qed
    with s'' tb True show ?thesis
      by auto
  qed
  with cl show ?thesis
    unfolding D_def L_def by (intro exI conjI)
qed

subsection \<open>The searches of the wear balancing\<close>

lemma block_div [simp]: "0 < BLOCK_SIZE c \<Longrightarrow> d * BLOCK_SIZE c div BLOCK_SIZE c = d"
  by simp

lemma block_below_raw:
  assumes "valid_config c" and "d < NUM_OF_PHY_B c"
  shows "d * BLOCK_SIZE c < RAW_SIZE c"
proof -
  have "d * BLOCK_SIZE c < NUM_OF_PHY_B c * BLOCK_SIZE c"
    using assms(2) valid_config_facts(1) [OF assms(1)] by simp
  then show ?thesis
    by (simp only: valid_config_facts(2) [OF assms(1)])
qed

lemma max_pair_step_eq:
  assumes "valid_config c" and "tables_allocated c s" and "inv_log c s" and "d < NUM_OF_PHY_B c"
  shows "max_pair_step c s d acc =
    Some (if data_to_log s ! d \<noteq> 0 \<and> erase_count s ! log_block s d \<noteq> BLOCK_ERASES c \<and>
             erase_count s ! d \<noteq> BLOCK_ERASES c \<and>
             fst acc \<le> erase_count s ! log_block s d + erase_count s ! d
          then (erase_count s ! log_block s d + erase_count s ! d,
                log_block s d * BLOCK_SIZE c, d * BLOCK_SIZE c)
          else acc)"
proof (cases "data_to_log s ! d = 0")
  case True
  then show ?thesis
    by (simp add: max_pair_step_def log_address [OF assms])
next
  case False
  have B: "0 < BLOCK_SIZE c"
    using assms(1) by (rule valid_config_facts)
  note len = tables_allocatedD [OF assms(2)]
  have "log_block s d < NUM_OF_PHY_B c"
    using assms(3,4) False by (rule inv_logD)
  then show ?thesis
    using False assms(4) B
    by (simp add: max_pair_step_def log_address [OF assms] array_get_def len)
qed

lemma max_pair_loop:
  assumes "valid_config c" and "tables_allocated c s" and "inv_log c s"
  shows "\<exists>acc. for_loop [0..<NUM_OF_PHY_B c] (max_pair_step c s) (0, RAW_SIZE c, RAW_SIZE c) = Some acc \<and>
    (snd acc = (RAW_SIZE c, RAW_SIZE c) \<or>
     (\<exists>d < NUM_OF_PHY_B c. data_to_log s ! d \<noteq> 0 \<and> erase_count s ! log_block s d \<noteq> BLOCK_ERASES c \<and>
        erase_count s ! d \<noteq> BLOCK_ERASES c \<and>
        snd acc = (log_block s d * BLOCK_SIZE c, d * BLOCK_SIZE c)))"
proof (rule for_loop_defined)
  show "snd (0 :: 32 word, RAW_SIZE c, RAW_SIZE c) = (RAW_SIZE c, RAW_SIZE c) \<or>
     (\<exists>d < NUM_OF_PHY_B c. data_to_log s ! d \<noteq> 0 \<and> erase_count s ! log_block s d \<noteq> BLOCK_ERASES c \<and>
        erase_count s ! d \<noteq> BLOCK_ERASES c \<and>
        snd (0 :: 32 word, RAW_SIZE c, RAW_SIZE c) = (log_block s d * BLOCK_SIZE c, d * BLOCK_SIZE c))"
    by simp
next
  fix d and acc :: "32 word \<times> nat \<times> nat"
  assume d: "d \<in> set [0..<NUM_OF_PHY_B c]"
    and acc: "snd acc = (RAW_SIZE c, RAW_SIZE c) \<or>
     (\<exists>d < NUM_OF_PHY_B c. data_to_log s ! d \<noteq> 0 \<and> erase_count s ! log_block s d \<noteq> BLOCK_ERASES c \<and>
        erase_count s ! d \<noteq> BLOCK_ERASES c \<and>
        snd acc = (log_block s d * BLOCK_SIZE c, d * BLOCK_SIZE c))"
  from d have d': "d < NUM_OF_PHY_B c"
    by simp
  define acc' where "acc' = (if data_to_log s ! d \<noteq> 0 \<and> erase_count s ! log_block s d \<noteq> BLOCK_ERASES c \<and>
             erase_count s ! d \<noteq> BLOCK_ERASES c \<and>
             fst acc \<le> erase_count s ! log_block s d + erase_count s ! d
          then (erase_count s ! log_block s d + erase_count s ! d,
                log_block s d * BLOCK_SIZE c, d * BLOCK_SIZE c)
          else acc)"
  have step: "max_pair_step c s d acc = Some acc'"
    unfolding acc'_def by (rule max_pair_step_eq [OF assms d'])
  have "snd acc' = (RAW_SIZE c, RAW_SIZE c) \<or>
     (\<exists>d < NUM_OF_PHY_B c. data_to_log s ! d \<noteq> 0 \<and> erase_count s ! log_block s d \<noteq> BLOCK_ERASES c \<and>
        erase_count s ! d \<noteq> BLOCK_ERASES c \<and>
        snd acc' = (log_block s d * BLOCK_SIZE c, d * BLOCK_SIZE c))"
  proof (cases "acc' = acc")
    case True
    with acc show ?thesis
      by simp
  next
    case False
    then have "data_to_log s ! d \<noteq> 0 \<and> erase_count s ! log_block s d \<noteq> BLOCK_ERASES c \<and>
        erase_count s ! d \<noteq> BLOCK_ERASES c \<and>
        snd acc' = (log_block s d * BLOCK_SIZE c, d * BLOCK_SIZE c)"
      unfolding acc'_def by (simp split: if_splits)
    with d' show ?thesis
      by (intro disjI2 exI [of _ d]) simp
  qed
  with step show "\<exists>a'. max_pair_step c s d acc = Some a' \<and>
     (snd a' = (RAW_SIZE c, RAW_SIZE c) \<or>
     (\<exists>d < NUM_OF_PHY_B c. data_to_log s ! d \<noteq> 0 \<and> erase_count s ! log_block s d \<noteq> BLOCK_ERASES c \<and>
        erase_count s ! d \<noteq> BLOCK_ERASES c \<and>
        snd a' = (log_block s d * BLOCK_SIZE c, d * BLOCK_SIZE c)))"
    by (intro exI [of _ acc'] conjI)
qed

lemma find_logical_block_found:
  assumes "valid_config c" and "tables_allocated c s" and "inv_data c s"
    and "\<forall>k \<in> set is. k < NUM_OF_LGC_B c" and "i \<in> set is"
  shows "find_logical_block c s (data_block s i * BLOCK_SIZE c) is = Some (i * BLOCK_SIZE c)"
  using assms(4,5)
proof (induction "is")
  case Nil
  then show ?case by simp
next
  case (Cons k ks)
  have B: "0 < BLOCK_SIZE c"
    using assms(1) by (rule valid_config_facts)
  from Cons.prems have k: "k < NUM_OF_LGC_B c" and i: "i < NUM_OF_LGC_B c"
    by auto
  note a = data_address_0 [OF assms(1-3) k]
  show ?case
  proof (cases "k = i")
    case True
    then show ?thesis
      using a by simp
  next
    case False
    then have "data_block s k \<noteq> data_block s i"
      using inv_dataD(3) [OF assms(3) k i] by auto
    then have "data_block s k * BLOCK_SIZE c \<noteq> data_block s i * BLOCK_SIZE c"
      using B by simp
    moreover from False Cons.prems have "i \<in> set ks" and "\<forall>k \<in> set ks. k < NUM_OF_LGC_B c"
      by auto
    ultimately show ?thesis
      using a Cons.IH by simp
  qed
qed

lemma min_data_step_eq:
  assumes "valid_config c" and "tables_allocated c s" and "inv_data c s" and "inv_log c s"
    and "i < NUM_OF_LGC_B c"
  shows "min_data_step c s i acc =
    Some (if data_to_log s ! data_block s i = 0 \<and> erase_count s ! data_block s i < fst acc
          then (erase_count s ! data_block s i, data_block s i * BLOCK_SIZE c) else acc)"
proof -
  have B: "0 < BLOCK_SIZE c"
    using assms(1) by (rule valid_config_facts)
  note len = tables_allocatedD [OF assms(2)]
  have d: "data_block s i < NUM_OF_PHY_B c"
    using assms(3,5) by (rule inv_dataD)
  show ?thesis
    using d B
    by (simp add: min_data_step_def data_address_0 [OF assms(1-3,5)]
        log_address [OF assms(1,2,4) d] array_get_def len)
qed

lemma min_data_loop_spec:
  assumes "valid_config c" and "tables_allocated c s" and "inv_data c s" and "inv_log c s"
  shows "\<exists>acc. for_loop [0..<NUM_OF_LGC_B c] (min_data_step c s) (BLOCK_ERASES c + 1, RAW_SIZE c) = Some acc \<and>
    (snd acc = RAW_SIZE c \<or>
     (\<exists>i < NUM_OF_LGC_B c. data_to_log s ! data_block s i = 0 \<and>
        acc = (erase_count s ! data_block s i, data_block s i * BLOCK_SIZE c)))"
proof (rule for_loop_defined)
  show "snd (BLOCK_ERASES c + 1, RAW_SIZE c) = RAW_SIZE c \<or>
     (\<exists>i < NUM_OF_LGC_B c. data_to_log s ! data_block s i = 0 \<and>
        (BLOCK_ERASES c + 1, RAW_SIZE c) = (erase_count s ! data_block s i, data_block s i * BLOCK_SIZE c))"
    by simp
next
  fix i and acc :: "32 word \<times> nat"
  assume i: "i \<in> set [0..<NUM_OF_LGC_B c]"
    and acc: "snd acc = RAW_SIZE c \<or>
     (\<exists>i < NUM_OF_LGC_B c. data_to_log s ! data_block s i = 0 \<and>
        acc = (erase_count s ! data_block s i, data_block s i * BLOCK_SIZE c))"
  from i have i': "i < NUM_OF_LGC_B c"
    by simp
  define acc' where "acc' = (if data_to_log s ! data_block s i = 0 \<and> erase_count s ! data_block s i < fst acc
          then (erase_count s ! data_block s i, data_block s i * BLOCK_SIZE c) else acc)"
  have step: "min_data_step c s i acc = Some acc'"
    unfolding acc'_def by (rule min_data_step_eq [OF assms i'])
  have "snd acc' = RAW_SIZE c \<or>
     (\<exists>i < NUM_OF_LGC_B c. data_to_log s ! data_block s i = 0 \<and>
        acc' = (erase_count s ! data_block s i, data_block s i * BLOCK_SIZE c))"
  proof (cases "acc' = acc")
    case True
    with acc show ?thesis
      by simp
  next
    case False
    then have "data_to_log s ! data_block s i = 0 \<and>
        acc' = (erase_count s ! data_block s i, data_block s i * BLOCK_SIZE c)"
      unfolding acc'_def by (simp split: if_splits)
    with i' show ?thesis
      by (intro disjI2 exI [of _ i]) simp
  qed
  with step show "\<exists>a'. min_data_step c s i acc = Some a' \<and>
     (snd a' = RAW_SIZE c \<or>
     (\<exists>i < NUM_OF_LGC_B c. data_to_log s ! data_block s i = 0 \<and>
        a' = (erase_count s ! data_block s i, data_block s i * BLOCK_SIZE c)))"
    by (intro exI [of _ acc'] conjI)
qed

subsection \<open>Wear balancing preserves the invariant\<close>

lemma shuffled_fields [simp]:
  "logical_to_emptiness (shuffled c s D lbm es cnt) = logical_to_emptiness s"
  "erase_count (shuffled c s D lbm es cnt) = cnt"
  "logical_to_physical (shuffled c s D lbm es cnt) =
     (logical_to_physical s)[lbm := int (log_block s D) - int lbm]"
  "data_to_log (shuffled c s D lbm es cnt) = (data_to_log s)[D := 0]"
  "log_to_pages (shuffled c s D lbm es cnt) = (log_to_pages s)(log_block s D * BLOCK_SIZE c := None)"
  "start_time (shuffled c s D lbm es cnt) = start_time s"
  "op_blocks (shuffled c s D lbm es cnt) = op_blocks s @ [data_block s lbm * BLOCK_SIZE c]"
  "controller_issued (shuffled c s D lbm es cnt) = controller_issued s @ es"
  by (simp_all add: shuffled_def)

lemma data_block_update:
  assumes "k < length (logical_to_physical s)"
    and "logical_to_physical s' = (logical_to_physical s)[k := int P - int k]"
  shows "data_block s' i = (if i = k then P else data_block s i)"
    and "0 \<le> int k + logical_to_physical s' ! k"
  using assms by (simp_all add: data_block_def)

lemma log_block_update:
  assumes "d < length (data_to_log s)"
    and "data_to_log s' = (data_to_log s)[d := int P - int d]"
  shows "log_block s' x = (if x = d then P else log_block s x)"
    and "data_to_log s' ! x = (if x = d then int P - int d else data_to_log s ! x)"
    and "0 \<le> int d + data_to_log s' ! d"
  using assms by (simp_all add: log_block_def)

lemma block_key_neq:
  "0 < BLOCK_SIZE c \<Longrightarrow> a \<noteq> b \<Longrightarrow> a * BLOCK_SIZE c \<noteq> b * BLOCK_SIZE c"
  by simp

lemma invariant_shuffled:
  assumes "valid_config c" and "ftl_invariant c s" and "shuffle_pair c s D lbm" and "worn c s cnt"
  shows "ftl_invariant c (shuffled c s D lbm es cnt)"
proof -
  note inv = ftl_invariantD [OF assms(2)]
  note len = tables_allocatedD [OF inv(1)]
  have B: "0 < BLOCK_SIZE c"
    using assms(1) by (rule valid_config_facts)
  define s' where "s' = shuffled c s D lbm es cnt"
  define L where "L = log_block s D"
  define M where "M = data_block s lbm"
  from assms(3) have D: "D < NUM_OF_PHY_B c" and dD: "data_to_log s ! D \<noteq> 0"
    and lbm: "lbm < NUM_OF_LGC_B c" and dM: "data_to_log s ! M = 0"
    and cM1: "erase_count s ! M + 1 < BLOCK_ERASES c" and cM: "erase_count s ! M < BLOCK_ERASES c"
    by (simp_all add: shuffle_pair_def M_def)
  have L: "L < NUM_OF_PHY_B c"
    unfolding L_def using inv(3) D dD by (rule inv_logD)
  have M: "M < NUM_OF_PHY_B c"
    unfolding M_def using inv(2) lbm by (rule inv_dataD)
  have nL: "data_block s i \<noteq> L" if "i < NUM_OF_LGC_B c" for i
    unfolding L_def using inv(3) D dD that by (rule inv_logD)
  have MnD: "M \<noteq> D"
    using dM dD by auto
  have MnL: "M \<noteq> L"
    using nL [OF lbm] by (simp add: M_def)
  have cnt: "length cnt = NUM_OF_PHY_B c"
    using assms(4) len(2) by (simp add: worn_def)
  have db: "data_block s' i = (if i = lbm then L else data_block s i)" for i
    by (rule data_block_update(1) [of lbm s]) (simp_all add: s'_def len lbm L_def)
  have d2l: "data_to_log s' ! d = (if d = D then 0 else data_to_log s ! d)" for d
    using D by (simp add: s'_def len)
  have lb: "log_block s' d = log_block s d" if "d \<noteq> D" for d
    using that by (simp add: log_block_def s'_def)
  have lbw: "logical_block_written c s' = logical_block_written c s"
    by (rule logical_block_written_cong) (simp add: s'_def)
  have ltp: "log_to_pages s' k = (if k = L * BLOCK_SIZE c then None else log_to_pages s k)" for k
    by (simp add: s'_def L_def)
  have "tables_allocated c s'"
    using inv(1) by (simp add: tables_allocated_def s'_def cnt)
  moreover have "inv_data c s'"
    unfolding inv_data_def
  proof (intro conjI allI impI)
    fix i assume i: "i < NUM_OF_LGC_B c"
    show "0 \<le> int i + logical_to_physical s' ! i"
      using inv_dataD(1) [OF inv(2) i] lbm by (cases "i = lbm") (simp_all add: s'_def len)
    show "data_block s' i < NUM_OF_PHY_B c"
      using inv_dataD(2) [OF inv(2) i] L by (simp add: db)
  next
    fix i j assume i: "i < NUM_OF_LGC_B c" and j: "j < NUM_OF_LGC_B c"
      and eq: "data_block s' i = data_block s' j"
    show "i = j"
      using eq nL [OF i] nL [OF j] inv_dataD(3) [OF inv(2) i j]
      by (simp add: db split: if_splits)
  qed
  moreover have "inv_log c s'"
    unfolding inv_log_def
  proof (intro conjI allI impI)
    fix d assume d: "d < NUM_OF_PHY_B c" and nz: "data_to_log s' ! d \<noteq> 0"
    from nz have dD': "d \<noteq> D" and nz': "data_to_log s ! d \<noteq> 0"
      by (simp_all add: d2l split: if_splits)
    note old = inv_logD [OF inv(3) d nz']
    have lne: "log_block s d \<noteq> L"
      using inv_logD(6) [OF inv(3) d nz' D dD] dD' by (auto simp: L_def)
    show "0 \<le> int d + data_to_log s' ! d"
      using old(1) dD' by (simp add: d2l)
    show "log_block s' d < NUM_OF_PHY_B c"
      using old(2) by (simp add: lb [OF dD'])
    from old(3) obtain i where i: "i < NUM_OF_LGC_B c" "data_block s i = d" "logical_block_written c s i"
      by (elim exE conjE) (rule that)
    from i(2) nz' dM have "i \<noteq> lbm"
      by (auto simp: M_def)
    with i show "\<exists>i<NUM_OF_LGC_B c. data_block s' i = d \<and> logical_block_written c s' i"
      by (intro exI [of _ i]) (simp add: db lbw)
    show "log_to_pages s' (log_block s' d * BLOCK_SIZE c) \<noteq> None"
      using old(5) lne B by (simp add: lb [OF dD'] ltp)
  next
    fix d i assume d: "d < NUM_OF_PHY_B c" and nz: "data_to_log s' ! d \<noteq> 0" and i: "i < NUM_OF_LGC_B c"
    from nz have dD': "d \<noteq> D" and nz': "data_to_log s ! d \<noteq> 0"
      by (simp_all add: d2l split: if_splits)
    have lne: "log_block s d \<noteq> L"
      using inv_logD(6) [OF inv(3) d nz' D dD] dD' by (auto simp: L_def)
    show "data_block s' i \<noteq> log_block s' d"
      using inv_logD(4) [OF inv(3) d nz' i] lne by (simp add: db lb [OF dD'])
  next
    fix d d' assume d: "d < NUM_OF_PHY_B c" and d': "d' < NUM_OF_PHY_B c"
      and nz: "data_to_log s' ! d \<noteq> 0" and nz': "data_to_log s' ! d' \<noteq> 0"
      and eq: "log_block s' d = log_block s' d'"
    from nz nz' have *: "d \<noteq> D" "data_to_log s ! d \<noteq> 0" "d' \<noteq> D" "data_to_log s ! d' \<noteq> 0"
      by (simp_all add: d2l split: if_splits)
    from eq have "log_block s d = log_block s d'"
      by (simp add: lb *)
    with inv(3) d *(2) d' *(4) show "d = d'"
      by (rule inv_logD(6))
  qed
  moreover have "inv_pool c s'"
    unfolding inv_pool_def
  proof (intro conjI ballI)
    have old: "free_block c s p" if "p \<in> set (op_blocks s)" for p
      using inv(4) that by (simp add: inv_pool_def)
    have "M * BLOCK_SIZE c \<notin> set (op_blocks s)"
    proof
      assume "M * BLOCK_SIZE c \<in> set (op_blocks s)"
      from old [OF this] lbm B show False
        by (auto simp: free_block_def M_def)
    qed
    then show "distinct (op_blocks s')"
      using inv(4) by (simp add: s'_def inv_pool_def M_def)
    fix p assume "p \<in> set (op_blocks s')"
    then consider "p \<in> set (op_blocks s)" | "p = M * BLOCK_SIZE c"
      by (auto simp: s'_def M_def)
    then show "free_block c s' p"
    proof cases
      case 1
      note f = old [OF 1]
      then have pb: "p div BLOCK_SIZE c < length (erase_count s)"
        by (simp add: free_block_def len(2))
      have same: "cnt ! (p div BLOCK_SIZE c) = erase_count s ! (p div BLOCK_SIZE c)"
        using worn_same [OF assms(4) pb free_block_not_wearable [OF inv(3) f]] .
      have pL: "p div BLOCK_SIZE c \<noteq> L"
        using f D dD by (auto simp: free_block_def L_def)
      show ?thesis
        unfolding free_block_def
      proof (intro conjI allI impI)
        show "BLOCK_SIZE c dvd p" "p div BLOCK_SIZE c < NUM_OF_PHY_B c"
          using f by (simp_all add: free_block_def)
        show "erase_count s' ! (p div BLOCK_SIZE c) < BLOCK_ERASES c"
          using f same by (simp add: free_block_def s'_def)
      next
        fix i assume "i < NUM_OF_LGC_B c"
        then show "data_block s' i \<noteq> p div BLOCK_SIZE c"
          using f pL by (auto simp: free_block_def db)
      next
        fix d assume d: "d < NUM_OF_PHY_B c" and nz: "data_to_log s' ! d \<noteq> 0"
        from nz have *: "d \<noteq> D" "data_to_log s ! d \<noteq> 0"
          by (simp_all add: d2l split: if_splits)
        with f d show "log_block s' d \<noteq> p div BLOCK_SIZE c"
          by (simp add: free_block_def lb)
      qed
    next
      case 2
      have divM: "p div BLOCK_SIZE c = M"
        using B by (simp add: 2)
      show ?thesis
        unfolding free_block_def divM
      proof (intro conjI allI impI)
        show "BLOCK_SIZE c dvd p"
          by (simp add: 2)
        show "M < NUM_OF_PHY_B c"
          by (rule M)
        show "erase_count s' ! M < BLOCK_ERASES c"
          using worn_below [OF assms(4) _ cM1 cM] M by (simp add: s'_def len)
      next
        fix i assume i: "i < NUM_OF_LGC_B c"
        show "data_block s' i \<noteq> M"
          using inv_dataD(3) [OF inv(2) i lbm] MnL by (auto simp: db M_def)
      next
        fix d assume d: "d < NUM_OF_PHY_B c" and nz: "data_to_log s' ! d \<noteq> 0"
        from nz have *: "d \<noteq> D" "data_to_log s ! d \<noteq> 0"
          by (simp_all add: d2l split: if_splits)
        from inv_logD(4) [OF inv(3) d *(2) lbm] show "log_block s' d \<noteq> M"
          by (simp add: lb * M_def)
      qed
    qed
  qed
  moreover have "inv_manifests c s'"
    using inv(5) unfolding inv_manifests_def by (simp add: ltp)
  moreover have "inv_counts c s'"
    unfolding inv_counts_def
  proof (intro allI impI)
    fix b assume b: "b < NUM_OF_PHY_B c"
    with inv(6) have "erase_count s ! b \<le> BLOCK_ERASES c"
      by (simp add: inv_counts_def)
    with worn_cap [OF assms(4)] b len(2) show "erase_count s' ! b \<le> BLOCK_ERASES c"
      by (simp add: s'_def)
  qed
  ultimately show ?thesis
    unfolding s'_def by (simp add: ftl_invariant_def)
qed

lemma progress_worn:
  assumes "worn c s cnt" and "targets_below c (erase_count s) es"
    and "erase_count s' = cnt" and "controller_issued s' = controller_issued s @ es"
  shows "progress c s s'"
  unfolding progress_def
proof (intro conjI allI impI)
  show "length (erase_count s') = length (erase_count s)"
    using assms(1,3) by (simp add: worn_def)
  show "\<exists>es. controller_issued s' = controller_issued s @ es \<and> targets_below c (erase_count s) es"
    using assms(2,4) by (intro exI [of _ es]) simp
next
  fix b assume "b < length (erase_count s)"
  with worn_le [OF assms(1)] show "erase_count s ! b \<le> erase_count s' ! b"
    by (simp add: assms(3))
qed

subsection \<open>The outcome of the wear balancing\<close>

lemma check_log_block_cong:
  "data_to_log s' = data_to_log s \<Longrightarrow> check_log_block c s' = check_log_block c s"
  by (rule ext) (simp add: check_log_block_def)

lemma find_logical_block_cong:
  assumes "logical_to_physical s' = logical_to_physical s"
  shows "find_logical_block c s' target is = find_logical_block c s target is"
  by (induction "is") (simp_all add: check_physical_address_cong [OF assms] Let_def cong: if_cong)

lemma logical_block_below_raw:
  assumes "valid_config c" and "i < NUM_OF_LGC_B c"
  shows "i * BLOCK_SIZE c < RAW_SIZE c"
proof (rule block_below_raw [OF assms(1)])
  show "i < NUM_OF_PHY_B c"
    using assms(2) valid_config_facts(3) [OF assms(1)] by simp
qed

lemma count_below:
  assumes "inv_counts c s" and "b < NUM_OF_PHY_B c" and "erase_count s ! b \<noteq> BLOCK_ERASES c"
  shows "erase_count s ! b < BLOCK_ERASES c"
proof -
  from assms(1,2) have "erase_count s ! b \<le> BLOCK_ERASES c"
    by (simp add: inv_counts_def)
  with assms(3) show ?thesis
    by simp
qed

lemma cancel_log_block_eq:
  assumes "valid_config c" and "d < length (data_to_log s)"
    and "check_log_block c s (d * BLOCK_SIZE c) = Some r"
  shows "cancel_log_block c (d * BLOCK_SIZE c) s =
    Some (s\<lparr>log_to_pages := (case r of Some la \<Rightarrow> (log_to_pages s)(la := None) | None \<Rightarrow> log_to_pages s),
            data_to_log := (data_to_log s)[d := 0]\<rparr>)"
proof -
  have B: "0 < BLOCK_SIZE c"
    using assms(1) by (rule valid_config_facts)
  show ?thesis
    using assms(2) B
    by (cases r) (simp_all add: cancel_log_block_def assms(3) set_log_block_def array_set_def)
qed

lemma set_physical_address_eq:
  assumes "valid_config c" and "i < length (logical_to_physical s)"
  shows "set_physical_address c (i * BLOCK_SIZE c) (P * BLOCK_SIZE c) s =
    Some (s\<lparr>logical_to_physical := (logical_to_physical s)[i := int P - int i]\<rparr>)"
proof -
  have B: "0 < BLOCK_SIZE c"
    using assms(1) by (rule valid_config_facts)
  show ?thesis
    using assms(2) B by (simp add: set_physical_address_def array_set_def)
qed

lemma set_log_block_eq:
  assumes "valid_config c" and "d < length (data_to_log s)"
  shows "set_log_block c (d * BLOCK_SIZE c) (P * BLOCK_SIZE c) s =
    Some (s\<lparr>data_to_log := (data_to_log s)[d := int P - int d]\<rparr>)"
proof -
  have B: "0 < BLOCK_SIZE c"
    using assms(1) by (rule valid_config_facts)
  show ?thesis
    using assms(2) B by (simp add: set_log_block_def array_set_def)
qed

lemma shuffle_spec:
  assumes "valid_config c" and "ftl_invariant c s"
  shows "\<exists>ok s'. shuffle_data_log c s = Some (ok, s') \<and>
    (if ok then \<exists>D lbm es cnt. shuffle_pair c s D lbm \<and> targets_below c (erase_count s) es \<and>
                  worn c s cnt \<and> s' = shuffled c s D lbm es cnt
     else s' = s)"
proof -
  note inv = ftl_invariantD [OF assms(2)]
  note len = tables_allocatedD [OF inv(1)]
  have B: "0 < BLOCK_SIZE c"
    using assms(1) by (rule valid_config_facts)
  have failed: "shuffle_data_log c s = Some (False, s) \<Longrightarrow> ?thesis"
    by (intro exI [of _ False] exI [of _ s]) simp
  from max_pair_loop [OF assms(1) inv(1,3)] obtain mc ml md where
    mx: "for_loop [0..<NUM_OF_PHY_B c] (max_pair_step c s) (0, RAW_SIZE c, RAW_SIZE c) = Some (mc, ml, md)"
    and mx': "(ml, md) = (RAW_SIZE c, RAW_SIZE c) \<or>
     (\<exists>d < NUM_OF_PHY_B c. data_to_log s ! d \<noteq> 0 \<and> erase_count s ! log_block s d \<noteq> BLOCK_ERASES c \<and>
        erase_count s ! d \<noteq> BLOCK_ERASES c \<and>
        (ml, md) = (log_block s d * BLOCK_SIZE c, d * BLOCK_SIZE c))"
    by (elim exE conjE) (metis prod.collapse snd_conv)
  from mx' show ?thesis
  proof (elim disjE exE conjE)
    assume "(ml, md) = (RAW_SIZE c, RAW_SIZE c)"
    then have "shuffle_data_log c s = Some (False, s)"
      by (simp add: shuffle_data_log_def mx)
    then show ?thesis
      by (rule failed)
  next
    fix D assume D: "D < NUM_OF_PHY_B c" and dD: "data_to_log s ! D \<noteq> 0"
      and cL': "erase_count s ! log_block s D \<noteq> BLOCK_ERASES c"
      and cD': "erase_count s ! D \<noteq> BLOCK_ERASES c"
      and mlmd: "(ml, md) = (log_block s D * BLOCK_SIZE c, D * BLOCK_SIZE c)"
    define L where "L = log_block s D"
    have ml: "ml = L * BLOCK_SIZE c" and md: "md = D * BLOCK_SIZE c"
      using mlmd by (simp_all add: L_def)
    have L: "L < NUM_OF_PHY_B c"
      unfolding L_def using inv(3) D dD by (rule inv_logD)
    have cD: "erase_count s ! D < BLOCK_ERASES c"
      using inv(6) D cD' by (rule count_below)
    have cL: "erase_count s ! L < BLOCK_ERASES c"
      unfolding L_def using inv(6) L [unfolded L_def] cL' by (rule count_below)
    have nr: "md \<noteq> RAW_SIZE c" "ml \<noteq> RAW_SIZE c"
      using block_below_raw [OF assms(1) D] block_below_raw [OF assms(1) L] by (simp_all add: ml md)
    from inv_logD(3) [OF inv(3) D dD] obtain i where i: "i < NUM_OF_LGC_B c"
      and di: "data_block s i = D"
      by (elim exE conjE) (rule that)
    have fl: "find_logical_block c s md [0..<NUM_OF_LGC_B c] = Some (i * BLOCK_SIZE c)"
      unfolding md di [symmetric] using assms(1) inv(1,2) by (rule find_logical_block_found) (simp_all add: i)
    have ir: "i * BLOCK_SIZE c \<noteq> RAW_SIZE c"
      using logical_block_below_raw [OF assms(1) i] by simp
    from min_data_loop_spec [OF assms(1) inv(1-3)] obtain mn mdat where
      mn: "for_loop [0..<NUM_OF_LGC_B c] (min_data_step c s) (BLOCK_ERASES c + 1, RAW_SIZE c) = Some (mn, mdat)"
      and mn': "mdat = RAW_SIZE c \<or>
       (\<exists>i < NUM_OF_LGC_B c. data_to_log s ! data_block s i = 0 \<and>
          (mn, mdat) = (erase_count s ! data_block s i, data_block s i * BLOCK_SIZE c))"
      by (elim exE conjE) (metis prod.collapse snd_conv)
    from mn' show ?thesis
    proof (elim disjE exE conjE)
      assume "mdat = RAW_SIZE c"
      then have "shuffle_data_log c s = Some (False, s)"
        using nr ir by (simp add: shuffle_data_log_def mx fl mn)
      then show ?thesis
        by (rule failed)
    next
      fix lbm assume lbm: "lbm < NUM_OF_LGC_B c" and dM: "data_to_log s ! data_block s lbm = 0"
        and mnm: "(mn, mdat) = (erase_count s ! data_block s lbm, data_block s lbm * BLOCK_SIZE c)"
      define M where "M = data_block s lbm"
      have mn_eq: "mn = erase_count s ! M" and mdat: "mdat = M * BLOCK_SIZE c"
        using mnm by (simp_all add: M_def)
      have M: "M < NUM_OF_PHY_B c"
        unfolding M_def using inv(2) lbm by (rule inv_dataD)
      have mr: "mdat \<noteq> RAW_SIZE c"
        using block_below_raw [OF assms(1) M] by (simp add: mdat)
      show ?thesis
      proof (cases "BLOCK_ERASES c - 1 \<le> mn")
        case True
        then have "shuffle_data_log c s = Some (False, s)"
          using nr ir mr by (simp add: shuffle_data_log_def mx fl mn)
        then show ?thesis
          by (rule failed)
      next
        case False
        from word_below_pred [OF valid_config_facts(6) [OF assms(1)] False]
        have cM1: "erase_count s ! M + 1 < BLOCK_ERASES c" and cM: "erase_count s ! M < BLOCK_ERASES c"
          by (simp_all add: mn_eq)
        have pair: "shuffle_pair c s D lbm"
          using D dD cD cL lbm dM cM1 cM by (simp add: shuffle_pair_def L_def M_def)
        have pre: "data_to_log s ! data_block s i \<noteq> 0"
          "erase_count s ! data_block s i < BLOCK_ERASES c"
          "erase_count s ! log_block s (data_block s i) < BLOCK_ERASES c"
          using dD cD cL by (simp_all add: di L_def)
        from clean_spec [OF assms i pre] obtain ok s1 where
          cl0: "clean c (i * BLOCK_SIZE c) (D * BLOCK_SIZE c) (L * BLOCK_SIZE c) s = Some (ok, s1)"
          and cl': "if ok then \<exists>es cnt. s1 = s\<lparr>controller_issued := controller_issued s @ es, erase_count := cnt\<rparr> \<and>
                     targets_below c (erase_count s) es \<and> worn c s cnt
             else s1 = s"
          unfolding di L_def [symmetric] by (elim exE conjE) (rule that)
        have cl: "clean c (i * BLOCK_SIZE c) md ml s = Some (ok, s1)"
          using cl0 by (simp add: ml md)
        show ?thesis
        proof (cases ok)
          case no: False
          with cl' have "s1 = s"
            by simp
          with cl no have "shuffle_data_log c s = Some (False, s)"
            using nr ir mr False by (simp add: shuffle_data_log_def mx fl mn)
          then show ?thesis
            by (rule failed)
        next
          case yes: True
          with cl' obtain es cnt where
            s1: "s1 = s\<lparr>controller_issued := controller_issued s @ es, erase_count := cnt\<rparr>"
            and tb: "targets_below c (erase_count s) es" and worn: "worn c s cnt"
            by (simp only: if_True) (elim exE conjE, rule that)
          have "check_log_block c s1 = check_log_block c s"
            by (rule check_log_block_cong) (simp add: s1)
          then have cl1: "check_log_block c s1 (D * BLOCK_SIZE c) = Some (Some (L * BLOCK_SIZE c))"
            using log_address [OF assms(1) inv(1,3) D] dD by (simp add: L_def)
          define s2 where "s2 = s1\<lparr>log_to_pages := (log_to_pages s1)(L * BLOCK_SIZE c := None),
              data_to_log := (data_to_log s1)[D := 0]\<rparr>"
          have cn: "cancel_log_block c md s1 = Some s2"
            unfolding md s2_def using cancel_log_block_eq [OF assms(1) _ cl1] D
            by (simp add: s1 len)
          have fl2: "find_logical_block c s2 mdat [0..<NUM_OF_LGC_B c] = Some (lbm * BLOCK_SIZE c)"
          proof -
            have "find_logical_block c s2 mdat [0..<NUM_OF_LGC_B c]
                = find_logical_block c s mdat [0..<NUM_OF_LGC_B c]"
              by (rule find_logical_block_cong) (simp add: s2_def s1)
            also have "\<dots> = Some (lbm * BLOCK_SIZE c)"
              unfolding mdat M_def using assms(1) inv(1,2)
              by (rule find_logical_block_found) (simp_all add: lbm)
            finally show ?thesis .
          qed
          have lr: "lbm * BLOCK_SIZE c \<noteq> RAW_SIZE c"
            using logical_block_below_raw [OF assms(1) lbm] by simp
          have e2: "logical_to_emptiness s2 = logical_to_emptiness s"
            by (simp add: s2_def s1)
          from copy_page_defined [OF assms(1) inv(1) lbm e2, where src = mdat and des = ml]
          obtain s3 where
            l3: "for_loop [0..<BLOCK_SIZE c] (copy_page c (lbm * BLOCK_SIZE c) mdat ml) s2 = Some s3"
            by (elim exE conjE) (rule that)
          define es2 where "es2 = copy_events c (lbm * BLOCK_SIZE c) mdat ml (start_time s2)
              (filter (\<lambda>j. check_page_empty s2 (lbm * BLOCK_SIZE c + j) = Some False) [0..<BLOCK_SIZE c])"
          from copy_page_loop [OF l3]
          have s3: "s3 = s2\<lparr>controller_issued := controller_issued s2 @ es2\<rparr>"
            by (simp only: es2_def)
          define s4 where "s4 = issue (Event ERASE (lbm * BLOCK_SIZE c) 1 (start_time s3)
              (whole_block_address c mdat)) s3"
          have sp: "set_physical_address c (lbm * BLOCK_SIZE c) ml s4 =
              Some (s4\<lparr>logical_to_physical := (logical_to_physical s4)[lbm := int L - int lbm]\<rparr>)"
            unfolding ml by (rule set_physical_address_eq [OF assms(1)]) (simp add: s4_def s3 s2_def s1 len lbm)
          have run: "shuffle_data_log c s =
              Some (True, s4\<lparr>logical_to_physical := (logical_to_physical s4)[lbm := int L - int lbm],
                             op_blocks := op_blocks s4 @ [mdat]\<rparr>)"
            using nr ir mr lr False yes
            by (simp add: shuffle_data_log_def mx fl mn cl cn fl2 l3 sp [unfolded s4_def] s4_def
                del: One_nat_def)
          define es' where "es' = es @ es2 @ [erase_event c (lbm * BLOCK_SIZE c) mdat (start_time s)]"
          have final: "s4\<lparr>logical_to_physical := (logical_to_physical s4)[lbm := int L - int lbm],
                         op_blocks := op_blocks s4 @ [mdat]\<rparr> = shuffled c s D lbm es' cnt"
            by (simp add: shuffled_def s4_def s3 s2_def s1 es'_def L_def mdat M_def erase_event_def issue_def)
          have tL: "ml div BLOCK_SIZE c < NUM_OF_PHY_B c" "erase_count s ! (ml div BLOCK_SIZE c) < BLOCK_ERASES c"
            and tM: "mdat div BLOCK_SIZE c < NUM_OF_PHY_B c"
              "erase_count s ! (mdat div BLOCK_SIZE c) < BLOCK_ERASES c"
            using L cL M cM B by (simp_all add: ml mdat)
          have "targets_below c (erase_count s) es'"
            unfolding es'_def es2_def targets_below_append
            using tb targets_below_copy_events(1) [OF assms(1) tL] targets_below_erase_event [OF assms(1) tM]
            by simp
          with pair worn run final show ?thesis
            by (intro exI [of _ True] exI [of _ "shuffled c s D lbm es' cnt"] conjI)
              (simp, simp only: if_True, intro exI [of _ D] exI [of _ lbm] exI [of _ es'] exI [of _ cnt] conjI,
               simp_all)
        qed
      qed
    qed
  qed
qed


subsection \<open>Taking a block from the free pool\<close>

lemma progress_same:
  assumes "erase_count s' = erase_count s" and "controller_issued s' = controller_issued s"
  shows "progress c s s'"
  unfolding progress_def using assms by (intro conjI allI impI exI [of _ "[]"]) simp_all

lemma targets_below_mono:
  assumes "targets_below c cnt' es" and "\<forall>b < NUM_OF_PHY_B c. cnt ! b \<le> cnt' ! b"
  shows "targets_below c cnt es"
  unfolding targets_below_def
proof (intro ballI impI)
  fix e assume "e \<in> set es" and "ev_type e \<noteq> READ"
  with assms(1) have b: "physical_block c (ev_address e) < NUM_OF_PHY_B c"
    and less: "cnt' ! physical_block c (ev_address e) < BLOCK_ERASES c"
    by (auto simp: targets_below_def)
  from assms(2) b have "cnt ! physical_block c (ev_address e) \<le> cnt' ! physical_block c (ev_address e)"
    by simp
  with b less show "physical_block c (ev_address e) < NUM_OF_PHY_B c \<and>
      cnt ! physical_block c (ev_address e) < BLOCK_ERASES c"
    by simp
qed

lemma progress_trans:
  assumes "progress c s s1" and "progress c s1 s2" and "length (erase_count s) = NUM_OF_PHY_B c"
  shows "progress c s s2"
proof -
  from assms(1) obtain es where len1: "length (erase_count s1) = length (erase_count s)"
    and mono1: "\<forall>b < length (erase_count s). erase_count s ! b \<le> erase_count s1 ! b"
    and es: "controller_issued s1 = controller_issued s @ es" "targets_below c (erase_count s) es"
    unfolding progress_def by (elim exE conjE) (rule that)
  from assms(2) obtain es' where len2: "length (erase_count s2) = length (erase_count s1)"
    and mono2: "\<forall>b < length (erase_count s1). erase_count s1 ! b \<le> erase_count s2 ! b"
    and es': "controller_issued s2 = controller_issued s1 @ es'" "targets_below c (erase_count s1) es'"
    unfolding progress_def by (elim exE conjE) (rule that)
  have "targets_below c (erase_count s) es'"
  proof (rule targets_below_mono [OF es'(2)])
    show "\<forall>b < NUM_OF_PHY_B c. erase_count s ! b \<le> erase_count s1 ! b"
      using mono1 assms(3) by simp
  qed
  with es(2) have "targets_below c (erase_count s) (es @ es')"
    by (simp add: targets_below_append)
  moreover have "controller_issued s2 = controller_issued s @ (es @ es')"
    by (simp add: es'(1) es(1))
  moreover have "erase_count s ! b \<le> erase_count s2 ! b" if "b < length (erase_count s)" for b
  proof -
    from that mono1 have "erase_count s ! b \<le> erase_count s1 ! b"
      by simp
    also from that mono2 len1 have "\<dots> \<le> erase_count s2 ! b"
      by simp
    finally show ?thesis .
  qed
  ultimately show ?thesis
    unfolding progress_def using len1 len2 by (intro conjI allI impI exI [of _ "es @ es'"]) simp_all
qed

lemma invariant_pool_sub:
  assumes "ftl_invariant c s" and "distinct pool" and "set pool \<subseteq> set (op_blocks s)"
  shows "ftl_invariant c (s\<lparr>op_blocks := pool\<rparr>)"
proof -
  note inv = ftl_invariantD [OF assms(1)]
  define s' where "s' = s\<lparr>op_blocks := pool\<rparr>"
  have eq: "logical_to_emptiness s' = logical_to_emptiness s" "erase_count s' = erase_count s"
    "logical_to_physical s' = logical_to_physical s" "data_to_log s' = data_to_log s"
    "log_to_pages s' = log_to_pages s" "op_blocks s' = pool"
    by (simp_all add: s'_def)
  have "tables_allocated c s'"
    using inv(1) by (simp add: tables_allocated_def eq)
  moreover have "inv_data c s'"
    using inv(2) by (simp only: inv_data_cong [OF eq(3)])
  moreover have "inv_log c s'"
    using inv(3) by (simp only: inv_log_cong [OF eq(3,4,1,5)])
  moreover have "inv_pool c s'"
    unfolding inv_pool_def eq(6)
  proof (intro conjI ballI)
    show "distinct pool"
      by (rule assms(2))
    fix p assume "p \<in> set pool"
    with assms(3) have "p \<in> set (op_blocks s)"
      by auto
    with inv(4) have "free_block c s p"
      by (simp add: inv_pool_def)
    moreover have "erase_count s' ! (p div BLOCK_SIZE c) = erase_count s ! (p div BLOCK_SIZE c)"
      by (simp only: eq)
    ultimately show "free_block c s' p"
      by (simp only: free_block_cong [OF eq(3,4)])
  qed
  moreover have "inv_manifests c s'"
    using inv(5) by (simp only: inv_manifests_cong [OF eq(5)])
  moreover have "inv_counts c s'"
    using inv(6) by (simp add: inv_counts_def eq)
  ultimately show ?thesis
    unfolding s'_def by (simp only: ftl_invariant_def simp_thms)
qed

lemma wearableE:
  assumes "wearable c s b"
    and "\<And>i. i < NUM_OF_LGC_B c \<Longrightarrow> data_block s i = b \<Longrightarrow> \<not> logical_block_written c s i \<Longrightarrow> thesis"
    and "\<And>d. d < NUM_OF_PHY_B c \<Longrightarrow> data_to_log s ! d \<noteq> 0 \<Longrightarrow> erase_count s ! d < BLOCK_ERASES c \<Longrightarrow>
       erase_count s ! log_block s d < BLOCK_ERASES c \<Longrightarrow> b = d \<or> b = log_block s d \<Longrightarrow> thesis"
  shows thesis
  using assms(1) unfolding wearable_def
proof (elim disjE exE conjE)
  fix i assume "i < NUM_OF_LGC_B c" "data_block s i = b" "\<not> logical_block_written c s i"
  then show thesis
    by (rule assms(2))
next
  fix d assume "d < NUM_OF_PHY_B c" "data_to_log s ! d \<noteq> 0" "erase_count s ! d < BLOCK_ERASES c"
    "erase_count s ! log_block s d < BLOCK_ERASES c" "b = d"
  then show thesis
    by (intro assms(3) [of d] disjI1)
next
  fix d assume "d < NUM_OF_PHY_B c" "data_to_log s ! d \<noteq> 0" "erase_count s ! d < BLOCK_ERASES c"
    "erase_count s ! log_block s d < BLOCK_ERASES c" "b = log_block s d"
  then show thesis
    by (intro assms(3) [of d] disjI2)
qed

lemma pair_not_wearable:
  assumes "inv_data c s" and "inv_log c s" and "d < NUM_OF_PHY_B c" and "data_to_log s ! d \<noteq> 0"
    and "BLOCK_ERASES c \<le> erase_count s ! d \<or> BLOCK_ERASES c \<le> erase_count s ! log_block s d"
  shows "\<not> wearable c s d" and "\<not> wearable c s (log_block s d)"
proof -
  note old = inv_logD [OF assms(2,3,4)]
  from old(3) obtain i0 where i0: "i0 < NUM_OF_LGC_B c" "data_block s i0 = d" "logical_block_written c s i0"
    by (elim exE conjE) (rule that)
  show "\<not> wearable c s d"
  proof
    assume "wearable c s d"
    then show False
    proof (rule wearableE)
      fix i assume i: "i < NUM_OF_LGC_B c" "data_block s i = d" "\<not> logical_block_written c s i"
      from inv_dataD(3) [OF assms(1) i(1) i0(1)] i(2) i0(2) have "i = i0"
        by simp
      with i(3) i0(3) show False
        by simp
    next
      fix d' assume 2: "d' < NUM_OF_PHY_B c" "data_to_log s ! d' \<noteq> 0" "erase_count s ! d' < BLOCK_ERASES c"
          "erase_count s ! log_block s d' < BLOCK_ERASES c" "d = d' \<or> d = log_block s d'"
      from 2(5) show False
      proof
        assume "d = d'"
        with 2(3,4) assms(5) show False
          by auto
      next
        assume "d = log_block s d'"
        with inv_logD(4) [OF assms(2) 2(1,2) i0(1)] i0(2) show False
          by simp
      qed
    qed
  qed
  show "\<not> wearable c s (log_block s d)"
  proof
    assume "wearable c s (log_block s d)"
    then show False
    proof (rule wearableE)
      fix i assume "i < NUM_OF_LGC_B c" "data_block s i = log_block s d"
      with old(4) [of i] show False
        by simp
    next
      fix d' assume 2: "d' < NUM_OF_PHY_B c" "data_to_log s ! d' \<noteq> 0" "erase_count s ! d' < BLOCK_ERASES c"
          "erase_count s ! log_block s d' < BLOCK_ERASES c" "log_block s d = d' \<or> log_block s d = log_block s d'"
      from 2(5) show False
      proof
        assume eq: "log_block s d = d'"
        from inv_logD(3) [OF assms(2) 2(1,2)] obtain i' where "i' < NUM_OF_LGC_B c" "data_block s i' = d'"
          by (elim exE conjE) (rule that)
        with old(4) [of i'] eq show False
          by simp
      next
        assume "log_block s d = log_block s d'"
        with old(6) [OF 2(1,2)] have "d = d'"
          by simp
        with 2(3,4) assms(5) show False
          by auto
      qed
    qed
  qed
qed


lemma handed_pop:
  assumes "ftl_invariant c s" and "op_blocks s \<noteq> []"
  shows "handed c s (Some (last (op_blocks s))) (s\<lparr>op_blocks := butlast (op_blocks s)\<rparr>)"
proof -
  note inv = ftl_invariantD [OF assms(1)]
  define s1 where "s1 = s\<lparr>op_blocks := butlast (op_blocks s)\<rparr>"
  have eq: "logical_to_emptiness s1 = logical_to_emptiness s" "erase_count s1 = erase_count s"
    "logical_to_physical s1 = logical_to_physical s" "data_to_log s1 = data_to_log s"
    "log_to_pages s1 = log_to_pages s" "op_blocks s1 = butlast (op_blocks s)"
    "start_time s1 = start_time s" "controller_issued s1 = controller_issued s"
    by (simp_all add: s1_def)
  have d: "distinct (op_blocks s)"
    using inv(4) by (simp add: inv_pool_def)
  have split: "op_blocks s = butlast (op_blocks s) @ [last (op_blocks s)]"
    using assms(2) by simp
  have "ftl_invariant c s1"
    unfolding s1_def using assms(1)
  proof (rule invariant_pool_sub)
    show "distinct (butlast (op_blocks s))"
      using d by (rule distinct_butlast)
    show "set (butlast (op_blocks s)) \<subseteq> set (op_blocks s)"
      by (auto dest: in_set_butlastD)
  qed
  moreover have "progress c s s1"
    using eq(2,8) by (rule progress_same)
  moreover have "free_block c s1 (last (op_blocks s))"
  proof -
    have "free_block c s (last (op_blocks s))"
      using inv(4) assms(2) by (simp add: inv_pool_def)
    moreover have "erase_count s1 ! (last (op_blocks s) div BLOCK_SIZE c) =
        erase_count s ! (last (op_blocks s) div BLOCK_SIZE c)"
      by (simp only: eq)
    ultimately show ?thesis
      by (simp only: free_block_cong [OF eq(3,4)])
  qed
  moreover have "last (op_blocks s) \<notin> set (op_blocks s1)"
  proof -
    from d split have "distinct (butlast (op_blocks s) @ [last (op_blocks s)])"
      by simp
    then show ?thesis
      by (simp add: eq)
  qed
  ultimately show ?thesis
    unfolding s1_def [symmetric] handed_def by (simp add: eq)
qed

lemma handed_shuffled:
  assumes "valid_config c" and "ftl_invariant c s" and "op_blocks s = []"
    and "shuffle_pair c s D lbm" and "targets_below c (erase_count s) es" and "worn c s cnt"
  shows "handed c s (Some (data_block s lbm * BLOCK_SIZE c))
    ((shuffled c s D lbm es cnt)\<lparr>op_blocks := []\<rparr>)"
proof -
  note inv = ftl_invariantD [OF assms(2)]
  note len = tables_allocatedD [OF inv(1)]
  have B: "0 < BLOCK_SIZE c"
    using assms(1) by (rule valid_config_facts)
  define s' where "s' = shuffled c s D lbm es cnt"
  define s1 where "s1 = s'\<lparr>op_blocks := []\<rparr>"
  define M where "M = data_block s lbm"
  define L where "L = log_block s D"
  from assms(4) have D: "D < NUM_OF_PHY_B c" and dD: "data_to_log s ! D \<noteq> 0"
    and cD: "erase_count s ! D < BLOCK_ERASES c" and cL: "erase_count s ! L < BLOCK_ERASES c"
    and lbm: "lbm < NUM_OF_LGC_B c" and dM: "data_to_log s ! M = 0"
    by (simp_all add: shuffle_pair_def M_def L_def)
  have inv': "ftl_invariant c s'"
    unfolding s'_def using assms(1,2,4,6) by (rule invariant_shuffled)
  have eq: "logical_to_emptiness s1 = logical_to_emptiness s" "erase_count s1 = cnt"
    "logical_to_physical s1 = (logical_to_physical s)[lbm := int L - int lbm]"
    "data_to_log s1 = (data_to_log s)[D := 0]"
    "log_to_pages s1 = (log_to_pages s)(L * BLOCK_SIZE c := None)" "op_blocks s1 = []"
    "start_time s1 = start_time s" "controller_issued s1 = controller_issued s @ es"
    by (simp_all add: s1_def s'_def L_def)
  have eq': "erase_count s1 = erase_count s'" "logical_to_physical s1 = logical_to_physical s'"
    "data_to_log s1 = data_to_log s'" "op_blocks s' = [M * BLOCK_SIZE c]"
    by (simp_all add: s1_def s'_def M_def assms(3))
  have "ftl_invariant c s1"
    unfolding s1_def using inv' by (rule invariant_pool_sub) simp_all
  moreover have "progress c s s1"
    using assms(6,5) eq(2,8) by (rule progress_worn)
  moreover have "free_block c s1 (M * BLOCK_SIZE c)"
  proof -
    have "free_block c s' (M * BLOCK_SIZE c)"
      using ftl_invariantD(4) [OF inv'] by (simp add: inv_pool_def eq')
    moreover have "erase_count s1 ! (M * BLOCK_SIZE c div BLOCK_SIZE c) =
        erase_count s' ! (M * BLOCK_SIZE c div BLOCK_SIZE c)"
      by (simp only: eq')
    ultimately show ?thesis
      by (simp only: free_block_cong [OF eq'(2,3)])
  qed
  moreover have "data_to_log s1 ! d = data_to_log s ! d \<and>
        log_to_pages s1 (log_block s d * BLOCK_SIZE c) = log_to_pages s (log_block s d * BLOCK_SIZE c) \<and>
        erase_count s1 ! d = erase_count s ! d \<and>
        erase_count s1 ! log_block s d = erase_count s ! log_block s d \<and>
        (\<forall>i < NUM_OF_LGC_B c. data_block s i = d \<longrightarrow>
           logical_to_physical s1 ! i = logical_to_physical s ! i)"
    if d: "d < NUM_OF_PHY_B c" and nz: "data_to_log s ! d \<noteq> 0"
      and over: "BLOCK_ERASES c \<le> erase_count s ! d \<or> BLOCK_ERASES c \<le> erase_count s ! log_block s d"
    for d
  proof -
    have dD': "d \<noteq> D"
      using over cD cL by (auto simp: L_def)
    have lne: "log_block s d \<noteq> L"
      using inv_logD(6) [OF inv(3) d nz D dD] dD' by (auto simp: L_def)
    have lb: "log_block s d < NUM_OF_PHY_B c"
      using inv(3) d nz by (rule inv_logD)
    note nw = pair_not_wearable [OF inv(2,3) d nz over]
    have "cnt ! d = erase_count s ! d"
      using assms(6) _ nw(1) by (rule worn_same) (simp add: len d)
    moreover have "cnt ! log_block s d = erase_count s ! log_block s d"
      using assms(6) _ nw(2) by (rule worn_same) (simp add: len lb)
    moreover have "logical_to_physical s1 ! i = logical_to_physical s ! i"
      if "i < NUM_OF_LGC_B c" "data_block s i = d" for i
    proof -
      from that(2) nz dM have "i \<noteq> lbm"
        by (auto simp: M_def)
      then show ?thesis
        by (simp add: eq)
    qed
    ultimately show ?thesis
      using dD' lne B by (simp add: eq)
  qed
  moreover have "logical_to_physical s1 ! i = logical_to_physical s ! i \<or>
        Some (M * BLOCK_SIZE c) = Some (data_block s i * BLOCK_SIZE c)" for i
    by (cases "i = lbm") (simp_all add: eq M_def)
  ultimately show ?thesis
    unfolding s1_def [symmetric] s'_def [symmetric] M_def [symmetric] handed_def
    by (simp add: eq)
qed

lemma next_unmapped_spec:
  assumes "valid_config c" and "ftl_invariant c s"
  shows "\<exists>r s1. next_unmapped_log_block c s = Some (r, s1) \<and> handed c s r s1"
proof (cases "op_blocks s = []")
  case False
  note inv = ftl_invariantD [OF assms(2)]
  note len = tables_allocatedD [OF inv(1)]
  have "free_block c s (last (op_blocks s))"
    using inv(4) False by (simp add: inv_pool_def)
  then have "last (op_blocks s) div BLOCK_SIZE c < length (erase_count s)"
    and "erase_count s ! (last (op_blocks s) div BLOCK_SIZE c) < BLOCK_ERASES c"
    by (simp_all add: free_block_def len)
  with False have "next_unmapped_log_block c s =
      Some (Some (last (op_blocks s)), s\<lparr>op_blocks := butlast (op_blocks s)\<rparr>)"
    by (simp add: next_unmapped_log_block_def pop_log_block_top del: pop_log_block.simps)
  with handed_pop [OF assms(2) False] show ?thesis
    by (intro exI conjI)
next
  case True
  from shuffle_spec [OF assms] obtain ok s' where
    sh: "shuffle_data_log c s = Some (ok, s')"
    and sh': "if ok then \<exists>D lbm es cnt. shuffle_pair c s D lbm \<and> targets_below c (erase_count s) es \<and>
                  worn c s cnt \<and> s' = shuffled c s D lbm es cnt
       else s' = s"
    by (elim exE conjE) (rule that)
  show ?thesis
  proof (cases ok)
    case no: False
    with sh' have "s' = s"
      by simp
    with sh no True have "next_unmapped_log_block c s = Some (None, s)"
      by (simp add: next_unmapped_log_block_def del: pop_log_block.simps)
    moreover have "handed c s None s"
      unfolding handed_def using assms(2) progress_same [of s s c] by simp
    ultimately show ?thesis
      by (intro exI conjI)
  next
    case yes: True
    with sh' obtain D lbm es cnt where pair: "shuffle_pair c s D lbm"
      and tb: "targets_below c (erase_count s) es" and worn: "worn c s cnt"
      and s': "s' = shuffled c s D lbm es cnt"
      by (simp only: if_True) (elim exE conjE, rule that)
    define M where "M = data_block s lbm"
    have inv': "ftl_invariant c s'"
      unfolding s' using assms pair worn by (rule invariant_shuffled)
    have pool: "op_blocks s' = [M * BLOCK_SIZE c]"
      by (simp add: s' True M_def)
    have "free_block c s' (M * BLOCK_SIZE c)"
      using ftl_invariantD(4) [OF inv'] by (simp add: inv_pool_def pool)
    then have idx: "M * BLOCK_SIZE c div BLOCK_SIZE c < length (erase_count s')"
      and less: "erase_count s' ! (M * BLOCK_SIZE c div BLOCK_SIZE c) < BLOCK_ERASES c"
      using tables_allocatedD(2) [OF ftl_invariantD(1) [OF inv']] by (simp_all add: free_block_def)
    have "next_unmapped_log_block c s = pop_log_block c 0 s'"
      using True sh yes by (simp add: next_unmapped_log_block_def del: pop_log_block.simps)
    also have "\<dots> = Some (Some (M * BLOCK_SIZE c), s'\<lparr>op_blocks := []\<rparr>)"
      using pop_log_block_single [OF pool idx] less by simp
    finally have "next_unmapped_log_block c s =
        Some (Some (data_block s lbm * BLOCK_SIZE c), (shuffled c s D lbm es cnt)\<lparr>op_blocks := []\<rparr>)"
      by (simp only: M_def s')
    with handed_shuffled [OF assms True pair tb worn] show ?thesis
      by (intro exI conjI)
  qed
qed

subsection \<open>Moving a pair to a new data block\<close>

lemma remap_data_copy_step:
  assumes "check_page_empty a (lb + j) = Some e" and "fetch_log_page str j = Some r"
  shows "remap_data_copy c lb old des (Some str) j a =
    Some (if \<not> e \<and> r = None
          then issue (Event WRITE (lb + j) 1 (start_time a) (page_address c des j))
                 (issue (Event READ (lb + j) 1 (start_time a) (page_address c old j)) a)
          else a)"
  using assms by (cases e; cases r) (simp_all add: remap_data_copy_def deref_def Let_def)

lemma remap_data_copy_loop:
  assumes "valid_config c" and "tables_allocated c s" and "inv_manifests c s"
    and "i < NUM_OF_LGC_B c" and "log_to_pages s k = Some str"
    and "logical_to_emptiness s0 = logical_to_emptiness s"
    and "des div BLOCK_SIZE c < NUM_OF_PHY_B c" and "cnt ! (des div BLOCK_SIZE c) < BLOCK_ERASES c"
  shows "\<exists>s'. for_loop [0..<BLOCK_SIZE c] (remap_data_copy c (i * BLOCK_SIZE c) old des (Some str)) s0 = Some s' \<and>
     (\<exists>es. s' = s0\<lparr>controller_issued := controller_issued s0 @ es\<rparr> \<and> targets_below c cnt es)"
proof (rule for_loop_defined [where P = "\<lambda>a. \<exists>es. a = s0\<lparr>controller_issued := controller_issued s0 @ es\<rparr> \<and>
    targets_below c cnt es"])
  show "\<exists>es. s0 = s0\<lparr>controller_issued := controller_issued s0 @ es\<rparr> \<and> targets_below c cnt es"
    by (intro exI [of _ "[]"]) simp
next
  fix j and a :: ftl
  assume j: "j \<in> set [0..<BLOCK_SIZE c]"
    and "\<exists>es. a = s0\<lparr>controller_issued := controller_issued s0 @ es\<rparr> \<and> targets_below c cnt es"
  then obtain es where a: "a = s0\<lparr>controller_issued := controller_issued s0 @ es\<rparr>"
    and es: "targets_below c cnt es"
    by (elim exE conjE)
  have l2e: "logical_to_emptiness a = logical_to_emptiness s"
    by (simp add: a assms(6))
  from page_defined_in_loop [OF assms(1,2,4) j l2e]
  obtain e where e: "check_page_empty a (i * BLOCK_SIZE c + j) = Some e" ..
  from manifest_fetch_defined [OF assms(1,3,5), where d = j]
  obtain r where r: "fetch_log_page str j = Some r"
    by (elim exE conjE) (rule that)
  let ?ev = "[Event READ (i * BLOCK_SIZE c + j) 1 (start_time s0) (page_address c old j),
              Event WRITE (i * BLOCK_SIZE c + j) 1 (start_time s0) (page_address c des j)]"
  have ev: "targets_below c cnt ?ev"
    using assms(1,7,8) by (simp add: targets_below_def Event_def physical_block_address)
  show "\<exists>a'. remap_data_copy c (i * BLOCK_SIZE c) old des (Some str) j a = Some a' \<and>
      (\<exists>es. a' = s0\<lparr>controller_issued := controller_issued s0 @ es\<rparr> \<and> targets_below c cnt es)"
  proof (cases "\<not> e \<and> r = None")
    case True
    have "remap_data_copy c (i * BLOCK_SIZE c) old des (Some str) j a =
        Some (s0\<lparr>controller_issued := controller_issued s0 @ (es @ ?ev)\<rparr>)"
      unfolding remap_data_copy_step [OF e r] using True by (simp add: issue_def a)
    moreover have "targets_below c cnt (es @ ?ev)"
      using es ev by (simp only: targets_below_append simp_thms)
    ultimately show ?thesis
      by blast
  next
    case False
    have "remap_data_copy c (i * BLOCK_SIZE c) old des (Some str) j a = Some a"
      unfolding remap_data_copy_step [OF e r] using False by auto
    with a es show ?thesis
      by blast
  qed
qed

lemma invariant_moved_pair:
  assumes "valid_config c" and "ftl_invariant c s" and "i < NUM_OF_LGC_B c"
    and dD: "data_to_log s ! data_block s i \<noteq> 0"
    and N: "N < NUM_OF_PHY_B c"
    and nolog: "\<forall>d < NUM_OF_PHY_B c. data_to_log s ! d \<noteq> 0 \<longrightarrow> log_block s d \<noteq> N"
    and pool: "\<forall>q \<in> set (op_blocks s'). q div BLOCK_SIZE c \<noteq> N"
    and sub: "distinct (op_blocks s')" "set (op_blocks s') \<subseteq> set (op_blocks s)"
    and data: "inv_data c s'" "data_block s' i = N"
    and others: "\<forall>k < NUM_OF_LGC_B c. k \<noteq> i \<longrightarrow> data_block s' k = data_block s k \<or>
        (\<not> logical_block_written c s k \<and> data_block s' k = data_block s i)"
    and fields: "length (logical_to_physical s') = length (logical_to_physical s)"
      "data_to_log s' = (data_to_log s)[data_block s i := 0,
          N := int (log_block s (data_block s i)) - int N]"
      "logical_to_emptiness s' = logical_to_emptiness s" "log_to_pages s' = log_to_pages s"
      "erase_count s' = erase_count s"
  shows "ftl_invariant c s'"
proof -
  note inv = ftl_invariantD [OF assms(2)]
  note len = tables_allocatedD [OF inv(1)]
  have B: "0 < BLOCK_SIZE c"
    using assms(1) by (rule valid_config_facts)
  define D where "D = data_block s i"
  define L where "L = log_block s D"
  have D: "D < NUM_OF_PHY_B c"
    unfolding D_def using inv(2) assms(3) by (rule inv_dataD)
  have dD': "data_to_log s ! D \<noteq> 0"
    using dD by (simp add: D_def)
  have L: "L < NUM_OF_PHY_B c"
    unfolding L_def using inv(3) D dD' by (rule inv_logD)
  have LN: "L \<noteq> N"
    using nolog D dD' by (auto simp: L_def)
  have wr: "logical_block_written c s i"
    using inv(2,3) assms(3) D dD' unfolding D_def by (rule written_data_block)
  have d2l: "data_to_log s' ! d = (if d = N then int L - int N else if d = D then 0 else data_to_log s ! d)"
    if "d < NUM_OF_PHY_B c" for d
    using that N D len(4) by (simp add: fields(2) D_def [symmetric] L_def [symmetric] nth_list_update)
  have pair: "d = N \<or> (d \<noteq> N \<and> d \<noteq> D \<and> data_to_log s ! d \<noteq> 0)"
    if "d < NUM_OF_PHY_B c" "data_to_log s' ! d \<noteq> 0" for d
    using d2l [OF that(1)] that(2) by (auto split: if_splits)
  have lgN: "log_block s' N = L"
    using d2l [OF N] by (simp add: log_block_def)
  have lg: "log_block s' d = log_block s d" if "d < NUM_OF_PHY_B c" "d \<noteq> D" "d \<noteq> N" for d
    using d2l [OF that(1)] that(2,3) by (simp add: log_block_def)
  have lbw: "logical_block_written c s' = logical_block_written c s"
    by (rule logical_block_written_cong) (rule fields(3))
  have nlog: "data_block s' k \<noteq> log_block s d"
    if "k < NUM_OF_LGC_B c" "d < NUM_OF_PHY_B c" "data_to_log s ! d \<noteq> 0" for k d
  proof (cases "k = i")
    case True
    then show ?thesis
      using data(2) nolog that by auto
  next
    case False
    with others that(1) consider "data_block s' k = data_block s k" | "data_block s' k = data_block s i"
      by blast
    then show ?thesis
    proof cases
      case 1
      with inv_logD(4) [OF inv(3) that(2,3) that(1)] show ?thesis by simp
    next
      case 2
      with inv_logD(4) [OF inv(3) that(2,3) assms(3)] show ?thesis by simp
    qed
  qed
  have "tables_allocated c s'"
    using inv(1) by (simp add: tables_allocated_def fields)
  moreover have "inv_log c s'"
    unfolding inv_log_def
  proof (intro conjI allI impI)
    fix d assume d: "d < NUM_OF_PHY_B c" and nz: "data_to_log s' ! d \<noteq> 0"
    from pair [OF d nz] consider (new) "d = N" | (old) "d \<noteq> N" "d \<noteq> D" "data_to_log s ! d \<noteq> 0"
      by blast
    then have "0 \<le> int d + data_to_log s' ! d \<and> log_block s' d < NUM_OF_PHY_B c \<and>
      (\<exists>i<NUM_OF_LGC_B c. data_block s' i = d \<and> logical_block_written c s' i) \<and>
      log_to_pages s' (log_block s' d * BLOCK_SIZE c) \<noteq> None"
    proof cases
      case new
      have "0 \<le> int N + data_to_log s' ! N"
        using d2l [OF N] by simp
      moreover have "\<exists>i<NUM_OF_LGC_B c. data_block s' i = N \<and> logical_block_written c s' i"
        using assms(3) data(2) wr by (intro exI [of _ i]) (simp add: lbw)
      moreover have "log_to_pages s' (L * BLOCK_SIZE c) \<noteq> None"
        unfolding fields(4) L_def using inv(3) D dD' by (rule inv_logD)
      ultimately show ?thesis
        using L by (simp add: new lgN)
    next
      case old
      note o = inv_logD [OF inv(3) d old(3)]
      from o(3) obtain k where k: "k < NUM_OF_LGC_B c" "data_block s k = d" "logical_block_written c s k"
        by (elim exE conjE) (rule that)
      from k(2) old(2) have "k \<noteq> i"
        by (auto simp: D_def)
      with others k(1,3) have "data_block s' k = data_block s k"
        by blast
      with k have "\<exists>i<NUM_OF_LGC_B c. data_block s' i = d \<and> logical_block_written c s' i"
        by (intro exI [of _ k]) (simp add: lbw)
      then show ?thesis
        using o(1,2,5) old d2l [OF d] by (simp add: lg [OF d old(2,1)] fields(4))
    qed
    then show "0 \<le> int d + data_to_log s' ! d" "log_block s' d < NUM_OF_PHY_B c"
      "\<exists>i<NUM_OF_LGC_B c. data_block s' i = d \<and> logical_block_written c s' i"
      "log_to_pages s' (log_block s' d * BLOCK_SIZE c) \<noteq> None"
      by simp_all
  next
    fix d k assume d: "d < NUM_OF_PHY_B c" and nz: "data_to_log s' ! d \<noteq> 0" and k: "k < NUM_OF_LGC_B c"
    from pair [OF d nz] consider (new) "d = N" | (old) "d \<noteq> N" "d \<noteq> D" "data_to_log s ! d \<noteq> 0"
      by blast
    then show "data_block s' k \<noteq> log_block s' d"
    proof cases
      case new
      from nlog [OF k D dD'] show ?thesis
        by (simp add: new lgN L_def)
    next
      case old
      from nlog [OF k d old(3)] show ?thesis
        by (simp add: lg [OF d old(2,1)])
    qed
  next
    fix d d' assume d: "d < NUM_OF_PHY_B c" and d': "d' < NUM_OF_PHY_B c"
      and nz: "data_to_log s' ! d \<noteq> 0" and nz': "data_to_log s' ! d' \<noteq> 0"
      and eq: "log_block s' d = log_block s' d'"
    have other: False if "x < NUM_OF_PHY_B c" "x \<noteq> N" "x \<noteq> D" "data_to_log s ! x \<noteq> 0"
      "log_block s x = L" for x
      using inv_logD(6) [OF inv(3) that(1,4) D dD'] that(3,5) by (simp add: L_def)
    from pair [OF d nz] pair [OF d' nz'] show "d = d'"
    proof (elim disjE conjE)
      assume "d = N" "d' = N"
      then show ?thesis by simp
    next
      assume *: "d = N" "d' \<noteq> N" "d' \<noteq> D" "data_to_log s ! d' \<noteq> 0"
      with eq have "log_block s d' = L"
        by (simp add: lgN lg [OF d'])
      with other [OF d' *(2-4)] show ?thesis by simp
    next
      assume *: "d' = N" "d \<noteq> N" "d \<noteq> D" "data_to_log s ! d \<noteq> 0"
      with eq have "log_block s d = L"
        by (simp add: lgN lg [OF d])
      with other [OF d *(2-4)] show ?thesis by simp
    next
      assume *: "d \<noteq> N" "d \<noteq> D" "data_to_log s ! d \<noteq> 0" "d' \<noteq> N" "d' \<noteq> D" "data_to_log s ! d' \<noteq> 0"
      with eq have "log_block s d = log_block s d'"
        by (simp add: lg [OF d] lg [OF d'])
      with inv(3) d *(3) d' *(6) show ?thesis
        by (rule inv_logD(6))
    qed
  qed
  moreover have "inv_pool c s'"
    unfolding inv_pool_def
  proof (intro conjI ballI)
    show "distinct (op_blocks s')"
      by (rule sub)
    fix p assume p: "p \<in> set (op_blocks s')"
    with sub(2) inv(4) have f: "free_block c s p"
      by (auto simp: inv_pool_def)
    show "free_block c s' p"
      unfolding free_block_def
    proof (intro conjI allI impI)
      show "BLOCK_SIZE c dvd p" "p div BLOCK_SIZE c < NUM_OF_PHY_B c"
        "erase_count s' ! (p div BLOCK_SIZE c) < BLOCK_ERASES c"
        using f by (simp_all add: free_block_def fields(5))
    next
      fix k assume k: "k < NUM_OF_LGC_B c"
      show "data_block s' k \<noteq> p div BLOCK_SIZE c"
      proof (cases "k = i")
        case True
        with pool p data(2) show ?thesis by auto
      next
        case False
        with others k consider "data_block s' k = data_block s k" | "data_block s' k = data_block s i"
          by blast
        then show ?thesis
          using f k assms(3) by cases (auto simp: free_block_def)
      qed
    next
      fix d assume d: "d < NUM_OF_PHY_B c" and nz: "data_to_log s' ! d \<noteq> 0"
      from pair [OF d nz] consider (new) "d = N" | (old) "d \<noteq> N" "d \<noteq> D" "data_to_log s ! d \<noteq> 0"
        by blast
      then show "log_block s' d \<noteq> p div BLOCK_SIZE c"
      proof cases
        case new
        from f D dD' show ?thesis
          by (auto simp: free_block_def new lgN L_def)
      next
        case old
        from f d old(3) show ?thesis
          by (auto simp: free_block_def lg [OF d old(2,1)])
      qed
    qed
  qed
  moreover have "inv_manifests c s'"
    using inv(5) by (simp add: inv_manifests_def fields(4))
  moreover have "inv_counts c s'"
    using inv(6) by (simp add: inv_counts_def fields(5))
  ultimately show ?thesis
    using data(1) by (simp add: ftl_invariant_def)
qed

lemma progress_events:
  assumes "erase_count s' = erase_count s" and "controller_issued s' = controller_issued s @ es"
    and "targets_below c (erase_count s) es"
  shows "progress c s s'"
  unfolding progress_def using assms by (intro conjI allI impI exI [of _ es]) simp_all

lemma remap_data_spec:
  assumes "valid_config c" and "ftl_invariant c s" and "i < NUM_OF_LGC_B c"
    and "data_to_log s ! data_block s i \<noteq> 0"
    and "BLOCK_ERASES c \<le> erase_count s ! data_block s i"
  shows "\<exists>new s'. remap_data_block c (i * BLOCK_SIZE c) (data_block s i * BLOCK_SIZE c)
        (log_block s (data_block s i) * BLOCK_SIZE c) s = Some (new, s') \<and>
     (new = log_block s (data_block s i) * BLOCK_SIZE c \<and> s' = s \<or>
      new \<noteq> log_block s (data_block s i) * BLOCK_SIZE c \<and> new = data_block s' i * BLOCK_SIZE c \<and>
      ftl_invariant c s' \<and> progress c s s' \<and>
      logical_to_emptiness s' = logical_to_emptiness s \<and> start_time s' = start_time s \<and>
      data_to_log s' ! data_block s' i \<noteq> 0 \<and>
      log_block s' (data_block s' i) = log_block s (data_block s i) \<and>
      erase_count s' ! data_block s' i < BLOCK_ERASES c \<and>
      erase_count s' ! log_block s (data_block s i) = erase_count s ! log_block s (data_block s i))"
proof -
  note inv = ftl_invariantD [OF assms(2)]
  note len = tables_allocatedD [OF inv(1)]
  have B: "0 < BLOCK_SIZE c"
    using assms(1) by (rule valid_config_facts)
  define D where "D = data_block s i"
  define L where "L = log_block s D"
  have D: "D < NUM_OF_PHY_B c"
    unfolding D_def using inv(2) assms(3) by (rule inv_dataD)
  have dD: "data_to_log s ! D \<noteq> 0"
    using assms(4) by (simp add: D_def)
  have capD: "BLOCK_ERASES c \<le> erase_count s ! D"
    using assms(5) by (simp add: D_def)
  have L: "L < NUM_OF_PHY_B c"
    unfolding L_def using inv(3) D dD by (rule inv_logD)
  have "log_to_pages s (L * BLOCK_SIZE c) \<noteq> None"
    unfolding L_def using inv(3) D dD by (rule inv_logD)
  then obtain str where man: "log_to_pages s (L * BLOCK_SIZE c) = Some str"
    by blast
  have wr: "logical_block_written c s i"
    using inv(2,3) assms(3) D dD unfolding D_def by (rule written_data_block)
  have DL: "D \<noteq> L"
    using inv_logD(4) [OF inv(3) D dD assms(3)] by (simp add: D_def L_def)
  from find_empty_spec [OF assms(1) inv(1,2)] obtain r where
    fe: "find_empty_data_block_for_remapping c s = Some r"
    and r: "case r of
       None \<Rightarrow> \<forall>i < NUM_OF_LGC_B c. logical_block_written c s i \<or>
                  BLOCK_ERASES c \<le> erase_count s ! data_block s i
     | Some (d, lb) \<Rightarrow> \<exists>i < NUM_OF_LGC_B c. d = data_block s i * BLOCK_SIZE c \<and> lb = i * BLOCK_SIZE c \<and>
                  \<not> logical_block_written c s i \<and> erase_count s ! data_block s i < BLOCK_ERASES c"
    by (elim exE conjE) (rule that)
  show ?thesis
    unfolding D_def [symmetric] L_def [symmetric]
  proof (cases r)
    case (Some found)
    with r obtain e where e: "e < NUM_OF_LGC_B c"
      and found: "found = (data_block s e * BLOCK_SIZE c, e * BLOCK_SIZE c)"
      and nw: "\<not> logical_block_written c s e"
      and cN: "erase_count s ! data_block s e < BLOCK_ERASES c"
      by (cases found) auto
    define N where "N = data_block s e"
    have N: "N < NUM_OF_PHY_B c"
      unfolding N_def using inv(2) e by (rule inv_dataD)
    have ei: "e \<noteq> i"
      using wr nw by auto
    have ND: "N \<noteq> D"
      using inv_dataD(3) [OF inv(2) e assms(3)] ei by (auto simp: N_def D_def)
    have NL: "N \<noteq> L"
      using inv_logD(4) [OF inv(3) D dD e] by (simp add: N_def L_def)
    from remap_data_copy_loop [OF assms(1) inv(1,5) assms(3) man refl, of "N * BLOCK_SIZE c" "erase_count s"
        "D * BLOCK_SIZE c"] N cN B
    obtain es where loop: "for_loop [0..<BLOCK_SIZE c]
        (remap_data_copy c (i * BLOCK_SIZE c) (D * BLOCK_SIZE c) (N * BLOCK_SIZE c) (Some str)) s =
        Some (s\<lparr>controller_issued := controller_issued s @ es\<rparr>)"
      and es: "targets_below c (erase_count s) es"
      by (auto simp: N_def)
    define s2 where "s2 = s\<lparr>controller_issued := controller_issued s @ es\<rparr>"
    define s3 where "s3 = s2\<lparr>logical_to_physical := (logical_to_physical s2)[e := int D - int e]\<rparr>"
    define s4 where "s4 = s3\<lparr>logical_to_physical := (logical_to_physical s3)[i := int N - int i]\<rparr>"
    define s5 where "s5 = s4\<lparr>data_to_log := (data_to_log s4)[D := int D - int D]\<rparr>"
    define s6 where "s6 = s5\<lparr>data_to_log := (data_to_log s5)[N := int L - int N]\<rparr>"
    have p1: "set_physical_address c (e * BLOCK_SIZE c) (D * BLOCK_SIZE c) s2 = Some s3"
      unfolding s3_def using assms(1) by (rule set_physical_address_eq) (simp add: s2_def len e)
    have p2: "set_physical_address c (i * BLOCK_SIZE c) (N * BLOCK_SIZE c) s3 = Some s4"
      unfolding s4_def using assms(1) by (rule set_physical_address_eq) (simp add: s3_def s2_def len assms(3))
    have q1: "set_log_block c (D * BLOCK_SIZE c) (D * BLOCK_SIZE c) s4 = Some s5"
      unfolding s5_def using assms(1) by (rule set_log_block_eq) (simp add: s4_def s3_def s2_def len D)
    have q2: "set_log_block c (N * BLOCK_SIZE c) (L * BLOCK_SIZE c) s5 = Some s6"
      unfolding s6_def using assms(1)
      by (rule set_log_block_eq) (simp add: s5_def s4_def s3_def s2_def len N)
    have ne: "e * BLOCK_SIZE c \<noteq> RAW_SIZE c"
      using logical_block_below_raw [OF assms(1) e] by simp
    have run: "remap_data_block c (i * BLOCK_SIZE c) (D * BLOCK_SIZE c) (L * BLOCK_SIZE c) s =
        Some (N * BLOCK_SIZE c, s6)"
      by (simp add: remap_data_block_def fe Some found man N_def [symmetric] loop
          s2_def [symmetric] ne p1 p2 q1 q2)
    have f: "logical_to_physical s6 = (logical_to_physical s)[e := int D - int e, i := int N - int i]"
      "data_to_log s6 = (data_to_log s)[D := 0, N := int L - int N]"
      "logical_to_emptiness s6 = logical_to_emptiness s" "log_to_pages s6 = log_to_pages s"
      "erase_count s6 = erase_count s" "op_blocks s6 = op_blocks s" "start_time s6 = start_time s"
      "controller_issued s6 = controller_issued s @ es"
      by (simp_all add: s6_def s5_def s4_def s3_def s2_def)
    have db: "data_block s6 k = (if k = i then N else if k = e then D else data_block s k)"
      if "k < NUM_OF_LGC_B c" for k
      using that e assms(3) ei by (simp add: data_block_def f(1) len(3))
    have idata: "inv_data c s6"
      unfolding inv_data_def
    proof (intro conjI allI impI)
      fix k assume k: "k < NUM_OF_LGC_B c"
      show "0 \<le> int k + logical_to_physical s6 ! k"
        using inv_dataD(1) [OF inv(2) k] k e assms(3) by (simp add: f(1) len(3) nth_list_update)
      show "data_block s6 k < NUM_OF_PHY_B c"
        using inv_dataD(2) [OF inv(2) k] N D by (simp add: db [OF k])
    next
      fix k j assume k: "k < NUM_OF_LGC_B c" and j: "j < NUM_OF_LGC_B c"
        and eq: "data_block s6 k = data_block s6 j"
      show "k = j"
        using eq inv_dataD(3) [OF inv(2) k j] inv_dataD(3) [OF inv(2) k e] inv_dataD(3) [OF inv(2) k assms(3)]
          inv_dataD(3) [OF inv(2) e j] inv_dataD(3) [OF inv(2) assms(3) j] ND
        by (simp add: db [OF k] db [OF j] N_def D_def split: if_splits)
    qed
    have Inv: "ftl_invariant c s6"
    proof (rule invariant_moved_pair [OF assms(1,2,3,4) N])
      show "\<forall>d<NUM_OF_PHY_B c. data_to_log s ! d \<noteq> 0 \<longrightarrow> log_block s d \<noteq> N"
      proof (intro allI impI)
        fix d assume "d < NUM_OF_PHY_B c" and "data_to_log s ! d \<noteq> 0"
        with inv(3) have "data_block s e \<noteq> log_block s d"
          using e by (rule inv_logD(4))
        then show "log_block s d \<noteq> N"
          by (auto simp: N_def)
      qed
      show "\<forall>q\<in>set (op_blocks s6). q div BLOCK_SIZE c \<noteq> N"
      proof
        fix q assume "q \<in> set (op_blocks s6)"
        with inv(4) have "free_block c s q"
          by (simp add: f(6) inv_pool_def)
        then have "\<forall>i<NUM_OF_LGC_B c. data_block s i \<noteq> q div BLOCK_SIZE c"
          by (simp add: free_block_def)
        with e show "q div BLOCK_SIZE c \<noteq> N"
          by (auto simp: N_def)
      qed
      show "distinct (op_blocks s6)" "set (op_blocks s6) \<subseteq> set (op_blocks s)"
        using inv(4) by (simp_all add: f(6) inv_pool_def)
      show "inv_data c s6"
        by (rule idata)
      show "data_block s6 i = N"
        by (simp add: db [OF assms(3)])
      show "\<forall>k<NUM_OF_LGC_B c. k \<noteq> i \<longrightarrow> data_block s6 k = data_block s k \<or>
          \<not> logical_block_written c s k \<and> data_block s6 k = data_block s i"
        using nw by (auto simp: db D_def)
      show "length (logical_to_physical s6) = length (logical_to_physical s)"
        by (simp add: f(1))
      show "data_to_log s6 = (data_to_log s)[data_block s i := 0,
          N := int (log_block s (data_block s i)) - int N]"
        by (simp add: f(2) D_def L_def)
      show "logical_to_emptiness s6 = logical_to_emptiness s" "log_to_pages s6 = log_to_pages s"
        "erase_count s6 = erase_count s"
        by (rule f)+
    qed
    have d2lN: "data_to_log s6 ! N = int L - int N"
      using N by (simp add: f(2) len(4))
    have post: "N * BLOCK_SIZE c \<noteq> L * BLOCK_SIZE c" "N * BLOCK_SIZE c = data_block s6 i * BLOCK_SIZE c"
      "progress c s s6" "data_to_log s6 ! data_block s6 i \<noteq> 0"
      "log_block s6 (data_block s6 i) = L" "erase_count s6 ! data_block s6 i < BLOCK_ERASES c"
      "erase_count s6 ! L = erase_count s ! L"
      using NL B cN progress_events [OF f(5,8) es]
      by (simp_all add: db [OF assms(3)] d2lN log_block_def f(5) N_def [symmetric])
    show "\<exists>new s'. remap_data_block c (i * BLOCK_SIZE c) (D * BLOCK_SIZE c) (L * BLOCK_SIZE c) s =
        Some (new, s') \<and>
       (new = L * BLOCK_SIZE c \<and> s' = s \<or>
        new \<noteq> L * BLOCK_SIZE c \<and> new = data_block s' i * BLOCK_SIZE c \<and>
        ftl_invariant c s' \<and> progress c s s' \<and>
        logical_to_emptiness s' = logical_to_emptiness s \<and> start_time s' = start_time s \<and>
        data_to_log s' ! data_block s' i \<noteq> 0 \<and> log_block s' (data_block s' i) = L \<and>
        erase_count s' ! data_block s' i < BLOCK_ERASES c \<and> erase_count s' ! L = erase_count s ! L)"
      using run Inv post f(3,7) by (intro exI [of _ "N * BLOCK_SIZE c"] exI [of _ s6]) simp
  next
    case None
    from next_unmapped_spec [OF assms(1,2)] obtain r' s1 where
      nu: "next_unmapped_log_block c s = Some (r', s1)" and h: "handed c s r' s1"
      by (elim exE conjE) (rule that)
    show "\<exists>new s'. remap_data_block c (i * BLOCK_SIZE c) (D * BLOCK_SIZE c) (L * BLOCK_SIZE c) s =
        Some (new, s') \<and>
       (new = L * BLOCK_SIZE c \<and> s' = s \<or>
        new \<noteq> L * BLOCK_SIZE c \<and> new = data_block s' i * BLOCK_SIZE c \<and>
        ftl_invariant c s' \<and> progress c s s' \<and>
        logical_to_emptiness s' = logical_to_emptiness s \<and> start_time s' = start_time s \<and>
        data_to_log s' ! data_block s' i \<noteq> 0 \<and> log_block s' (data_block s' i) = L \<and>
        erase_count s' ! data_block s' i < BLOCK_ERASES c \<and> erase_count s' ! L = erase_count s ! L)"
    proof (cases r')
      case None
      with h have "s1 = s"
        by (simp add: handed_def)
      then have "remap_data_block c (i * BLOCK_SIZE c) (D * BLOCK_SIZE c) (L * BLOCK_SIZE c) s =
          Some (L * BLOCK_SIZE c, s)"
        by (simp add: remap_data_block_def fe \<open>r = None\<close> nu None)
      then show ?thesis
        by simp
    next
      case (Some P)
      from h have Inv1: "ftl_invariant c s1" and pr1: "progress c s s1"
        and l2e1: "logical_to_emptiness s1 = logical_to_emptiness s"
        and st1: "start_time s1 = start_time s"
        and free: "free_block c s1 P" and out: "P \<notin> set (op_blocks s1)"
        by (simp_all add: handed_def Some)
      from h D dD capD have kept: "data_to_log s1 ! D = data_to_log s ! D"
        "log_to_pages s1 (L * BLOCK_SIZE c) = log_to_pages s (L * BLOCK_SIZE c)"
        "erase_count s1 ! D = erase_count s ! D" "erase_count s1 ! L = erase_count s ! L"
        "logical_to_physical s1 ! i = logical_to_physical s ! i"
        using assms(3) unfolding handed_def L_def D_def by blast+
      note inv1 = ftl_invariantD [OF Inv1]
      note len1 = tables_allocatedD [OF inv1(1)]
      define p where "p = P div BLOCK_SIZE c"
      have P: "P = p * BLOCK_SIZE c"
        using free by (simp add: free_block_def p_def)
      have p: "p < NUM_OF_PHY_B c" and cp: "erase_count s1 ! p < BLOCK_ERASES c"
        and pdata: "\<forall>k < NUM_OF_LGC_B c. data_block s1 k \<noteq> p"
        and plog: "\<forall>d < NUM_OF_PHY_B c. data_to_log s1 ! d \<noteq> 0 \<longrightarrow> log_block s1 d \<noteq> p"
        using free by (simp_all add: free_block_def p_def)
      have D1: "data_block s1 i = D"
        by (simp add: data_block_def kept(5) D_def)
      have L1: "log_block s1 D = L"
        by (simp add: log_block_def kept(1) L_def)
      have dD1: "data_to_log s1 ! D \<noteq> 0"
        using dD by (simp add: kept(1))
      have man1: "log_to_pages s1 (L * BLOCK_SIZE c) = Some str"
        by (simp add: kept(2) man)
      have pL: "p \<noteq> L"
        using plog D dD1 L1 by auto
      have pD: "p \<noteq> D"
        using pdata assms(3) D1 by auto
      from remap_data_copy_loop [OF assms(1) inv1(1,5) assms(3) man1 refl, of "p * BLOCK_SIZE c"
          "erase_count s1" "D * BLOCK_SIZE c"] p cp B
      obtain es where loop: "for_loop [0..<BLOCK_SIZE c]
          (remap_data_copy c (i * BLOCK_SIZE c) (D * BLOCK_SIZE c) (p * BLOCK_SIZE c) (Some str)) s1 =
          Some (s1\<lparr>controller_issued := controller_issued s1 @ es\<rparr>)"
        and es: "targets_below c (erase_count s1) es"
        by auto
      define s2 where "s2 = s1\<lparr>controller_issued := controller_issued s1 @ es\<rparr>"
      define s4 where "s4 = s2\<lparr>logical_to_physical := (logical_to_physical s2)[i := int p - int i]\<rparr>"
      define s5 where "s5 = s4\<lparr>data_to_log := (data_to_log s4)[D := int D - int D]\<rparr>"
      define s6 where "s6 = s5\<lparr>data_to_log := (data_to_log s5)[p := int L - int p]\<rparr>"
      have p2: "set_physical_address c (i * BLOCK_SIZE c) (p * BLOCK_SIZE c) s2 = Some s4"
        unfolding s4_def using assms(1) by (rule set_physical_address_eq) (simp add: s2_def len1 assms(3))
      have q1: "set_log_block c (D * BLOCK_SIZE c) (D * BLOCK_SIZE c) s4 = Some s5"
        unfolding s5_def using assms(1) by (rule set_log_block_eq) (simp add: s4_def s2_def len1 D)
      have q2: "set_log_block c (p * BLOCK_SIZE c) (L * BLOCK_SIZE c) s5 = Some s6"
        unfolding s6_def using assms(1)
        by (rule set_log_block_eq) (simp add: s5_def s4_def s2_def len1 p)
      have run: "remap_data_block c (i * BLOCK_SIZE c) (D * BLOCK_SIZE c) (L * BLOCK_SIZE c) s =
          Some (p * BLOCK_SIZE c, s6)"
        by (simp add: remap_data_block_def fe \<open>r = None\<close> nu Some P man1 loop
            s2_def [symmetric] p2 q1 q2)
      have f: "logical_to_physical s6 = (logical_to_physical s1)[i := int p - int i]"
        "data_to_log s6 = (data_to_log s1)[D := 0, p := int L - int p]"
        "logical_to_emptiness s6 = logical_to_emptiness s1" "log_to_pages s6 = log_to_pages s1"
        "erase_count s6 = erase_count s1" "op_blocks s6 = op_blocks s1" "start_time s6 = start_time s1"
        "controller_issued s6 = controller_issued s1 @ es"
        by (simp_all add: s6_def s5_def s4_def s2_def)
      have db: "data_block s6 k = (if k = i then p else data_block s1 k)" for k
        using assms(3) by (simp add: data_block_def f(1) len1(3) nth_list_update)
      have idata: "inv_data c s6"
        unfolding inv_data_def
      proof (intro conjI allI impI)
        fix k assume k: "k < NUM_OF_LGC_B c"
        show "0 \<le> int k + logical_to_physical s6 ! k"
          using inv_dataD(1) [OF inv1(2) k] k assms(3) by (cases "k = i") (simp_all add: f(1) len1(3))
        show "data_block s6 k < NUM_OF_PHY_B c"
          using inv_dataD(2) [OF inv1(2) k] p by (simp add: db)
      next
        fix k j assume k: "k < NUM_OF_LGC_B c" and j: "j < NUM_OF_LGC_B c"
          and eq: "data_block s6 k = data_block s6 j"
        show "k = j"
          using eq inv_dataD(3) [OF inv1(2) k j] pdata k j
          by (auto simp: db split: if_splits)
      qed
      have Inv: "ftl_invariant c s6"
      proof (rule invariant_moved_pair [OF assms(1) Inv1 assms(3) _ p])
        show "data_to_log s1 ! data_block s1 i \<noteq> 0"
          by (simp add: D1 dD1)
        show "\<forall>d<NUM_OF_PHY_B c. data_to_log s1 ! d \<noteq> 0 \<longrightarrow> log_block s1 d \<noteq> p"
          by (rule plog)
        show "\<forall>q\<in>set (op_blocks s6). q div BLOCK_SIZE c \<noteq> p"
        proof
          fix q assume q: "q \<in> set (op_blocks s6)"
          with inv1(4) have "BLOCK_SIZE c dvd q"
            by (simp add: f(6) inv_pool_def free_block_def)
          moreover from q out have "q \<noteq> P"
            by (auto simp: f(6))
          ultimately show "q div BLOCK_SIZE c \<noteq> p"
            using P by auto
        qed
        show "distinct (op_blocks s6)" "set (op_blocks s6) \<subseteq> set (op_blocks s1)"
          using inv1(4) by (simp_all add: f(6) inv_pool_def)
        show "inv_data c s6"
          by (rule idata)
        show "data_block s6 i = p"
          by (simp add: db)
        show "\<forall>k<NUM_OF_LGC_B c. k \<noteq> i \<longrightarrow> data_block s6 k = data_block s1 k \<or>
            \<not> logical_block_written c s1 k \<and> data_block s6 k = data_block s1 i"
          by (simp add: db)
        show "length (logical_to_physical s6) = length (logical_to_physical s1)"
          by (simp add: f(1))
        show "data_to_log s6 = (data_to_log s1)[data_block s1 i := 0,
            p := int (log_block s1 (data_block s1 i)) - int p]"
          by (simp add: f(2) D1 L1)
        show "logical_to_emptiness s6 = logical_to_emptiness s1" "log_to_pages s6 = log_to_pages s1"
          "erase_count s6 = erase_count s1"
          by (rule f)+
      qed
      have d2lp: "data_to_log s6 ! p = int L - int p"
        using p by (simp add: f(2) len1(4))
      have "progress c s1 s6"
        using f(5,8) es by (rule progress_events)
      with pr1 have pr: "progress c s s6"
        using len(2) by (rule progress_trans)
      have post: "p * BLOCK_SIZE c \<noteq> L * BLOCK_SIZE c" "p * BLOCK_SIZE c = data_block s6 i * BLOCK_SIZE c"
        "data_to_log s6 ! data_block s6 i \<noteq> 0"
        "log_block s6 (data_block s6 i) = L" "erase_count s6 ! data_block s6 i < BLOCK_ERASES c"
        "erase_count s6 ! L = erase_count s ! L"
        using pL B cp by (simp_all add: db d2lp log_block_def f(5) kept(4))
      show ?thesis
        using run Inv pr post f(3,7) l2e1 st1
        by (intro exI [of _ "p * BLOCK_SIZE c"] exI [of _ s6]) simp
    qed
  qed
qed

subsection \<open>Moving a pair to a new log block\<close>

lemma for_loop_indexed:
  assumes "P pre a"
    and "\<And>pre i a. P pre a \<Longrightarrow> i \<in> set is \<Longrightarrow> \<exists>a'. body i a = Some a' \<and> P (pre @ [i]) a'"
  shows "\<exists>a'. for_loop is body a = Some a' \<and> P (pre @ is) a'"
  using assms
proof (induction "is" arbitrary: pre a)
  case Nil
  then show ?case by simp
next
  case (Cons i "is")
  from Cons.prems(2) [OF Cons.prems(1), of i] obtain a1 where a1: "body i a = Some a1" "P (pre @ [i]) a1"
    by auto
  have "\<exists>a'. for_loop is body a1 = Some a' \<and> P ((pre @ [i]) @ is) a'"
  proof (rule Cons.IH [OF a1(2)])
    fix pre' j a'
    assume "P pre' a'" and "j \<in> set is"
    then show "\<exists>a''. body j a' = Some a'' \<and> P (pre' @ [j]) a''"
      using Cons.prems(2) [of pre' a' j] by simp
  qed
  with a1(1) show ?case
    by simp
qed

lemma remap_log_copy_step:
  assumes "check_page_empty a (lb + i) = Some e" and "fetch_log_page str i = Some r"
  shows "remap_log_copy c lb old new (Some str) i (j, offsets, a) =
    Some (case r of
            Some log_page \<Rightarrow>
              if e then (j, offsets, a)
              else (j + 1, offsets @ to_string i @ '','',
                    issue (Event WRITE (lb + i) 1 (start_time a) (page_address c new j))
                      (issue (Event READ (lb + i) 1 (start_time a) (page_address c old log_page)) a))
          | None \<Rightarrow> (j, offsets, a))"
  using assms by (cases e; cases r) (simp_all add: remap_log_copy_def deref_def Let_def)

lemma remap_log_copy_loop:
  assumes "valid_config c" and "tables_allocated c s" and "inv_manifests c s"
    and "i < NUM_OF_LGC_B c" and "log_to_pages s k = Some str"
    and "logical_to_emptiness s0 = logical_to_emptiness s"
    and "des div BLOCK_SIZE c < NUM_OF_PHY_B c" and "cnt ! (des div BLOCK_SIZE c) < BLOCK_ERASES c"
  shows "\<exists>j m es. for_loop [0..<BLOCK_SIZE c] (remap_log_copy c (i * BLOCK_SIZE c) old des (Some str))
        (0, [], s0) = Some (j, manifest_string m, s0\<lparr>controller_issued := controller_issued s0 @ es\<rparr>) \<and>
      length m \<le> BLOCK_SIZE c \<and> targets_below c cnt es"
proof -
  define P where "P = (\<lambda>pre (acc :: nat \<times> string \<times> ftl). \<exists>m es.
      acc = (length m, manifest_string m, s0\<lparr>controller_issued := controller_issued s0 @ es\<rparr>) \<and>
      length m \<le> length (pre :: nat list) \<and> targets_below c cnt es)"
  have "\<exists>acc. for_loop [0..<BLOCK_SIZE c] (remap_log_copy c (i * BLOCK_SIZE c) old des (Some str))
      (0, [], s0) = Some acc \<and> P ([] @ [0..<BLOCK_SIZE c]) acc"
  proof (rule for_loop_indexed [where P = P])
    show "P [] (0, [], s0)"
      unfolding P_def by (intro exI [of _ "[]"]) simp
  next
    fix pre j and acc :: "nat \<times> string \<times> ftl"
    assume "P pre acc" and j: "j \<in> set [0..<BLOCK_SIZE c]"
    then obtain m es where acc: "acc = (length m, manifest_string m,
        s0\<lparr>controller_issued := controller_issued s0 @ es\<rparr>)"
      and m: "length m \<le> length pre" and es: "targets_below c cnt es"
      unfolding P_def by (elim exE conjE)
    define a where "a = s0\<lparr>controller_issued := controller_issued s0 @ es\<rparr>"
    have l2e: "logical_to_emptiness a = logical_to_emptiness s"
      by (simp add: a_def assms(6))
    from page_defined_in_loop [OF assms(1,2,4) j l2e]
    obtain e where e: "check_page_empty a (i * BLOCK_SIZE c + j) = Some e" ..
    from manifest_fetch_defined [OF assms(1,3,5), where d = j]
    obtain r where r: "fetch_log_page str j = Some r"
      by (elim exE conjE) (rule that)
    note step = remap_log_copy_step [OF e r, of c old des "length m" "manifest_string m"]
    show "\<exists>acc'. remap_log_copy c (i * BLOCK_SIZE c) old des (Some str) j acc = Some acc' \<and>
        P (pre @ [j]) acc'"
    proof (cases "\<exists>lp. r = Some lp \<and> \<not> e")
      case True
      then obtain lp where lp: "r = Some lp" "\<not> e"
        by blast
      let ?ev = "[Event READ (i * BLOCK_SIZE c + j) 1 (start_time s0) (page_address c old lp),
                  Event WRITE (i * BLOCK_SIZE c + j) 1 (start_time s0) (page_address c des (length m))]"
      have ev: "targets_below c cnt ?ev"
        using assms(1,7,8) by (simp add: targets_below_def Event_def physical_block_address)
      have "remap_log_copy c (i * BLOCK_SIZE c) old des (Some str) j acc =
          Some (length (m @ [j]), manifest_string (m @ [j]),
                s0\<lparr>controller_issued := controller_issued s0 @ (es @ ?ev)\<rparr>)"
        unfolding acc a_def [symmetric] step using lp
        by (simp add: issue_def a_def manifest_string_append)
      moreover have "targets_below c cnt (es @ ?ev)"
        using es ev by (simp only: targets_below_append simp_thms)
      moreover have "length (m @ [j]) \<le> length (pre @ [j])"
        using m by simp
      ultimately show ?thesis
        unfolding P_def by blast
    next
      case False
      have "remap_log_copy c (i * BLOCK_SIZE c) old des (Some str) j acc = Some acc"
        unfolding acc a_def [symmetric] step using False by (cases r) auto
      moreover have "P (pre @ [j]) acc"
        unfolding P_def using acc m es by (intro exI [of _ m] exI [of _ es]) simp
      ultimately show ?thesis
        by blast
    qed
  qed
  then show ?thesis
    unfolding P_def by fastforce
qed

lemma invariant_new_log:
  assumes "valid_config c" and "ftl_invariant c s" and "i < NUM_OF_LGC_B c"
    and wr: "logical_block_written c s i"
    and free: "free_block c s (p * BLOCK_SIZE c)"
    and pool: "distinct (op_blocks s')" "set (op_blocks s') \<subseteq> set (op_blocks s)"
      "p * BLOCK_SIZE c \<notin> set (op_blocks s')"
    and man: "inv_manifests c s'" "log_to_pages s' (p * BLOCK_SIZE c) \<noteq> None"
      "\<forall>d < NUM_OF_PHY_B c. d \<noteq> data_block s i \<longrightarrow> data_to_log s ! d \<noteq> 0 \<longrightarrow>
         log_to_pages s' (log_block s d * BLOCK_SIZE c) = log_to_pages s (log_block s d * BLOCK_SIZE c)"
    and fields: "data_to_log s' = (data_to_log s)[data_block s i := int p - int (data_block s i)]"
      "logical_to_physical s' = logical_to_physical s"
      "logical_to_emptiness s' = logical_to_emptiness s" "erase_count s' = erase_count s"
  shows "ftl_invariant c s'"
proof -
  note inv = ftl_invariantD [OF assms(2)]
  note len = tables_allocatedD [OF inv(1)]
  have B: "0 < BLOCK_SIZE c"
    using assms(1) by (rule valid_config_facts)
  define D where "D = data_block s i"
  have D: "D < NUM_OF_PHY_B c"
    unfolding D_def using inv(2) assms(3) by (rule inv_dataD)
  have p: "p < NUM_OF_PHY_B c" and cp: "erase_count s ! p < BLOCK_ERASES c"
    and pdata: "\<forall>k < NUM_OF_LGC_B c. data_block s k \<noteq> p"
    and plog: "\<forall>d < NUM_OF_PHY_B c. data_to_log s ! d \<noteq> 0 \<longrightarrow> log_block s d \<noteq> p"
    using free B by (simp_all add: free_block_def)
  have pD: "p \<noteq> D"
    using pdata assms(3) by (auto simp: D_def)
  have d2l: "data_to_log s' ! d = (if d = D then int p - int D else data_to_log s ! d)"
    if "d < NUM_OF_PHY_B c" for d
    using that D len(4) by (simp add: fields(1) D_def [symmetric] nth_list_update)
  have nzD: "data_to_log s' ! D \<noteq> 0"
    using d2l [OF D] pD by simp
  have pair: "d = D \<or> (d \<noteq> D \<and> data_to_log s ! d \<noteq> 0)"
    if "d < NUM_OF_PHY_B c" "data_to_log s' ! d \<noteq> 0" for d
    using d2l [OF that(1)] that(2) by (auto split: if_splits)
  have lgD: "log_block s' D = p"
    using d2l [OF D] by (simp add: log_block_def)
  have lg: "log_block s' d = log_block s d" if "d < NUM_OF_PHY_B c" "d \<noteq> D" for d
    using d2l [OF that(1)] that(2) by (simp add: log_block_def)
  have lbw: "logical_block_written c s' = logical_block_written c s"
    by (rule logical_block_written_cong) (rule fields(3))
  have db: "data_block s' = data_block s"
    by (rule data_block_cong) (rule fields(2))
  have "tables_allocated c s'"
    using inv(1) by (simp add: tables_allocated_def fields)
  moreover have "inv_data c s'"
    using inv(2) by (simp only: inv_data_cong [OF fields(2)])
  moreover have "inv_log c s'"
    unfolding inv_log_def
  proof (intro conjI allI impI)
    fix d assume d: "d < NUM_OF_PHY_B c" and nz: "data_to_log s' ! d \<noteq> 0"
    from pair [OF d nz] consider (new) "d = D" | (old) "d \<noteq> D" "data_to_log s ! d \<noteq> 0"
      by blast
    then have "0 \<le> int d + data_to_log s' ! d \<and> log_block s' d < NUM_OF_PHY_B c \<and>
      (\<exists>i<NUM_OF_LGC_B c. data_block s' i = d \<and> logical_block_written c s' i) \<and>
      log_to_pages s' (log_block s' d * BLOCK_SIZE c) \<noteq> None"
    proof cases
      case new
      have "0 \<le> int D + data_to_log s' ! D"
        using d2l [OF D] by simp
      moreover have "\<exists>i<NUM_OF_LGC_B c. data_block s' i = D \<and> logical_block_written c s' i"
        using assms(3) wr by (intro exI [of _ i]) (simp add: lbw db D_def)
      ultimately show ?thesis
        using p man(2) by (simp add: new lgD)
    next
      case old
      note o = inv_logD [OF inv(3) d old(2)]
      have "log_to_pages s' (log_block s d * BLOCK_SIZE c) = log_to_pages s (log_block s d * BLOCK_SIZE c)"
        using man(3) d old by (simp add: D_def)
      with o(1,2,3,5) old d2l [OF d] show ?thesis
        by (simp add: lg [OF d old(1)] lbw db)
    qed
    then show "0 \<le> int d + data_to_log s' ! d" "log_block s' d < NUM_OF_PHY_B c"
      "\<exists>i<NUM_OF_LGC_B c. data_block s' i = d \<and> logical_block_written c s' i"
      "log_to_pages s' (log_block s' d * BLOCK_SIZE c) \<noteq> None"
      by simp_all
  next
    fix d k assume d: "d < NUM_OF_PHY_B c" and nz: "data_to_log s' ! d \<noteq> 0" and k: "k < NUM_OF_LGC_B c"
    from pair [OF d nz] consider (new) "d = D" | (old) "d \<noteq> D" "data_to_log s ! d \<noteq> 0"
      by blast
    then show "data_block s' k \<noteq> log_block s' d"
    proof cases
      case new
      from pdata k show ?thesis
        by (simp add: new lgD db)
    next
      case old
      from inv_logD(4) [OF inv(3) d old(2) k] show ?thesis
        by (simp add: lg [OF d old(1)] db)
    qed
  next
    fix d d' assume d: "d < NUM_OF_PHY_B c" and d': "d' < NUM_OF_PHY_B c"
      and nz: "data_to_log s' ! d \<noteq> 0" and nz': "data_to_log s' ! d' \<noteq> 0"
      and eq: "log_block s' d = log_block s' d'"
    from pair [OF d nz] pair [OF d' nz'] show "d = d'"
    proof (elim disjE conjE)
      assume "d = D" "d' = D"
      then show ?thesis by simp
    next
      assume *: "d = D" "d' \<noteq> D" "data_to_log s ! d' \<noteq> 0"
      with eq have "log_block s d' = p"
        by (simp add: lgD lg [OF d'])
      with plog d' *(3) show ?thesis by simp
    next
      assume *: "d' = D" "d \<noteq> D" "data_to_log s ! d \<noteq> 0"
      with eq have "log_block s d = p"
        by (simp add: lgD lg [OF d])
      with plog d *(3) show ?thesis by simp
    next
      assume *: "d \<noteq> D" "data_to_log s ! d \<noteq> 0" "d' \<noteq> D" "data_to_log s ! d' \<noteq> 0"
      with eq have "log_block s d = log_block s d'"
        by (simp add: lg [OF d] lg [OF d'])
      with inv(3) d *(2) d' *(4) show ?thesis
        by (rule inv_logD(6))
    qed
  qed
  moreover have "inv_pool c s'"
    unfolding inv_pool_def
  proof (intro conjI ballI)
    show "distinct (op_blocks s')"
      by (rule pool)
    fix q assume q: "q \<in> set (op_blocks s')"
    with pool(2) inv(4) have f: "free_block c s q"
      by (auto simp: inv_pool_def)
    from q pool(3) have "q \<noteq> p * BLOCK_SIZE c"
      by auto
    moreover from f have "BLOCK_SIZE c dvd q"
      by (simp add: free_block_def)
    ultimately have qp: "q div BLOCK_SIZE c \<noteq> p"
      by auto
    show "free_block c s' q"
      unfolding free_block_def
    proof (intro conjI allI impI)
      show "BLOCK_SIZE c dvd q" "q div BLOCK_SIZE c < NUM_OF_PHY_B c"
        "erase_count s' ! (q div BLOCK_SIZE c) < BLOCK_ERASES c"
        using f by (simp_all add: free_block_def fields(4))
    next
      fix k assume k: "k < NUM_OF_LGC_B c"
      with f show "data_block s' k \<noteq> q div BLOCK_SIZE c"
        by (simp add: free_block_def db)
    next
      fix d assume d: "d < NUM_OF_PHY_B c" and nz: "data_to_log s' ! d \<noteq> 0"
      from pair [OF d nz] consider (new) "d = D" | (old) "d \<noteq> D" "data_to_log s ! d \<noteq> 0"
        by blast
      then show "log_block s' d \<noteq> q div BLOCK_SIZE c"
      proof cases
        case new
        from qp show ?thesis
          by (simp add: new lgD)
      next
        case old
        from f d old(2) show ?thesis
          by (simp add: free_block_def lg [OF d old(1)])
      qed
    qed
  qed
  moreover have "inv_counts c s'"
    using inv(6) by (simp add: inv_counts_def fields(4))
  ultimately show ?thesis
    using man(1) by (simp add: ftl_invariant_def)
qed

lemma remap_log_spec:
  assumes "valid_config c" and "ftl_invariant c s" and "i < NUM_OF_LGC_B c"
    and "data_to_log s ! data_block s i \<noteq> 0"
    and "BLOCK_ERASES c \<le> erase_count s ! log_block s (data_block s i)"
  shows "\<exists>new s'. remap_log_block c (i * BLOCK_SIZE c) (data_block s i * BLOCK_SIZE c)
        (log_block s (data_block s i) * BLOCK_SIZE c) s = Some (new, s') \<and>
     (new = data_block s i * BLOCK_SIZE c \<and> s' = s \<or>
      new \<noteq> data_block s i * BLOCK_SIZE c \<and> new = log_block s' (data_block s i) * BLOCK_SIZE c \<and>
      ftl_invariant c s' \<and> progress c s s' \<and>
      logical_to_emptiness s' = logical_to_emptiness s \<and> start_time s' = start_time s \<and>
      data_block s' i = data_block s i \<and> data_to_log s' ! data_block s i \<noteq> 0 \<and>
      erase_count s' ! log_block s' (data_block s i) < BLOCK_ERASES c \<and>
      erase_count s' ! data_block s i = erase_count s ! data_block s i)"
proof -
  note inv = ftl_invariantD [OF assms(2)]
  note len = tables_allocatedD [OF inv(1)]
  have B: "0 < BLOCK_SIZE c"
    using assms(1) by (rule valid_config_facts)
  define D where "D = data_block s i"
  define L where "L = log_block s D"
  have D: "D < NUM_OF_PHY_B c"
    unfolding D_def using inv(2) assms(3) by (rule inv_dataD)
  have dD: "data_to_log s ! D \<noteq> 0"
    using assms(4) by (simp add: D_def)
  have capL: "BLOCK_ERASES c \<le> erase_count s ! L"
    using assms(5) by (simp add: D_def L_def)
  have L: "L < NUM_OF_PHY_B c"
    unfolding L_def using inv(3) D dD by (rule inv_logD)
  have "log_to_pages s (L * BLOCK_SIZE c) \<noteq> None"
    unfolding L_def using inv(3) D dD by (rule inv_logD)
  then obtain str where man: "log_to_pages s (L * BLOCK_SIZE c) = Some str"
    by blast
  have wr: "logical_block_written c s i"
    using inv(2,3) assms(3) D dD unfolding D_def by (rule written_data_block)
  from next_unmapped_spec [OF assms(1,2)] obtain r s1 where
    nu: "next_unmapped_log_block c s = Some (r, s1)" and h: "handed c s r s1"
    by (elim exE conjE) (rule that)
  show ?thesis
    unfolding D_def [symmetric] L_def [symmetric]
  proof (cases r)
    case None
    with h have "s1 = s"
      by (simp add: handed_def)
    then have "remap_log_block c (i * BLOCK_SIZE c) (D * BLOCK_SIZE c) (L * BLOCK_SIZE c) s =
        Some (D * BLOCK_SIZE c, s)"
      by (simp add: remap_log_block_def nu None)
    then show "\<exists>new s'. remap_log_block c (i * BLOCK_SIZE c) (D * BLOCK_SIZE c) (L * BLOCK_SIZE c) s =
          Some (new, s') \<and>
       (new = D * BLOCK_SIZE c \<and> s' = s \<or>
        new \<noteq> D * BLOCK_SIZE c \<and> new = log_block s' D * BLOCK_SIZE c \<and>
        ftl_invariant c s' \<and> progress c s s' \<and>
        logical_to_emptiness s' = logical_to_emptiness s \<and> start_time s' = start_time s \<and>
        data_block s' i = D \<and> data_to_log s' ! D \<noteq> 0 \<and>
        erase_count s' ! log_block s' D < BLOCK_ERASES c \<and> erase_count s' ! D = erase_count s ! D)"
      by simp
  next
    case (Some P)
    from h have Inv1: "ftl_invariant c s1" and pr1: "progress c s s1"
      and l2e1: "logical_to_emptiness s1 = logical_to_emptiness s"
      and st1: "start_time s1 = start_time s"
      and free: "free_block c s1 P" and out: "P \<notin> set (op_blocks s1)"
      by (simp_all add: handed_def Some)
    from h D dD capL have kept: "data_to_log s1 ! D = data_to_log s ! D"
      "log_to_pages s1 (L * BLOCK_SIZE c) = log_to_pages s (L * BLOCK_SIZE c)"
      "erase_count s1 ! D = erase_count s ! D" "erase_count s1 ! L = erase_count s ! L"
      "logical_to_physical s1 ! i = logical_to_physical s ! i"
      using assms(3) unfolding handed_def L_def D_def by blast+
    note inv1 = ftl_invariantD [OF Inv1]
    note len1 = tables_allocatedD [OF inv1(1)]
    define p where "p = P div BLOCK_SIZE c"
    have P: "P = p * BLOCK_SIZE c"
      using free by (simp add: free_block_def p_def)
    have p: "p < NUM_OF_PHY_B c" and cp: "erase_count s1 ! p < BLOCK_ERASES c"
      and pdata: "\<forall>k < NUM_OF_LGC_B c. data_block s1 k \<noteq> p"
      and plog: "\<forall>d < NUM_OF_PHY_B c. data_to_log s1 ! d \<noteq> 0 \<longrightarrow> log_block s1 d \<noteq> p"
      using free by (simp_all add: free_block_def p_def)
    have D1: "data_block s1 i = D"
      by (simp add: data_block_def kept(5) D_def)
    have L1: "log_block s1 D = L"
      by (simp add: log_block_def kept(1) L_def)
    have dD1: "data_to_log s1 ! D \<noteq> 0"
      using dD by (simp add: kept(1))
    have man1: "log_to_pages s1 (L * BLOCK_SIZE c) = Some str"
      by (simp add: kept(2) man)
    have wr1: "logical_block_written c s1 i"
      using wr by (simp add: logical_block_written_cong [OF l2e1])
    have pL: "p \<noteq> L"
      using plog D dD1 L1 by auto
    have pD: "p \<noteq> D"
      using pdata assms(3) D1 by auto
    from remap_log_copy_loop [OF assms(1) inv1(1,5) assms(3) man1 refl, of "p * BLOCK_SIZE c"
        "erase_count s1" "L * BLOCK_SIZE c"] p cp B
    obtain j m es where loop: "for_loop [0..<BLOCK_SIZE c]
        (remap_log_copy c (i * BLOCK_SIZE c) (L * BLOCK_SIZE c) (p * BLOCK_SIZE c) (Some str)) (0, [], s1) =
        Some (j, manifest_string m, s1\<lparr>controller_issued := controller_issued s1 @ es\<rparr>)"
      and m: "length m \<le> BLOCK_SIZE c" and es: "targets_below c (erase_count s1) es"
      by auto
    define s2 where "s2 = s1\<lparr>controller_issued := controller_issued s1 @ es\<rparr>"
    define s3 where "s3 = s2\<lparr>log_to_pages := (log_to_pages s2)(L * BLOCK_SIZE c := None),
        data_to_log := (data_to_log s2)[D := 0]\<rparr>"
    define s4 where "s4 = s3\<lparr>data_to_log := (data_to_log s3)[D := int p - int D]\<rparr>"
    define s5 where "s5 = s4\<lparr>log_to_pages := (log_to_pages s4)(p * BLOCK_SIZE c \<mapsto> manifest_string m)\<rparr>"
    have "check_log_block c s2 = check_log_block c s1"
      by (rule check_log_block_cong) (simp add: s2_def)
    then have clb: "check_log_block c s2 (D * BLOCK_SIZE c) = Some (Some (L * BLOCK_SIZE c))"
      using log_address [OF assms(1) inv1(1,3) D] dD1 by (simp add: L1)
    have c1: "cancel_log_block c (D * BLOCK_SIZE c) s2 = Some s3"
      using cancel_log_block_eq [OF assms(1) _ clb] D by (simp add: s3_def s2_def len1)
    have q1: "set_log_block c (D * BLOCK_SIZE c) (p * BLOCK_SIZE c) s3 = Some s4"
      unfolding s4_def using assms(1) by (rule set_log_block_eq) (simp add: s3_def s2_def len1 D)
    have run: "remap_log_block c (i * BLOCK_SIZE c) (D * BLOCK_SIZE c) (L * BLOCK_SIZE c) s =
        Some (p * BLOCK_SIZE c, s5)"
      by (simp add: remap_log_block_def nu Some P man1 loop s2_def [symmetric] c1 q1 s5_def)
    have f: "logical_to_physical s5 = logical_to_physical s1"
      "data_to_log s5 = (data_to_log s1)[D := int p - int D]"
      "logical_to_emptiness s5 = logical_to_emptiness s1"
      "log_to_pages s5 = ((log_to_pages s1)(L * BLOCK_SIZE c := None))(p * BLOCK_SIZE c \<mapsto> manifest_string m)"
      "erase_count s5 = erase_count s1" "op_blocks s5 = op_blocks s1" "start_time s5 = start_time s1"
      "controller_issued s5 = controller_issued s1 @ es"
      by (simp_all add: s5_def s4_def s3_def s2_def)
    have Inv: "ftl_invariant c s5"
    proof (rule invariant_new_log [OF assms(1) Inv1 assms(3) wr1, of p])
      show "free_block c s1 (p * BLOCK_SIZE c)"
        using free by (simp add: P)
      show "distinct (op_blocks s5)" "set (op_blocks s5) \<subseteq> set (op_blocks s1)"
        "p * BLOCK_SIZE c \<notin> set (op_blocks s5)"
        using inv1(4) out by (simp_all add: f(6) inv_pool_def P)
      show "inv_manifests c s5"
        using inv1(5) m unfolding inv_manifests_def f(4) by (auto split: if_splits)
      show "log_to_pages s5 (p * BLOCK_SIZE c) \<noteq> None"
        by (simp add: f(4))
      show "\<forall>d<NUM_OF_PHY_B c. d \<noteq> data_block s1 i \<longrightarrow> data_to_log s1 ! d \<noteq> 0 \<longrightarrow>
          log_to_pages s5 (log_block s1 d * BLOCK_SIZE c) = log_to_pages s1 (log_block s1 d * BLOCK_SIZE c)"
      proof (intro allI impI)
        fix d assume d: "d < NUM_OF_PHY_B c" "d \<noteq> data_block s1 i" "data_to_log s1 ! d \<noteq> 0"
        have "log_block s1 d \<noteq> L"
          using inv_logD(6) [OF inv1(3) d(1,3) D dD1] d(2) by (auto simp: D1 L1)
        moreover have "log_block s1 d \<noteq> p"
          using plog d by simp
        ultimately show "log_to_pages s5 (log_block s1 d * BLOCK_SIZE c) =
            log_to_pages s1 (log_block s1 d * BLOCK_SIZE c)"
          using B by (simp add: f(4))
      qed
      show "data_to_log s5 = (data_to_log s1)[data_block s1 i := int p - int (data_block s1 i)]"
        by (simp add: f(2) D1)
      show "logical_to_physical s5 = logical_to_physical s1"
        "logical_to_emptiness s5 = logical_to_emptiness s1" "erase_count s5 = erase_count s1"
        by (rule f)+
    qed
    have d2lD: "data_to_log s5 ! D = int p - int D"
      using D by (simp add: f(2) len1(4))
    have "progress c s1 s5"
      using f(5,8) es by (rule progress_events)
    with pr1 have pr: "progress c s s5"
      using len(2) by (rule progress_trans)
    have lg: "log_block s5 D = p"
      by (simp add: log_block_def d2lD)
    have post: "p * BLOCK_SIZE c \<noteq> D * BLOCK_SIZE c" "p * BLOCK_SIZE c = log_block s5 D * BLOCK_SIZE c"
      "data_block s5 i = D" "data_to_log s5 ! D \<noteq> 0"
      "erase_count s5 ! log_block s5 D < BLOCK_ERASES c" "erase_count s5 ! D = erase_count s ! D"
      using pD B cp D1 by (simp_all add: lg d2lD f(5) kept(3) data_block_cong [OF f(1)])
    show "\<exists>new s'. remap_log_block c (i * BLOCK_SIZE c) (D * BLOCK_SIZE c) (L * BLOCK_SIZE c) s =
          Some (new, s') \<and>
       (new = D * BLOCK_SIZE c \<and> s' = s \<or>
        new \<noteq> D * BLOCK_SIZE c \<and> new = log_block s' D * BLOCK_SIZE c \<and>
        ftl_invariant c s' \<and> progress c s s' \<and>
        logical_to_emptiness s' = logical_to_emptiness s \<and> start_time s' = start_time s \<and>
        data_block s' i = D \<and> data_to_log s' ! D \<noteq> 0 \<and>
        erase_count s' ! log_block s' D < BLOCK_ERASES c \<and> erase_count s' ! D = erase_count s ! D)"
      using run Inv pr post f(3,7) l2e1 st1
      by (intro exI [of _ "p * BLOCK_SIZE c"] exI [of _ s5]) simp
  qed
qed

subsection \<open>Writing to a full log block\<close>

lemma ulong_sub_page:
  assumes "valid_config c" and "i < NUM_OF_LGC_B c" and "pg < BLOCK_SIZE c"
  shows "ulong_sub (i * BLOCK_SIZE c + pg) pg = i * BLOCK_SIZE c"
proof -
  have "i * BLOCK_SIZE c + pg < NUM_OF_LGC_B c * BLOCK_SIZE c"
    using assms(2,3) by (rule logical_page_bound)
  also have "\<dots> \<le> NUM_OF_PHY_B c * BLOCK_SIZE c"
    using valid_config_facts(3) [OF assms(1)] by (rule mult_le_mono1)
  also have "\<dots> < 2 ^ 32"
    using valid_config_facts(2,4) [OF assms(1)] by simp
  finally have small: "i * BLOCK_SIZE c + pg < 2 ^ 32" .
  then have pg: "pg mod 2 ^ 64 = pg"
    by simp
  have "i * BLOCK_SIZE c + pg + 2 ^ 64 - pg = i * BLOCK_SIZE c + 2 ^ 64"
    by simp
  moreover have "i * BLOCK_SIZE c < 2 ^ 64"
    using small by simp
  ultimately show ?thesis
    unfolding ulong_sub_def pg by simp
qed

lemma over_erase_limit_eq:
  assumes "0 < BLOCK_SIZE c" and "d < length (erase_count s)"
  shows "over_erase_limit c s (d * BLOCK_SIZE c) = Some (BLOCK_ERASES c \<le> erase_count s ! d)"
  using assms by (simp add: over_erase_limit_def array_get_def)

lemma invariant_manifest:
  assumes "ftl_invariant c s" and "length m \<le> BLOCK_SIZE c"
  shows "ftl_invariant c (s\<lparr>log_to_pages := (log_to_pages s)(k \<mapsto> manifest_string m)\<rparr>)"
proof -
  note inv = ftl_invariantD [OF assms(1)]
  define s' where "s' = s\<lparr>log_to_pages := (log_to_pages s)(k \<mapsto> manifest_string m)\<rparr>"
  have f: "logical_to_physical s' = logical_to_physical s" "data_to_log s' = data_to_log s"
    "logical_to_emptiness s' = logical_to_emptiness s" "erase_count s' = erase_count s"
    "op_blocks s' = op_blocks s"
    "log_to_pages s' = (log_to_pages s)(k \<mapsto> manifest_string m)"
    by (simp_all add: s'_def)
  have "tables_allocated c s'"
    using inv(1) by (simp add: tables_allocated_def f)
  moreover have "inv_data c s'"
    using inv(2) by (simp only: inv_data_cong [OF f(1)])
  moreover have "inv_log c s'"
    unfolding inv_log_def
  proof (intro conjI allI impI)
    fix d assume d: "d < NUM_OF_PHY_B c" and nz: "data_to_log s' ! d \<noteq> 0"
    from nz have nz': "data_to_log s ! d \<noteq> 0"
      by (simp add: f(2))
    note o = inv_logD [OF inv(3) d nz']
    show "0 \<le> int d + data_to_log s' ! d" "log_block s' d < NUM_OF_PHY_B c"
      "\<exists>i<NUM_OF_LGC_B c. data_block s' i = d \<and> logical_block_written c s' i"
      "log_to_pages s' (log_block s' d * BLOCK_SIZE c) \<noteq> None"
      using o(1,2,3,5)
      by (simp_all add: f(2,6) log_block_cong [OF f(2)] data_block_cong [OF f(1)]
          logical_block_written_cong [OF f(3)])
  next
    fix d i assume d: "d < NUM_OF_PHY_B c" and nz: "data_to_log s' ! d \<noteq> 0" and i: "i < NUM_OF_LGC_B c"
    from nz have nz': "data_to_log s ! d \<noteq> 0"
      by (simp add: f(2))
    from inv_logD(4) [OF inv(3) d nz' i] show "data_block s' i \<noteq> log_block s' d"
      by (simp add: log_block_cong [OF f(2)] data_block_cong [OF f(1)])
  next
    fix d d' assume "d < NUM_OF_PHY_B c" "d' < NUM_OF_PHY_B c"
      "data_to_log s' ! d \<noteq> 0" "data_to_log s' ! d' \<noteq> 0" "log_block s' d = log_block s' d'"
    then show "d = d'"
      using inv_logD(6) [OF inv(3), of d d'] by (simp add: f(2) log_block_cong [OF f(2)])
  qed
  moreover have "inv_pool c s'"
  proof -
    have "free_block c s' p = free_block c s p" for p
      by (rule free_block_cong) (simp_all add: f)
    with inv(4) show ?thesis
      by (simp add: inv_pool_def f(5))
  qed
  moreover have "inv_manifests c s'"
    using inv(5) assms(2) unfolding inv_manifests_def f(6) by (auto split: if_splits)
  moreover have "inv_counts c s'"
    using inv(6) by (simp add: inv_counts_def f(4))
  ultimately show ?thesis
    unfolding s'_def [symmetric] by (simp add: ftl_invariant_def)
qed

lemma translate_clean_run:
  assumes "over_erase_limit c s da = Some bD"
    and "(if bD then remap_data_block c (ulong_sub la pg) da lga s else Some (da, s)) = Some (dA, s1)"
    and "\<not> (bD \<and> lga = dA) \<Longrightarrow> over_erase_limit c s1 lga = Some bL"
    and "\<not> (bD \<and> lga = dA) \<Longrightarrow>
      (if bL then remap_log_block c (ulong_sub la pg) dA lga s1 else Some (lga, s1)) = Some (lB, s2)"
    and "\<not> (bD \<and> lga = dA) \<Longrightarrow> \<not> (bL \<and> lB = dA) \<Longrightarrow>
      clean c (ulong_sub la pg) dA lB s2 = Some (ok, s3)"
  shows "translate_clean c event la pg da lga s =
     Some (if bD \<and> lga = dA then (FAILURE, event, s1)
           else if bL \<and> lB = dA then (FAILURE, event, s2)
           else if \<not> ok then (FAILURE, event, s3)
           else (SUCCESS, event\<lparr>ev_address := page_address c lB 0\<rparr>,
                 s3\<lparr>log_to_pages := (log_to_pages s3)(lB \<mapsto> to_string pg @ '','')\<rparr>))"
proof (cases "bD \<and> lga = dA")
  case True
  then show ?thesis
    using assms(1,2) by (simp add: translate_clean_def)
next
  case False
  note f = assms(3-5) [OF False]
  show ?thesis
  proof (cases "bL \<and> lB = dA")
    case True
    then show ?thesis
      using False assms(1,2) f(1,2) by (auto simp: translate_clean_def)
  next
    case False
    then show ?thesis
      using \<open>\<not> (bD \<and> lga = dA)\<close> assms(1,2) f(1,2) f(3) [OF False]
      by (auto simp: translate_clean_def)
  qed
qed

lemma translate_clean_spec:
  assumes "valid_config c" and "ftl_invariant c s" and "i < NUM_OF_LGC_B c" and "pg < BLOCK_SIZE c"
    and "data_to_log s ! data_block s i \<noteq> 0"
  shows "\<exists>st e' s'. translate_clean c event (i * BLOCK_SIZE c + pg) pg (data_block s i * BLOCK_SIZE c)
        (log_block s (data_block s i) * BLOCK_SIZE c) s = Some (st, e', s') \<and>
      ftl_invariant c s' \<and> progress c s s' \<and> logical_to_emptiness s' = logical_to_emptiness s"
proof -
  note inv = ftl_invariantD [OF assms(2)]
  note len = tables_allocatedD [OF inv(1)]
  have B: "0 < BLOCK_SIZE c"
    using assms(1) by (rule valid_config_facts)
  define D where "D = data_block s i"
  define L where "L = log_block s D"
  define bD where "bD \<longleftrightarrow> BLOCK_ERASES c \<le> erase_count s ! D"
  have D: "D < NUM_OF_PHY_B c"
    unfolding D_def using inv(2) assms(3) by (rule inv_dataD)
  have dD: "data_to_log s ! D \<noteq> 0"
    using assms(5) by (simp add: D_def)
  have L: "L < NUM_OF_PHY_B c"
    unfolding L_def using inv(3) D dD by (rule inv_logD)
  have DL: "D \<noteq> L"
    using inv_logD(4) [OF inv(3) D dD assms(3)] by (simp add: D_def L_def)
  have us: "ulong_sub (i * BLOCK_SIZE c + pg) pg = i * BLOCK_SIZE c"
    using assms(1,3,4) by (rule ulong_sub_page)
  have od: "over_erase_limit c s (D * BLOCK_SIZE c) = Some bD"
    unfolding bD_def using B D by (simp add: over_erase_limit_eq len)
  have "\<exists>dA s1. (if bD then remap_data_block c (i * BLOCK_SIZE c) (D * BLOCK_SIZE c) (L * BLOCK_SIZE c) s
        else Some (D * BLOCK_SIZE c, s)) = Some (dA, s1) \<and>
      (bD \<and> dA = L * BLOCK_SIZE c \<and> s1 = s \<or>
       dA \<noteq> L * BLOCK_SIZE c \<and> dA = data_block s1 i * BLOCK_SIZE c \<and>
       ftl_invariant c s1 \<and> progress c s s1 \<and> logical_to_emptiness s1 = logical_to_emptiness s \<and>
       data_to_log s1 ! data_block s1 i \<noteq> 0 \<and> log_block s1 (data_block s1 i) = L \<and>
       erase_count s1 ! data_block s1 i < BLOCK_ERASES c)"
  proof (cases bD)
    case True
    then have "BLOCK_ERASES c \<le> erase_count s ! data_block s i"
      by (simp add: bD_def D_def)
    from remap_data_spec [OF assms(1,2,3,5) this] True show ?thesis
      unfolding D_def [symmetric] L_def [symmetric] by (elim exE conjE disjE) auto
  next
    case False
    then have "erase_count s ! D < BLOCK_ERASES c"
      by (simp add: bD_def)
    moreover have "progress c s s"
      by (rule progress_same) simp_all
    ultimately show ?thesis
      using False DL B dD assms(2) by (simp add: D_def [symmetric] L_def [symmetric])
  qed
  then obtain dA s1 where
    A: "(if bD then remap_data_block c (i * BLOCK_SIZE c) (D * BLOCK_SIZE c) (L * BLOCK_SIZE c) s
        else Some (D * BLOCK_SIZE c, s)) = Some (dA, s1)"
    and A': "bD \<and> dA = L * BLOCK_SIZE c \<and> s1 = s \<or>
       dA \<noteq> L * BLOCK_SIZE c \<and> dA = data_block s1 i * BLOCK_SIZE c \<and>
       ftl_invariant c s1 \<and> progress c s s1 \<and> logical_to_emptiness s1 = logical_to_emptiness s \<and>
       data_to_log s1 ! data_block s1 i \<noteq> 0 \<and> log_block s1 (data_block s1 i) = L \<and>
       erase_count s1 ! data_block s1 i < BLOCK_ERASES c"
    by (elim exE conjE) (rule that)
  have same: "progress c s s"
    by (rule progress_same) simp_all
  from A' show ?thesis
    unfolding D_def [symmetric] L_def [symmetric]
  proof (elim disjE conjE)
    assume fail: "bD" "dA = L * BLOCK_SIZE c" "s1 = s"
    have "translate_clean c event (i * BLOCK_SIZE c + pg) pg (D * BLOCK_SIZE c) (L * BLOCK_SIZE c) s =
        Some (FAILURE, event, s)"
      using translate_clean_run [of c s "D * BLOCK_SIZE c" bD "i * BLOCK_SIZE c + pg" pg
          "L * BLOCK_SIZE c" dA s1 False 0 s False s event, unfolded us, OF od A] fail
      by simp
    with assms(2) same show "\<exists>st e' s'. translate_clean c event (i * BLOCK_SIZE c + pg) pg
        (D * BLOCK_SIZE c) (L * BLOCK_SIZE c) s = Some (st, e', s') \<and>
        ftl_invariant c s' \<and> progress c s s' \<and> logical_to_emptiness s' = logical_to_emptiness s"
      by simp
  next
    assume good: "dA \<noteq> L * BLOCK_SIZE c" "dA = data_block s1 i * BLOCK_SIZE c"
      "ftl_invariant c s1" "progress c s s1" "logical_to_emptiness s1 = logical_to_emptiness s"
      "data_to_log s1 ! data_block s1 i \<noteq> 0" "log_block s1 (data_block s1 i) = L"
      "erase_count s1 ! data_block s1 i < BLOCK_ERASES c"
    note inv1 = ftl_invariantD [OF good(3)]
    note len1 = tables_allocatedD [OF inv1(1)]
    define D1 where "D1 = data_block s1 i"
    define bL where "bL \<longleftrightarrow> BLOCK_ERASES c \<le> erase_count s1 ! L"
    have ol: "over_erase_limit c s1 (L * BLOCK_SIZE c) = Some bL"
      unfolding bL_def using B L by (simp add: over_erase_limit_eq len1)
    have "\<exists>lB s2. (if bL then remap_log_block c (i * BLOCK_SIZE c) dA (L * BLOCK_SIZE c) s1
          else Some (L * BLOCK_SIZE c, s1)) = Some (lB, s2) \<and>
        (bL \<and> lB = dA \<and> s2 = s1 \<or>
         lB \<noteq> dA \<and> lB = log_block s2 (data_block s2 i) * BLOCK_SIZE c \<and> dA = data_block s2 i * BLOCK_SIZE c \<and>
         ftl_invariant c s2 \<and> progress c s1 s2 \<and> logical_to_emptiness s2 = logical_to_emptiness s1 \<and>
         data_to_log s2 ! data_block s2 i \<noteq> 0 \<and>
         erase_count s2 ! log_block s2 (data_block s2 i) < BLOCK_ERASES c \<and>
         erase_count s2 ! data_block s2 i < BLOCK_ERASES c)"
    proof (cases bL)
      case True
      then have "BLOCK_ERASES c \<le> erase_count s1 ! log_block s1 (data_block s1 i)"
        by (simp add: bL_def good(7))
      from remap_log_spec [OF assms(1) good(3) assms(3) good(6) this] True good(8) good(2) show ?thesis
        unfolding good(7) by (elim exE conjE disjE) auto
    next
      case False
      then have "erase_count s1 ! L < BLOCK_ERASES c"
        by (simp add: bL_def)
      moreover have "progress c s1 s1"
        by (rule progress_same) simp_all
      ultimately show ?thesis
        using False good by simp
    qed
    then obtain lB s2 where
      Bq: "(if bL then remap_log_block c (i * BLOCK_SIZE c) dA (L * BLOCK_SIZE c) s1
          else Some (L * BLOCK_SIZE c, s1)) = Some (lB, s2)"
      and B': "bL \<and> lB = dA \<and> s2 = s1 \<or>
         lB \<noteq> dA \<and> lB = log_block s2 (data_block s2 i) * BLOCK_SIZE c \<and> dA = data_block s2 i * BLOCK_SIZE c \<and>
         ftl_invariant c s2 \<and> progress c s1 s2 \<and> logical_to_emptiness s2 = logical_to_emptiness s1 \<and>
         data_to_log s2 ! data_block s2 i \<noteq> 0 \<and>
         erase_count s2 ! log_block s2 (data_block s2 i) < BLOCK_ERASES c \<and>
         erase_count s2 ! data_block s2 i < BLOCK_ERASES c"
      by (elim exE conjE) (rule that)
    have nofail: "\<not> (bD \<and> L * BLOCK_SIZE c = dA)"
      using good(1) by auto
    from B' show "\<exists>st e' s'. translate_clean c event (i * BLOCK_SIZE c + pg) pg
        (D * BLOCK_SIZE c) (L * BLOCK_SIZE c) s = Some (st, e', s') \<and>
        ftl_invariant c s' \<and> progress c s s' \<and> logical_to_emptiness s' = logical_to_emptiness s"
    proof (elim disjE conjE)
      assume fail: "bL" "lB = dA" "s2 = s1"
      have "translate_clean c event (i * BLOCK_SIZE c + pg) pg (D * BLOCK_SIZE c) (L * BLOCK_SIZE c) s =
          Some (FAILURE, event, s1)"
        using translate_clean_run [of c s "D * BLOCK_SIZE c" bD "i * BLOCK_SIZE c + pg" pg
            "L * BLOCK_SIZE c" dA s1 bL lB s2 False s event, unfolded us, OF od A ol Bq] fail nofail
        by simp
      with good(3,4,5) show ?thesis
        by simp
    next
      assume good2: "lB \<noteq> dA" "lB = log_block s2 (data_block s2 i) * BLOCK_SIZE c"
        "dA = data_block s2 i * BLOCK_SIZE c"
        "ftl_invariant c s2" "progress c s1 s2" "logical_to_emptiness s2 = logical_to_emptiness s1"
        "data_to_log s2 ! data_block s2 i \<noteq> 0"
        "erase_count s2 ! log_block s2 (data_block s2 i) < BLOCK_ERASES c"
        "erase_count s2 ! data_block s2 i < BLOCK_ERASES c"
      note inv2 = ftl_invariantD [OF good2(4)]
      note len2 = tables_allocatedD [OF inv2(1)]
      have pr2: "progress c s s2"
        using good(4) good2(5) len(2) by (rule progress_trans)
      have l2e2: "logical_to_emptiness s2 = logical_to_emptiness s"
        by (simp add: good2(6) good(5))
      from clean_spec [OF assms(1) good2(4) assms(3) good2(7,9,8)]
      obtain ok s3 where cl: "clean c (i * BLOCK_SIZE c) dA lB s2 = Some (ok, s3)"
        and cl': "if ok then \<exists>es cnt. s3 = s2\<lparr>controller_issued := controller_issued s2 @ es,
              erase_count := cnt\<rparr> \<and> targets_below c (erase_count s2) es \<and> worn c s2 cnt
            else s3 = s2"
        unfolding good2(2,3) [symmetric] by (elim exE conjE) (rule that)
      have nofail2: "\<not> (bL \<and> lB = dA)"
        using good2(1) by simp
      note run = translate_clean_run [of c s "D * BLOCK_SIZE c" bD "i * BLOCK_SIZE c + pg" pg
          "L * BLOCK_SIZE c" dA s1 bL lB s2 ok s3 event, unfolded us, OF od A ol Bq cl]
      show ?thesis
      proof (cases ok)
        case False
        with cl' have "s3 = s2"
          by simp
        with run nofail nofail2 False
        have "translate_clean c event (i * BLOCK_SIZE c + pg) pg (D * BLOCK_SIZE c) (L * BLOCK_SIZE c) s =
            Some (FAILURE, event, s2)"
          by simp
        with good2(4) pr2 l2e2 show ?thesis
          by simp
      next
        case True
        with cl' obtain es cnt where s3: "s3 = s2\<lparr>controller_issued := controller_issued s2 @ es,
              erase_count := cnt\<rparr>"
          and es: "targets_below c (erase_count s2) es" and worn: "worn c s2 cnt"
          by auto
        have Inv3: "ftl_invariant c s3"
          using good2(4) worn by (rule invariant_worn) (simp_all add: s3)
        have "progress c s2 s3"
          using worn es by (rule progress_worn) (simp_all add: s3)
        with pr2 have pr3: "progress c s s3"
          using len(2) by (rule progress_trans)
        define s4 where "s4 = s3\<lparr>log_to_pages := (log_to_pages s3)(lB \<mapsto> manifest_string [pg])\<rparr>"
        have Inv4: "ftl_invariant c s4"
          unfolding s4_def using Inv3 by (rule invariant_manifest) (use B in simp)
        have "progress c s3 s4"
          by (rule progress_same) (simp_all add: s4_def)
        with pr3 have pr4: "progress c s s4"
          using len(2) by (rule progress_trans)
        have l2e4: "logical_to_emptiness s4 = logical_to_emptiness s"
          by (simp add: s4_def s3 l2e2)
        from run nofail nofail2 True
        have "translate_clean c event (i * BLOCK_SIZE c + pg) pg (D * BLOCK_SIZE c) (L * BLOCK_SIZE c) s =
            Some (SUCCESS, event\<lparr>ev_address := page_address c lB 0\<rparr>, s4)"
          by (simp add: s4_def)
        with Inv4 pr4 l2e4 show ?thesis
          by simp
      qed
    qed
  qed
qed

subsection \<open>A host write\<close>

lemma find_past_end:
  "str_find (manifest_string m) '','' (length (manifest_string m)) = None"
  by (simp add: str_find_def)

lemma count_commas_manifest:
  "i < length m \<Longrightarrow>
   count_commas (manifest_string m) (Some (comma_at m i)) w = w + of_nat (length m - i)"
proof (induction "length m - i" arbitrary: i w)
  case 0
  then show ?case by simp
next
  case (Suc n)
  show ?case
  proof (cases "Suc i < length m")
    case True
    have "str_find (manifest_string m) '','' (comma_at m i + 1) = Some (comma_at m (Suc i))"
      using find_comma [OF True] Suc.prems by (simp add: comma_at_Suc)
    then have "count_commas (manifest_string m) (Some (comma_at m i)) w =
        count_commas (manifest_string m) (Some (comma_at m (Suc i))) (w + 1)"
      by (subst count_commas.simps) simp
    also have "\<dots> = w + 1 + of_nat (length m - Suc i)"
      using Suc.hyps(2) True by (intro Suc.hyps(1)) simp_all
    also have "w + 1 + of_nat (length m - Suc i) = w + of_nat (length m - i)"
      using Suc.prems by (simp add: Suc_diff_Suc [symmetric])
    finally show ?thesis .
  next
    case False
    with Suc.prems have last: "Suc i = length m"
      by simp
    then have "comma_at m i + 1 = length (manifest_string m)"
      using comma_at_Suc [OF Suc.prems] by simp
    then have "str_find (manifest_string m) '','' (comma_at m i + 1) = None"
      by (simp only: find_past_end)
    then have "count_commas (manifest_string m) (Some (comma_at m i)) w = w + 1"
      by (subst count_commas.simps) (simp add: count_commas.simps [of _ None])
    with last show ?thesis
      by (simp add: Suc_diff_le [symmetric] flip: last)
  qed
qed

lemma next_free_log_page_manifest:
  assumes "length m < 2 ^ 32"
  shows "next_free_log_page c (manifest_string m) =
    (if BLOCK_SIZE c \<le> length m then None else Some (length m))"
proof -
  have "count_commas (manifest_string m) (str_find (manifest_string m) '','' 0) 0 =
      (of_nat (length m) :: 32 word)"
  proof (cases m)
    case Nil
    then show ?thesis
      by (simp add: str_find_def count_commas.simps [of _ None])
  next
    case (Cons x xs)
    then have pos: "0 < length m"
      by simp
    from find_comma [OF pos] have "str_find (manifest_string m) '','' 0 = Some (comma_at m 0)"
      by simp
    with count_commas_manifest [OF pos, of 0] show ?thesis
      by simp
  qed
  moreover have "unat (of_nat (length m) :: 32 word) = length m"
    using assms by (simp add: unsigned_of_nat take_bit_nat_eq_self)
  ultimately show ?thesis
    by (simp add: next_free_log_page_def)
qed

lemma progress_cong:
  assumes "progress c s s'" and "erase_count s'' = erase_count s'"
    and "controller_issued s'' = controller_issued s'"
  shows "progress c s s''"
  using assms by (simp add: progress_def)

lemma written_mono:
  assumes "L div sizeof_unsigned_int < length (logical_to_emptiness s)"
    and "set_page_written L s = Some s1" and "logical_block_written c s k"
  shows "logical_block_written c s1 k"
proof -
  from assms(3) obtain j where j: "j < BLOCK_SIZE c"
    "check_page_empty s (k * BLOCK_SIZE c + j) = Some False"
    unfolding logical_block_written_def by (elim exE conjE)
  from j(2) have "(k * BLOCK_SIZE c + j) div sizeof_unsigned_int < length (logical_to_emptiness s)"
    by (auto simp: check_page_empty_def array_get_def split: if_splits)
  from set_page_written_roundtrip [OF assms(1) this] assms(2)
  have "check_page_empty s1 L = Some False"
    and "k * BLOCK_SIZE c + j \<noteq> L \<longrightarrow>
      check_page_empty s1 (k * BLOCK_SIZE c + j) = check_page_empty s (k * BLOCK_SIZE c + j)"
    by auto
  with j(2) have "check_page_empty s1 (k * BLOCK_SIZE c + j) = Some False"
    by (cases "k * BLOCK_SIZE c + j = L") simp_all
  with j(1) show ?thesis
    unfolding logical_block_written_def by blast
qed

lemma invariant_written:
  assumes "ftl_invariant c s" and "L div sizeof_unsigned_int < length (logical_to_emptiness s)"
    and "set_page_written L s = Some s1"
  shows "ftl_invariant c s1"
proof -
  note inv = ftl_invariantD [OF assms(1)]
  from assms(2,3) have s1: "s1 = s\<lparr>logical_to_emptiness := (logical_to_emptiness s)
        [L div sizeof_unsigned_int :=
           logical_to_emptiness s ! (L div sizeof_unsigned_int) OR push_bit (L mod sizeof_unsigned_int) 1]\<rparr>"
    by (simp add: set_page_written_eq)
  have f: "logical_to_physical s1 = logical_to_physical s" "data_to_log s1 = data_to_log s"
    "erase_count s1 = erase_count s" "op_blocks s1 = op_blocks s" "log_to_pages s1 = log_to_pages s"
    "length (logical_to_emptiness s1) = length (logical_to_emptiness s)"
    by (simp_all add: s1)
  have "tables_allocated c s1"
    using inv(1) by (simp add: tables_allocated_def f)
  moreover have "inv_data c s1"
    using inv(2) by (simp only: inv_data_cong [OF f(1)])
  moreover have "inv_log c s1"
    unfolding inv_log_def
  proof (intro conjI allI impI)
    fix d assume d: "d < NUM_OF_PHY_B c" and nz: "data_to_log s1 ! d \<noteq> 0"
    from nz have nz': "data_to_log s ! d \<noteq> 0"
      by (simp add: f(2))
    note o = inv_logD [OF inv(3) d nz']
    show "0 \<le> int d + data_to_log s1 ! d" "log_block s1 d < NUM_OF_PHY_B c"
      "log_to_pages s1 (log_block s1 d * BLOCK_SIZE c) \<noteq> None"
      using o(1,2,5) by (simp_all add: f(2,5) log_block_cong [OF f(2)])
    from o(3) obtain i where i: "i < NUM_OF_LGC_B c" "data_block s i = d" "logical_block_written c s i"
      by (elim exE conjE) (rule that)
    from written_mono [OF assms(2,3) i(3)] i(1,2)
    show "\<exists>i<NUM_OF_LGC_B c. data_block s1 i = d \<and> logical_block_written c s1 i"
      by (intro exI [of _ i]) (simp add: data_block_cong [OF f(1)])
  next
    fix d i assume d: "d < NUM_OF_PHY_B c" and nz: "data_to_log s1 ! d \<noteq> 0" and i: "i < NUM_OF_LGC_B c"
    from nz have nz': "data_to_log s ! d \<noteq> 0"
      by (simp add: f(2))
    from inv_logD(4) [OF inv(3) d nz' i] show "data_block s1 i \<noteq> log_block s1 d"
      by (simp add: log_block_cong [OF f(2)] data_block_cong [OF f(1)])
  next
    fix d d' assume "d < NUM_OF_PHY_B c" "d' < NUM_OF_PHY_B c"
      "data_to_log s1 ! d \<noteq> 0" "data_to_log s1 ! d' \<noteq> 0" "log_block s1 d = log_block s1 d'"
    then show "d = d'"
      using inv_logD(6) [OF inv(3), of d d'] by (simp add: f(2) log_block_cong [OF f(2)])
  qed
  moreover have "inv_pool c s1"
  proof -
    have "free_block c s1 p = free_block c s p" for p
      by (rule free_block_cong) (simp_all add: f)
    with inv(4) show ?thesis
      by (simp add: inv_pool_def f(4))
  qed
  moreover have "inv_manifests c s1"
    using inv(5) by (simp only: inv_manifests_cong [OF f(5)])
  moreover have "inv_counts c s1"
    using inv(6) by (simp add: inv_counts_def f(3))
  ultimately show ?thesis
    by (simp add: ftl_invariant_def)
qed

lemma translate_write_spec:
  assumes "valid_config c" and "ftl_invariant c s" and "i < NUM_OF_LGC_B c" and "pg < BLOCK_SIZE c"
  shows "\<exists>st e' s'. translate_write c event (i * BLOCK_SIZE c + pg) pba pg
        (data_block s i * BLOCK_SIZE c) s = Some (st, e', s') \<and>
      ftl_invariant c s' \<and> progress c s s'"
proof -
  note inv = ftl_invariantD [OF assms(2)]
  note len = tables_allocatedD [OF inv(1)]
  have B: "0 < BLOCK_SIZE c"
    using assms(1) by (rule valid_config_facts)
  define la where "la = i * BLOCK_SIZE c + pg"
  define D where "D = data_block s i"
  have D: "D < NUM_OF_PHY_B c"
    unfolding D_def using inv(2) assms(3) by (rule inv_dataD)
  have la: "la < NUM_OF_LGC_B c * BLOCK_SIZE c"
    unfolding la_def using assms(3,4) by (rule logical_page_bound)
  have word: "la div sizeof_unsigned_int < length (logical_to_emptiness s)"
    using word_in_bitmap [OF B la] by (simp add: len)
  from check_page_empty_defined [OF assms(1) inv(1) la]
  obtain e where e: "check_page_empty s la = Some e"
    by simp
  have same: "progress c s s"
    by (rule progress_same) simp_all
  show ?thesis
    unfolding la_def [symmetric] D_def [symmetric]
  proof (cases e)
    case True
    from set_page_written_roundtrip [OF word word] obtain s1 where
      s1: "set_page_written la s = Some s1"
      by (elim exE conjE)
    have "ftl_invariant c s1"
      using assms(2) word s1 by (rule invariant_written)
    moreover have "progress c s s1"
      using s1 word by (intro progress_same) (auto simp: set_page_written_eq)
    moreover have "translate_write c event la pba pg (D * BLOCK_SIZE c) s =
        Some (SUCCESS, event\<lparr>ev_address := pba\<rparr>, s1)"
      by (simp add: translate_write_def e True s1)
    ultimately show "\<exists>st e' s'. translate_write c event la pba pg (D * BLOCK_SIZE c) s = Some (st, e', s') \<and>
        ftl_invariant c s' \<and> progress c s s'"
      by simp
  next
    case False
    have wr: "logical_block_written c s i"
      unfolding logical_block_written_def using e False assms(4) by (auto simp: la_def)
    note clb = log_address [OF assms(1) inv(1,3) D]
    show "\<exists>st e' s'. translate_write c event la pba pg (D * BLOCK_SIZE c) s = Some (st, e', s') \<and>
        ftl_invariant c s' \<and> progress c s s'"
    proof (cases "data_to_log s ! D = 0")
      case paired: False
      define L where "L = log_block s D"
      have "log_to_pages s (L * BLOCK_SIZE c) \<noteq> None"
        unfolding L_def using inv(3) D paired by (rule inv_logD)
      then obtain str where man: "log_to_pages s (L * BLOCK_SIZE c) = Some str"
        by blast
      with inv(5) obtain m where m: "str = manifest_string m" "length m \<le> BLOCK_SIZE c"
        unfolding inv_manifests_def by blast
      have "BLOCK_SIZE c \<le> RAW_SIZE c"
        using valid_config_facts(1-3,9-12) [OF assms(1)] by (simp add: RAW_SIZE_def)
      with m(2) valid_config_facts(4) [OF assms(1)] have "length m < 2 ^ 32"
        by simp
      note nf = next_free_log_page_manifest [OF this, of c]
      show ?thesis
      proof (cases "BLOCK_SIZE c \<le> length m")
        case full: True
        from translate_clean_spec [OF assms(1,2,3,4) paired [unfolded D_def], of event]
        obtain st e' s' where "translate_clean c event la pg (D * BLOCK_SIZE c) (L * BLOCK_SIZE c) s =
            Some (st, e', s')" and "ftl_invariant c s'" and "progress c s s'"
          unfolding la_def [symmetric] D_def [symmetric] L_def [symmetric] by (elim exE conjE) simp
        moreover have "translate_write c event la pba pg (D * BLOCK_SIZE c) s =
            translate_clean c event la pg (D * BLOCK_SIZE c) (L * BLOCK_SIZE c) s"
          using paired full
          by (simp add: translate_write_def e False clb L_def [symmetric] man deref_def m(1) nf)
        ultimately show ?thesis
          by simp
      next
        case room: False
        define s' where "s' = s\<lparr>log_to_pages := (log_to_pages s)(L * BLOCK_SIZE c \<mapsto> manifest_string (m @ [pg]))\<rparr>"
        have "ftl_invariant c s'"
          unfolding s'_def using assms(2) by (rule invariant_manifest) (use room in simp)
        moreover have "progress c s s'"
          by (rule progress_same) (simp_all add: s'_def)
        moreover have "translate_write c event la pba pg (D * BLOCK_SIZE c) s =
            Some (SUCCESS, event\<lparr>ev_address := page_address c (L * BLOCK_SIZE c) (length m)\<rparr>, s')"
          using paired room
          by (simp add: translate_write_def e False clb L_def [symmetric] man deref_def m(1) nf
              s'_def manifest_string_append)
        ultimately show ?thesis
          by simp
      qed
    next
      case single: True
      from next_unmapped_spec [OF assms(1,2)] obtain r s1 where
        nu: "next_unmapped_log_block c s = Some (r, s1)" and h: "handed c s r s1"
        by (elim exE conjE) (rule that)
      show ?thesis
      proof (cases r)
        case None
        with h have "s1 = s"
          by (simp add: handed_def)
        then have "translate_write c event la pba pg (D * BLOCK_SIZE c) s = Some (FAILURE, event, s)"
          using single by (simp add: translate_write_def e False clb nu None)
        with assms(2) same show ?thesis
          by simp
      next
        case (Some P)
        from h have Inv1: "ftl_invariant c s1" and pr1: "progress c s s1"
          and l2e1: "logical_to_emptiness s1 = logical_to_emptiness s"
          and free: "free_block c s1 P" and out: "P \<notin> set (op_blocks s1)"
          and moved: "logical_to_physical s1 ! i = logical_to_physical s ! i \<or> P = D * BLOCK_SIZE c"
          using assms(3) by (auto simp: handed_def Some D_def)
        note inv1 = ftl_invariantD [OF Inv1]
        note len1 = tables_allocatedD [OF inv1(1)]
        define p where "p = P div BLOCK_SIZE c"
        have P: "P = p * BLOCK_SIZE c"
          using free by (simp add: free_block_def p_def)
        have p: "p < NUM_OF_PHY_B c"
          and pdata: "\<forall>k < NUM_OF_LGC_B c. data_block s1 k \<noteq> p"
          and plog: "\<forall>d < NUM_OF_PHY_B c. data_to_log s1 ! d \<noteq> 0 \<longrightarrow> log_block s1 d \<noteq> p"
          using free by (simp_all add: free_block_def p_def)
        define s2 where "s2 = s1\<lparr>data_to_log := (data_to_log s1)[D := int p - int D]\<rparr>"
        define s3 where "s3 = (if log_to_pages s2 P = None
            then s2\<lparr>log_to_pages := (log_to_pages s2)(P \<mapsto> manifest_string [pg])\<rparr> else s2)"
        have q: "set_log_block c (D * BLOCK_SIZE c) P s1 = Some s2"
          unfolding s2_def P using assms(1) by (rule set_log_block_eq) (simp add: len1 D)
        have run: "translate_write c event la pba pg (D * BLOCK_SIZE c) s =
            Some (SUCCESS, event\<lparr>ev_address := page_address c P 0\<rparr>, s3)"
          using single by (simp add: translate_write_def e False clb nu Some q s3_def Let_def)
        have f: "logical_to_physical s3 = logical_to_physical s1"
          "data_to_log s3 = (data_to_log s1)[D := int p - int D]"
          "logical_to_emptiness s3 = logical_to_emptiness s1" "erase_count s3 = erase_count s1"
          "op_blocks s3 = op_blocks s1" "controller_issued s3 = controller_issued s1"
          "log_to_pages s3 = (if log_to_pages s1 P = None
              then (log_to_pages s1)(P \<mapsto> manifest_string [pg]) else log_to_pages s1)"
          by (simp_all add: s3_def s2_def)
        have pr: "progress c s s3"
          using pr1 f(4,6) by (rule progress_cong)
        have man3: "inv_manifests c s3"
          using inv1(5) B unfolding inv_manifests_def f(7)
          by (auto split: if_splits intro: exI [of _ "[pg]"])
        have "ftl_invariant c s3"
        proof (cases "data_block s1 i = D")
          case True
          have wr1: "logical_block_written c s1 i"
            using wr by (simp add: logical_block_written_cong [OF l2e1])
          show ?thesis
          proof (rule invariant_new_log [OF assms(1) Inv1 assms(3) wr1, of p])
            show "free_block c s1 (p * BLOCK_SIZE c)"
              using free by (simp add: P)
            show "distinct (op_blocks s3)" "set (op_blocks s3) \<subseteq> set (op_blocks s1)"
              "p * BLOCK_SIZE c \<notin> set (op_blocks s3)"
              using inv1(4) out by (simp_all add: f(5) inv_pool_def P)
            show "inv_manifests c s3"
              by (rule man3)
            show "log_to_pages s3 (p * BLOCK_SIZE c) \<noteq> None"
              by (simp add: f(7) P)
            show "\<forall>d<NUM_OF_PHY_B c. d \<noteq> data_block s1 i \<longrightarrow> data_to_log s1 ! d \<noteq> 0 \<longrightarrow>
                log_to_pages s3 (log_block s1 d * BLOCK_SIZE c) =
                log_to_pages s1 (log_block s1 d * BLOCK_SIZE c)"
              using plog B by (simp add: f(7) P)
            show "data_to_log s3 = (data_to_log s1)[data_block s1 i := int p - int (data_block s1 i)]"
              by (simp add: f(2) True)
            show "logical_to_physical s3 = logical_to_physical s1"
              "logical_to_emptiness s3 = logical_to_emptiness s1" "erase_count s3 = erase_count s1"
              by (rule f)+
          qed
        next
          case False
          with moved have PD: "P = D * BLOCK_SIZE c"
            by (auto simp: data_block_def D_def)
          then have pD: "p = D"
            using B by (simp add: p_def)
          have "data_to_log s1 ! D = 0"
          proof (rule ccontr)
            assume nz: "data_to_log s1 ! D \<noteq> 0"
            from inv_logD(3) [OF inv1(3) D nz] pdata show False
              by (auto simp: pD)
          qed
          then have "(data_to_log s1)[D := int p - int D] = data_to_log s1"
            by (simp add: pD list_update_same_conv len1 D)
          then have s2: "s2 = s1"
            by (simp add: s2_def)
          show ?thesis
          proof (cases "log_to_pages s2 P = None")
            case True
            then have "s3 = s1\<lparr>log_to_pages := (log_to_pages s1)(P \<mapsto> manifest_string [pg])\<rparr>"
              by (simp add: s3_def s2)
            moreover have "ftl_invariant c (s1\<lparr>log_to_pages := (log_to_pages s1)(P \<mapsto> manifest_string [pg])\<rparr>)"
              using Inv1 by (rule invariant_manifest) (use B in simp)
            ultimately show ?thesis
              by simp
          next
            case False
            then have "s3 = s2"
              unfolding s3_def by (rule if_not_P)
            with Inv1 show ?thesis
              by (simp add: s2)
          qed
        qed
        with run pr show ?thesis
          by simp
      qed
    qed
  qed
qed

end
